(* ===== verification/Void_Prelude.thy ===== *)
theory Void_Prelude
  imports Main "HOL-Library.Word"
begin

text \<open>
  Shared vocabulary of the development: the machine types of the Rust code, its checked and
  saturating \<open>usize\<close> arithmetic, bounds-checked access to slices, and the collections of facts
  the component theories extend. Signed integers are kept as words and read with \<open>sint\<close>;
  \<open>usize\<close> values are naturals, with \<open>usize_limit\<close> written out wherever the code checks for
  overflow (the server targets 64-bit platforms).
\<close>

unbundle bit_operations_syntax

subsection \<open>Machine types\<close>

type_synonym u8 = "8 word"
type_synonym u16 = "16 word"
type_synonym u32 = "32 word"
type_synonym u64 = "64 word"
type_synonym i8 = "8 word"
type_synonym i16 = "16 word"
type_synonym i32 = "32 word"
type_synonym i64 = "64 word"
type_synonym u128 = "128 word"

abbreviation usize_limit :: nat where
  "usize_limit \<equiv> 2 ^ 64"

subsection \<open>Fact collections\<close>

named_theorems codec_simps "equations of encoders and decoders"
named_theorems codec_safe "decoders that keep the resource invariant"
named_theorems window_simps "operations on container windows"
named_theorems command_simps "the command pipeline"

subsection \<open>Arithmetic on usize\<close>

definition checked_add :: "nat \<Rightarrow> nat \<Rightarrow> nat option" where
  "checked_add a b = (if a + b < usize_limit then Some (a + b) else None)"

definition checked_mul :: "nat \<Rightarrow> nat \<Rightarrow> nat option" where
  "checked_mul a b = (if a * b < usize_limit then Some (a * b) else None)"

definition checked_sub :: "nat \<Rightarrow> nat \<Rightarrow> nat option" where
  "checked_sub a b = (if b \<le> a then Some (a - b) else None)"

definition saturating_add :: "nat \<Rightarrow> nat \<Rightarrow> nat" where
  "saturating_add a b = min (a + b) (usize_limit - 1)"

definition div_ceil :: "nat \<Rightarrow> nat \<Rightarrow> nat" where
  "div_ceil a b = (a + b - 1) div b"

lemma checked_add_Some [simp]: "checked_add a b = Some c \<longleftrightarrow> c = a + b \<and> a + b < usize_limit"
  by (auto simp: checked_add_def)

lemma checked_mul_Some [simp]: "checked_mul a b = Some c \<longleftrightarrow> c = a * b \<and> a * b < usize_limit"
  by (auto simp: checked_mul_def)

lemma checked_sub_Some [simp]: "checked_sub a b = Some c \<longleftrightarrow> b \<le> a \<and> c = a - b"
  by (auto simp: checked_sub_def)

lemma div_ceil_le: "0 < b \<Longrightarrow> a \<le> div_ceil a b * b"
proof -
  assume b: "0 < b"
  have "a + b - 1 = (a + b - 1) div b * b + (a + b - 1) mod b" by simp
  moreover have "(a + b - 1) mod b < b" using b by simp
  ultimately show ?thesis unfolding div_ceil_def by linarith
qed

lemma less_div_ceil: "0 < b \<Longrightarrow> i < n \<Longrightarrow> i div b < div_ceil n b"
proof -
  assume b: "0 < b" and i: "i < n"
  have "i + b \<le> n + b - 1" using i by simp
  then have "(i + b) div b \<le> (n + b - 1) div b" by (rule div_le_mono)
  then have "Suc (i div b) \<le> (n + b - 1) div b" using b div_add_self2 [of b i] by simp
  then show ?thesis by (simp add: div_ceil_def)
qed

subsection \<open>Slices\<close>

text \<open>\<open>slice.get(i)\<close>: \<open>None\<close> out of range.\<close>

definition slice_get :: "'a list \<Rightarrow> nat \<Rightarrow> 'a option" where
  "slice_get xs i = (if i < length xs then Some (xs ! i) else None)"

lemma slice_get_Some [simp]: "slice_get xs i = Some x \<longleftrightarrow> i < length xs \<and> xs ! i = x"
  by (auto simp: slice_get_def)

lemma slice_get_None [simp]: "slice_get xs i = None \<longleftrightarrow> length xs \<le> i"
  by (auto simp: slice_get_def)

text \<open>\<open>iter().position(p)\<close>: the first index whose element satisfies the predicate.\<close>

fun position :: "('a \<Rightarrow> bool) \<Rightarrow> 'a list \<Rightarrow> nat option" where
  "position p [] = None"
| "position p (x # xs) = (if p x then Some 0 else map_option Suc (position p xs))"

lemma position_Some:
  "position p xs = Some i \<Longrightarrow> i < length xs \<and> p (xs ! i)"
  by (induction xs arbitrary: i) (auto split: if_splits)

lemma position_None: "position p xs = None \<longleftrightarrow> (\<forall>x \<in> set xs. \<not> p x)"
  by (induction xs) auto

lemma position_Ex: "x \<in> set xs \<Longrightarrow> p x \<Longrightarrow> \<exists>i. position p xs = Some i"
  using position_None [of p xs] by (cases "position p xs") auto

lemma sum_list_update_add:
  fixes f :: "'a \<Rightarrow> nat"
  assumes "i < length xs"
  shows "sum_list (map f (xs[i := x])) + f (xs ! i) = sum_list (map f xs) + f x"
  using assms
proof (induction xs arbitrary: i)
  case Nil
  then show ?case by simp
next
  case (Cons y ys)
  then show ?case by (cases i) (auto simp: algebra_simps)
qed

lemma take_drop_nth: "i < length xs \<Longrightarrow> take 1 (drop i xs) = [xs ! i]"
  by (simp add: Cons_nth_drop_Suc [symmetric])

subsection \<open>Words\<close>

lemma bytes_ident: "take_bit n w OR push_bit n (drop_bit n w) = (w :: 'a::len word)"
  by (rule bit_word_eqI) (simp add: bit_simps, metis le_add_diff_inverse linorder_not_le)

lemma drop_bit_less: "w \<noteq> 0 \<Longrightarrow> 0 < n \<Longrightarrow> unat (drop_bit n w) < unat (w :: 'a::len word)"
proof -
  assume w: "w \<noteq> 0" and n: "0 < n"
  have "unat (drop_bit n w) = unat w div 2 ^ n" by (simp add: unat_drop_bit_eq flip: drop_bit_eq_div)
  moreover have "0 < unat w" using w by (simp add: unat_gt_0)
  moreover have "1 < (2::nat) ^ n" by (rule one_less_power [OF _ n]) simp
  ultimately show ?thesis by (simp add: int_div_less_self)
qed

lemma nat_sint_word_of_nat:
  assumes "n < 2 ^ 31"
  shows "sint (word_of_nat n :: i32) = int n"
proof -
  have "sint (word_of_int (int n) :: i32) = int n"
    using assms by (intro signed_take_bit_int_eq_self [THEN trans [OF sint_sbintrunc']]) auto
  then show ?thesis by simp
qed

subsection \<open>Decimal numerals\<close>

text \<open>The \<open>{}\<close> of a format string on an unsigned number.\<close>

fun show_nat :: "nat \<Rightarrow> string" where
  "show_nat n =
     (if n < 10 then [char_of (48 + n)] else show_nat (n div 10) @ [char_of (48 + n mod 10)])"

declare show_nat.simps [simp del]

definition show_int :: "int \<Rightarrow> string" where
  "show_int i = (if i < 0 then ''-'' @ show_nat (nat (- i)) else show_nat (nat i))"

subsection \<open>Strings\<close>

definition strip_prefix :: "string \<Rightarrow> string \<Rightarrow> string option" where
  "strip_prefix p s = (if take (length p) s = p then Some (drop (length p) s) else None)"

lemma strip_prefix_Some [simp]: "strip_prefix p s = Some t \<longleftrightarrow> s = p @ t"
  by (auto simp: strip_prefix_def) (metis append_take_drop_id)

end
