(* ===== verification/Codec_Core.thy ===== *)
theory Codec_Core
  imports Void_Prelude "HOL-Library.Sublist"
begin

text \<open>
  The decoder of \<open>void-codec/src/lib.rs\<close>: the limits a packet is decoded under, the cursor
  with its running totals, the errors, and the two contracts every \<open>Decode\<close> implementation
  is checked against. A decoder method takes the cursor and returns a \<open>Result\<close> together with
  the cursor it leaves, on the error paths too. The encoders append to a buffer; they are
  modelled by the bytes they append.
\<close>

section \<open>Limits, errors and the cursor\<close>

record decode_limits =
  max_string_bytes :: nat
  max_collection_elements :: nat
  max_total_elements :: nat
  max_allocation_bytes :: nat
  max_remaining_bytes :: nat
  max_nbt_bytes :: nat
  max_nbt_depth :: nat
  max_decode_depth :: nat

definition default_limits :: decode_limits where
  "default_limits = \<lparr>
     max_string_bytes = 32 * 1024,
     max_collection_elements = 65536,
     max_total_elements = 131072,
     max_allocation_bytes = 4 * 1024 * 1024,
     max_remaining_bytes = 2 * 1024 * 1024,
     max_nbt_bytes = 2 * 1024 * 1024,
     max_nbt_depth = 64,
     max_decode_depth = 128\<rparr>"

datatype limit_kind =
    StringBytes
  | CollectionElements
  | TotalElements
  | AllocationBytes
  | RemainingBytes
  | NbtBytes
  | NbtDepth
  | DecodeDepth

datatype decode_error =
    UnexpectedEof
  | InvalidVarintLength
  | InvalidPacketId "u8 option"
  | InvalidLength
  | LimitExceeded limit_kind nat nat
  | AllocationFailed nat
  | TrailingData nat

text \<open>
  The cursor. The field \<open>allocator\<close> is not part of the Rust struct: it stands for the memory
  allocator behind \<open>try_reserve_exact\<close> and says which reservations of that many bytes
  succeed; no operation changes it.
\<close>

record decoder =
  remaining :: "u8 list"
  limits :: decode_limits
  total_elements :: nat
  allocated_bytes :: nat
  depth :: nat
  allocator :: "nat \<Rightarrow> bool"

definition new_decoder :: "(nat \<Rightarrow> bool) \<Rightarrow> u8 list \<Rightarrow> decode_limits \<Rightarrow> decoder" where
  "new_decoder mem bytes lims = \<lparr>
     remaining = bytes,
     limits = lims,
     total_elements = 0,
     allocated_bytes = 0,
     depth = 0,
     allocator = mem\<rparr>"

section \<open>The decoder monad\<close>

type_synonym 'a dec = "decoder \<Rightarrow> (decode_error + 'a) \<times> decoder"

text \<open>\<open>Ok(x)\<close>, \<open>Err(e)\<close> and the \<open>?\<close> operator.\<close>

definition dec_ok :: "'a \<Rightarrow> 'a dec" where
  "dec_ok x d = (Inr x, d)"

definition dec_err :: "decode_error \<Rightarrow> 'a dec" where
  "dec_err e d = (Inl e, d)"

definition dec_bind :: "'a dec \<Rightarrow> ('a \<Rightarrow> 'b dec) \<Rightarrow> 'b dec" where
  "dec_bind m f d = (case m d of (Inl e, d') \<Rightarrow> (Inl e, d') | (Inr x, d') \<Rightarrow> f x d')"

definition dec_map :: "('a \<Rightarrow> 'b) \<Rightarrow> 'a dec \<Rightarrow> 'b dec" where
  "dec_map g m = dec_bind m (\<lambda>x. dec_ok (g x))"

text \<open>\<open>opt.ok_or(e)?\<close>.\<close>

definition dec_ok_or :: "'a option \<Rightarrow> decode_error \<Rightarrow> 'a dec" where
  "dec_ok_or x e = (case x of None \<Rightarrow> dec_err e | Some y \<Rightarrow> dec_ok y)"

text \<open>Reading the cursor without changing it.\<close>

definition dec_get :: "(decoder \<Rightarrow> 'a) \<Rightarrow> 'a dec" where
  "dec_get g d = (Inr (g d), d)"

section \<open>Decoder methods\<close>

definition take_bytes :: "nat \<Rightarrow> u8 list dec" where
  "take_bytes len d =
     (if length (remaining d) < len then (Inl UnexpectedEof, d)
      else (Inr (take len (remaining d)), d\<lparr>remaining := drop len (remaining d)\<rparr>))"

definition decode :: "'a dec \<Rightarrow> 'a dec" where
  "decode decode_with d =
     (if max_decode_depth (limits d) \<le> depth d then
        (Inl (LimitExceeded DecodeDepth (saturating_add (depth d) 1) (max_decode_depth (limits d))), d)
      else
        (let (result, d') = decode_with (d\<lparr>depth := depth d + 1\<rparr>)
         in (result, d'\<lparr>depth := depth d' - 1\<rparr>)))"

definition decode_exact :: "'a dec \<Rightarrow> 'a dec" where
  "decode_exact decode_with =
     dec_bind (decode decode_with) (\<lambda>value.
     dec_bind (dec_get remaining) (\<lambda>rest.
     if rest \<noteq> [] then dec_err (TrailingData (length rest)) else dec_ok value))"

definition checked_len :: "i32 \<Rightarrow> limit_kind \<Rightarrow> nat \<Rightarrow> nat dec" where
  "checked_len value kind limit =
     (if sint value < 0 then dec_err InvalidLength
      else let len = nat (sint value) in
        if limit < len then dec_err (LimitExceeded kind len limit) else dec_ok len)"

definition charge_elements :: "nat \<Rightarrow> unit dec" where
  "charge_elements count d =
     (if max_collection_elements (limits d) < count then
        (Inl (LimitExceeded CollectionElements count (max_collection_elements (limits d))), d)
      else (case checked_add (total_elements d) count of
          None \<Rightarrow> (Inl InvalidLength, d)
        | Some sum_total \<Rightarrow>
            if max_total_elements (limits d) < sum_total then
              (Inl (LimitExceeded TotalElements sum_total (max_total_elements (limits d))), d)
            else (Inr (), d\<lparr>total_elements := sum_total\<rparr>)))"

definition charge_allocation :: "nat \<Rightarrow> unit dec" where
  "charge_allocation bytes d =
     (case checked_add (allocated_bytes d) bytes of
        None \<Rightarrow> (Inl InvalidLength, d)
      | Some sum_total \<Rightarrow>
          if max_allocation_bytes (limits d) < sum_total then
            (Inl (LimitExceeded AllocationBytes sum_total (max_allocation_bytes (limits d))), d)
          else (Inr (), d\<lparr>allocated_bytes := sum_total\<rparr>))"

text \<open>\<open>Vec::try_reserve_exact\<close>, with its failure mapped to \<open>AllocationFailed\<close>.\<close>

definition try_reserve :: "nat \<Rightarrow> unit dec" where
  "try_reserve requested d =
     (if allocator d requested then (Inr (), d) else (Inl (AllocationFailed requested), d))"

text \<open>\<open>Decode::decode\<close>: a whole buffer under the default limits; the rest of it on success.\<close>

definition decode_buf :: "(nat \<Rightarrow> bool) \<Rightarrow> 'a dec \<Rightarrow> u8 list \<Rightarrow> decode_error + ('a \<times> u8 list)" where
  "decode_buf mem decode_with buf =
     (case decode_with (new_decoder mem buf default_limits) of
        (Inl e, d) \<Rightarrow> Inl e
      | (Inr v, d) \<Rightarrow> Inr (v, remaining d))"

section \<open>The resource contract\<close>

text \<open>
  \<open>follows d d'\<close>: what any decoding may do to the cursor. It only drops bytes at the front,
  keeps the limits, restores the nesting depth, and its charges never pass the limits (a
  total that started above its limit is left as it was).
\<close>

definition follows :: "decoder \<Rightarrow> decoder \<Rightarrow> bool" where
  "follows d d' \<longleftrightarrow>
     suffix (remaining d') (remaining d) \<and>
     limits d' = limits d \<and> depth d' = depth d \<and> allocator d' = allocator d \<and>
     total_elements d \<le> total_elements d' \<and>
     total_elements d' \<le> max (total_elements d) (max_total_elements (limits d)) \<and>
     allocated_bytes d \<le> allocated_bytes d' \<and>
     allocated_bytes d' \<le> max (allocated_bytes d) (max_allocation_bytes (limits d))"

lemma follows_refl [simp, intro]: "follows d d"
  by (simp add: follows_def)

lemma follows_trans [trans]: "follows d d' \<Longrightarrow> follows d' d'' \<Longrightarrow> follows d d''"
  unfolding follows_def by (auto intro: suffix_order.trans)

definition keeps_budget :: "'a dec \<Rightarrow> bool" where
  "keeps_budget m \<longleftrightarrow> (\<forall>d. follows d (snd (m d)))"

lemma keeps_budgetI: "(\<And>d. follows d (snd (m d))) \<Longrightarrow> keeps_budget m"
  by (simp add: keeps_budget_def)

lemma keeps_budgetD: "keeps_budget m \<Longrightarrow> m d = (r, d') \<Longrightarrow> follows d d'"
  by (metis keeps_budget_def snd_conv)

lemma keeps_dec_ok [codec_safe]: "keeps_budget (dec_ok x)"
  by (rule keeps_budgetI) (simp add: dec_ok_def)

lemma keeps_dec_err [codec_safe]: "keeps_budget (dec_err e)"
  by (rule keeps_budgetI) (simp add: dec_err_def)

lemma keeps_dec_get [codec_safe]: "keeps_budget (dec_get g)"
  by (rule keeps_budgetI) (simp add: dec_get_def)

lemma keeps_dec_ok_or [codec_safe]: "keeps_budget (dec_ok_or x e)"
  by (auto simp: dec_ok_or_def codec_safe split: option.splits)

lemma keeps_dec_bind [codec_safe]:
  assumes m: "keeps_budget m" and f: "\<And>x. keeps_budget (f x)"
  shows "keeps_budget (dec_bind m f)"
proof (rule keeps_budgetI)
  fix d
  obtain r d' where md: "m d = (r, d')" by (cases "m d")
  with m have fd: "follows d d'" by (rule keeps_budgetD)
  show "follows d (snd (dec_bind m f d))"
  proof (cases r)
    case (Inl e)
    then show ?thesis using md fd by (simp add: dec_bind_def)
  next
    case (Inr x)
    have "follows d' (snd (f x d'))" using f by (simp add: keeps_budget_def)
    then show ?thesis using md fd Inr by (auto simp: dec_bind_def intro: follows_trans)
  qed
qed

lemma keeps_dec_map [codec_safe]: "keeps_budget m \<Longrightarrow> keeps_budget (dec_map g m)"
  by (simp add: dec_map_def codec_safe)

lemma keeps_if [codec_safe]:
  "(b \<Longrightarrow> keeps_budget m) \<Longrightarrow> (\<not> b \<Longrightarrow> keeps_budget n) \<Longrightarrow> keeps_budget (if b then m else n)"
  by simp

lemma keeps_take_bytes [codec_safe]: "keeps_budget (take_bytes n)"
  by (rule keeps_budgetI) (simp add: take_bytes_def follows_def suffix_drop)

lemma keeps_charge_elements [codec_safe]: "keeps_budget (charge_elements n)"
  by (rule keeps_budgetI) (auto simp: charge_elements_def follows_def split: option.splits)

lemma keeps_charge_allocation [codec_safe]: "keeps_budget (charge_allocation n)"
  by (rule keeps_budgetI) (auto simp: charge_allocation_def follows_def split: option.splits)

lemma keeps_try_reserve [codec_safe]: "keeps_budget (try_reserve n)"
  by (rule keeps_budgetI) (simp add: try_reserve_def)

lemma keeps_checked_len [codec_safe]: "keeps_budget (checked_len v k l)"
  by (simp add: checked_len_def Let_def codec_safe)

lemma keeps_decode [codec_safe]: "keeps_budget m \<Longrightarrow> keeps_budget (decode m)"
proof (rule keeps_budgetI)
  fix d
  assume m: "keeps_budget m"
  obtain r d' where md: "m (d\<lparr>depth := depth d + 1\<rparr>) = (r, d')"
    by (cases "m (d\<lparr>depth := depth d + 1\<rparr>)")
  with m have "follows (d\<lparr>depth := depth d + 1\<rparr>) d'" by (rule keeps_budgetD)
  then show "follows d (snd (decode m d))"
    using md by (simp add: decode_def follows_def)
qed

lemma keeps_decode_exact [codec_safe]: "keeps_budget m \<Longrightarrow> keeps_budget (decode_exact m)"
  by (simp add: decode_exact_def codec_safe)

section \<open>The contract of a Decode implementation\<close>

locale decode_impl =
  fixes decode_with :: "'a dec"
  assumes budget: "keeps_budget decode_with"
begin

lemma decode_budget: "keeps_budget (decode decode_with)"
  by (rule keeps_decode [OF budget])

text \<open>The nesting bound is enforced before anything of the input is looked at.\<close>

lemma decode_depth_bound:
  "fst (decode decode_with d) = Inr v \<Longrightarrow> depth d < max_decode_depth (limits d)"
  by (auto simp: decode_def split: if_splits)

lemma decode_exact_all:
  assumes "decode_exact decode_with d = (Inr v, d')"
  shows "remaining d' = [] \<and> decode decode_with d = (Inr v, d')"
proof -
  obtain r d1 where d1: "decode decode_with d = (r, d1)" by (cases "decode decode_with d")
  show ?thesis
    using assms d1
    by (cases r)
      (auto simp: decode_exact_def dec_bind_def dec_get_def dec_err_def dec_ok_def split: if_splits)
qed

text \<open>From a fresh cursor the totals stay below the limits, whether decoding succeeds or not.\<close>

lemma fresh_totals:
  assumes "decode_with (new_decoder mem bytes lims) = (r, d')"
  shows "total_elements d' \<le> max_total_elements lims \<and>
    allocated_bytes d' \<le> max_allocation_bytes lims \<and> suffix (remaining d') bytes"
  using keeps_budgetD [OF budget assms] by (simp add: follows_def new_decoder_def)

end

section \<open>The contract of an Encode and Decode pair\<close>

text \<open>
  \<open>room d e b l\<close>: the cursor's limits leave room for \<open>e\<close> more elements, \<open>b\<close> more bytes of
  allocation and \<open>l\<close> more nested calls of \<open>decode\<close>, and the allocator grants them.
\<close>

definition room :: "decoder \<Rightarrow> nat \<Rightarrow> nat \<Rightarrow> nat \<Rightarrow> bool" where
  "room d e b l \<longleftrightarrow>
     total_elements d + e \<le> max_total_elements (limits d) \<and>
     max_total_elements (limits d) < usize_limit \<and>
     allocated_bytes d + b \<le> max_allocation_bytes (limits d) \<and>
     max_allocation_bytes (limits d) < usize_limit \<and>
     depth d + l \<le> max_decode_depth (limits d) \<and>
     (\<forall>n. n \<le> max_allocation_bytes (limits d) \<longrightarrow> allocator d n)"

definition charged :: "decoder \<Rightarrow> nat \<Rightarrow> nat \<Rightarrow> u8 list \<Rightarrow> decoder" where
  "charged d e b rest = d\<lparr>remaining := rest,
     total_elements := total_elements d + e, allocated_bytes := allocated_bytes d + b\<rparr>"

lemma charged_fields [simp]:
  "remaining (charged d e b rest) = rest"
  "limits (charged d e b rest) = limits d"
  "depth (charged d e b rest) = depth d"
  "total_elements (charged d e b rest) = total_elements d + e"
  "allocated_bytes (charged d e b rest) = allocated_bytes d + b"
  by (simp_all add: charged_def)

lemma charged_charged [simp]:
  "charged (charged d e b rest) e' b' rest' = charged d (e + e') (b + b') rest'"
  by (simp add: charged_def add.assoc)

lemma room_charged [simp]:
  "room (charged d e b rest) e' b' l \<longleftrightarrow> room d (e + e') (b + b') l"
  by (simp add: room_def charged_def add.assoc)

lemma room_mono: "room d e b l \<Longrightarrow> e' \<le> e \<Longrightarrow> b' \<le> b \<Longrightarrow> l' \<le> l \<Longrightarrow> room d e' b' l'"
  by (auto simp: room_def)

locale codec = decode_impl decode_with for decode_with :: "'a dec" +
  fixes encode :: "'a \<Rightarrow> u8 list"
    and fits :: "decode_limits \<Rightarrow> 'a \<Rightarrow> bool"
    and elems :: "'a \<Rightarrow> nat"
    and bytes :: "'a \<Rightarrow> nat"
    and levels :: "'a \<Rightarrow> nat"
  assumes roundtrip:
    "fits (limits d) v \<Longrightarrow> room d (elems v) (bytes v) (levels v) \<Longrightarrow>
     remaining d = encode v @ rest \<Longrightarrow>
     decode_with d = (Inr v, charged d (elems v) (bytes v) rest)"
begin

lemma decode_roundtrip:
  assumes "fits (limits d) v" and "room d (elems v) (bytes v) (Suc (levels v))"
    and "remaining d = encode v @ rest"
  shows "decode decode_with d = (Inr v, charged d (elems v) (bytes v) rest)"
proof -
  let ?d = "d\<lparr>depth := depth d + 1\<rparr>"
  have "decode_with ?d = (Inr v, charged ?d (elems v) (bytes v) rest)"
    using assms by (intro roundtrip) (auto simp: room_def)
  moreover have "depth d < max_decode_depth (limits d)" using assms(2) by (simp add: room_def)
  ultimately show ?thesis by (simp add: decode_def charged_def)
qed

lemma decode_exact_roundtrip:
  assumes "fits (limits d) v" and "room d (elems v) (bytes v) (Suc (levels v))"
    and "remaining d = encode v"
  shows "decode_exact decode_with d = (Inr v, charged d (elems v) (bytes v) [])"
  using decode_roundtrip [OF assms(1,2), of "[]"] assms(3)
  by (simp add: decode_exact_def dec_bind_def dec_get_def dec_ok_def)

text \<open>An encoding determines its value: no two values in range share one.\<close>

lemma encode_inj:
  assumes "fits L v" "fits L w" and "encode v = encode w"
    and lim: "max_total_elements L < usize_limit" "max_allocation_bytes L < usize_limit"
    and v: "elems v \<le> max_total_elements L" "bytes v \<le> max_allocation_bytes L"
      "levels v \<le> max_decode_depth L"
    and w: "elems w \<le> max_total_elements L" "bytes w \<le> max_allocation_bytes L"
      "levels w \<le> max_decode_depth L"
  shows "v = w"
proof -
  let ?d = "new_decoder (\<lambda>_. True) (encode v) L"
  have "decode_with ?d = (Inr v, charged ?d (elems v) (bytes v) [])"
    using assms by (intro roundtrip) (auto simp: room_def new_decoder_def)
  moreover have "decode_with ?d = (Inr w, charged ?d (elems w) (bytes w) [])"
    using assms by (intro roundtrip) (auto simp: room_def new_decoder_def)
  ultimately show ?thesis by simp
qed

end

end
