(* ===== verification/Codec_Primitives.thy ===== *)
theory Codec_Primitives
  imports Codec_Core
begin

text \<open>
  The fixed-width primitives (\<open>integers.rs\<close>, \<open>booleans.rs\<close>, \<open>floats.rs\<close>, \<open>uuid.rs\<close>) and the
  variable-length integers (\<open>vari.rs\<close>, \<open>vari64.rs\<close>) of \<open>void-codec/src/primitives\<close>. Floats are
  their IEEE bit patterns, which is what \<open>to_be_bytes\<close> writes; a UUID is its 16 bytes as one
  word. Each pair is shown to be a \<open>codec\<close>.
\<close>

section \<open>Big-endian bytes\<close>

fun to_be_bytes :: "nat \<Rightarrow> 'a::len word \<Rightarrow> u8 list" where
  "to_be_bytes 0 w = []"
| "to_be_bytes (Suc n) w = to_be_bytes n (drop_bit 8 w) @ [ucast w]"

definition from_be_bytes :: "u8 list \<Rightarrow> 'a::len word" where
  "from_be_bytes bs = foldl (\<lambda>acc b. push_bit 8 acc OR ucast b) 0 bs"

lemma length_to_be_bytes [simp]: "length (to_be_bytes n w) = n"
  by (induction n w rule: to_be_bytes.induct) auto

lemma shift_in_byte:
  "push_bit 8 (take_bit n (drop_bit 8 w)) OR ucast (ucast w :: u8) = take_bit (8 + n) (w :: 'a::len word)"
  by (rule bit_word_eqI) (auto simp: bit_simps)

lemma from_to_be_bytes: "from_be_bytes (to_be_bytes n w) = take_bit (8 * n) (w :: 'a::len word)"
proof (induction n w rule: to_be_bytes.induct)
  case (1 w)
  show ?case by (simp add: from_be_bytes_def)
next
  case (2 n w)
  have "from_be_bytes (to_be_bytes (Suc n) w) =
    push_bit 8 (from_be_bytes (to_be_bytes n (drop_bit 8 w)) :: 'a word) OR ucast (ucast w :: u8)"
    by (simp add: from_be_bytes_def)
  also have "\<dots> = take_bit (8 + 8 * n) w"
    by (simp only: 2 shift_in_byte)
  finally show ?case by simp
qed

lemma from_to_be_bytes_full:
  "LENGTH('a) \<le> 8 * n \<Longrightarrow> from_be_bytes (to_be_bytes n w) = (w :: 'a::len word)"
  by (simp add: from_to_be_bytes take_bit_word_eq_self)

section \<open>Fixed-width primitives\<close>

text \<open>
  Every fixed-width reader takes its bytes and converts them; the Rust repeats the four lines
  per type.
\<close>

definition decode_be :: "nat \<Rightarrow> ('a::len word) dec" where
  "decode_be n = dec_map from_be_bytes (take_bytes n)"

definition encode_i32 :: "i32 \<Rightarrow> u8 list" where "encode_i32 v = to_be_bytes 4 v"
definition decode_i32 :: "i32 dec" where "decode_i32 = decode_be 4"
definition encode_u8 :: "u8 \<Rightarrow> u8 list" where "encode_u8 v = [v]"
definition decode_u8 :: "u8 dec" where "decode_u8 = dec_map (\<lambda>bs. bs ! 0) (take_bytes 1)"
definition encode_i8 :: "i8 \<Rightarrow> u8 list" where "encode_i8 v = [v]"
definition decode_i8 :: "i8 dec" where "decode_i8 = dec_map (\<lambda>bs. bs ! 0) (take_bytes 1)"
definition encode_i64 :: "i64 \<Rightarrow> u8 list" where "encode_i64 v = to_be_bytes 8 v"
definition decode_i64 :: "i64 dec" where "decode_i64 = decode_be 8"
definition encode_u64 :: "u64 \<Rightarrow> u8 list" where "encode_u64 v = to_be_bytes 8 v"
definition decode_u64 :: "u64 dec" where "decode_u64 = decode_be 8"
definition encode_u32 :: "u32 \<Rightarrow> u8 list" where "encode_u32 v = to_be_bytes 4 v"
definition decode_u32 :: "u32 dec" where "decode_u32 = decode_be 4"
definition encode_u16 :: "u16 \<Rightarrow> u8 list" where "encode_u16 v = to_be_bytes 2 v"
definition decode_u16 :: "u16 dec" where "decode_u16 = decode_be 2"
definition encode_i16 :: "i16 \<Rightarrow> u8 list" where "encode_i16 v = to_be_bytes 2 v"
definition decode_i16 :: "i16 dec" where "decode_i16 = decode_be 2"

definition encode_f32 :: "u32 \<Rightarrow> u8 list" where "encode_f32 bits = to_be_bytes 4 bits"
definition decode_f32 :: "u32 dec" where "decode_f32 = decode_be 4"
definition encode_f64 :: "u64 \<Rightarrow> u8 list" where "encode_f64 bits = to_be_bytes 8 bits"
definition decode_f64 :: "u64 dec" where "decode_f64 = decode_be 8"

definition encode_uuid :: "u128 \<Rightarrow> u8 list" where "encode_uuid v = to_be_bytes 16 v"
definition decode_uuid :: "u128 dec" where "decode_uuid = decode_be 16"

definition encode_bool :: "bool \<Rightarrow> u8 list" where
  "encode_bool b = [if b then 1 else 0]"

definition decode_bool :: "bool dec" where
  "decode_bool = dec_map (\<lambda>bs. bs ! 0 \<noteq> 0) (take_bytes 1)"

lemma keeps_decode_be [codec_safe]: "keeps_budget (decode_be n)"
  by (simp add: decode_be_def codec_safe)

lemma take_bytes_append:
  "remaining d = bs @ rest \<Longrightarrow> take_bytes (length bs) d = (Inr bs, charged d 0 0 rest)"
  by (simp add: take_bytes_def charged_def)

lemma decode_be_append:
  assumes "remaining d = to_be_bytes n w @ rest" and "LENGTH('a) \<le> 8 * n"
  shows "decode_be n d = (Inr (w :: 'a::len word), charged d 0 0 rest)"
  using take_bytes_append [OF assms(1)] assms(2)
  by (simp add: decode_be_def dec_map_def dec_bind_def dec_ok_def from_to_be_bytes_full)

lemma take_byte_append:
  "remaining d = b # rest \<Longrightarrow> take_bytes 1 d = (Inr [b], charged d 0 0 rest)"
  by (simp add: take_bytes_def charged_def)

lemmas primitive_defs =
  encode_i32_def decode_i32_def encode_u8_def decode_u8_def encode_i8_def decode_i8_def
  encode_i64_def decode_i64_def encode_u64_def decode_u64_def encode_u32_def decode_u32_def
  encode_u16_def decode_u16_def encode_i16_def decode_i16_def encode_f32_def decode_f32_def
  encode_f64_def decode_f64_def encode_uuid_def decode_uuid_def encode_bool_def decode_bool_def

text \<open>None of them charges anything or nests, and every value is in range.\<close>

abbreviation no_cost :: "'a \<Rightarrow> nat" where
  "no_cost \<equiv> \<lambda>_. 0"

abbreviation always_fits :: "decode_limits \<Rightarrow> 'a \<Rightarrow> bool" where
  "always_fits \<equiv> \<lambda>_ _. True"

lemma primitive_codec:
  assumes "keeps_budget dec"
    and "\<And>d v rest. remaining d = enc v @ rest \<Longrightarrow> dec d = (Inr v, charged d 0 0 rest)"
  shows "codec dec enc always_fits no_cost no_cost no_cost"
  by unfold_locales (use assms in auto)

interpretation i32: codec decode_i32 encode_i32 always_fits no_cost no_cost no_cost
  by (rule primitive_codec) (auto simp: primitive_defs codec_safe decode_be_append)

interpretation i64: codec decode_i64 encode_i64 always_fits no_cost no_cost no_cost
  by (rule primitive_codec) (auto simp: primitive_defs codec_safe decode_be_append)

interpretation u64: codec decode_u64 encode_u64 always_fits no_cost no_cost no_cost
  by (rule primitive_codec) (auto simp: primitive_defs codec_safe decode_be_append)

interpretation u32: codec decode_u32 encode_u32 always_fits no_cost no_cost no_cost
  by (rule primitive_codec) (auto simp: primitive_defs codec_safe decode_be_append)

interpretation u16: codec decode_u16 encode_u16 always_fits no_cost no_cost no_cost
  by (rule primitive_codec) (auto simp: primitive_defs codec_safe decode_be_append)

interpretation i16: codec decode_i16 encode_i16 always_fits no_cost no_cost no_cost
  by (rule primitive_codec) (auto simp: primitive_defs codec_safe decode_be_append)

interpretation f32: codec decode_f32 encode_f32 always_fits no_cost no_cost no_cost
  by (rule primitive_codec) (auto simp: primitive_defs codec_safe decode_be_append)

interpretation f64: codec decode_f64 encode_f64 always_fits no_cost no_cost no_cost
  by (rule primitive_codec) (auto simp: primitive_defs codec_safe decode_be_append)

interpretation uuid: codec decode_uuid encode_uuid always_fits no_cost no_cost no_cost
  by (rule primitive_codec) (auto simp: primitive_defs codec_safe decode_be_append)

lemmas decode_byte_simps = dec_map_def dec_bind_def dec_ok_def take_bytes_def charged_def

interpretation u8: codec decode_u8 encode_u8 always_fits no_cost no_cost no_cost
  by (rule primitive_codec) (auto simp: primitive_defs codec_safe decode_byte_simps)

interpretation i8: codec decode_i8 encode_i8 always_fits no_cost no_cost no_cost
  by (rule primitive_codec) (auto simp: primitive_defs codec_safe decode_byte_simps)

interpretation bool: codec decode_bool encode_bool always_fits no_cost no_cost no_cost
  by (rule primitive_codec) (auto simp: primitive_defs codec_safe decode_byte_simps)

section \<open>Variable-length integers\<close>

text \<open>
  The encoding loop, one byte per turn: the low seven bits, with the continuation bit set
  while bits are left. \<open>VarI32\<close> runs it on \<open>u32\<close>, \<open>VarI64\<close> on \<open>u64\<close>.
\<close>

function varint_bytes :: "'a::len word \<Rightarrow> u8 list" where
  "varint_bytes value =
     (let byte = ucast (value AND 0x7F) :: u8; value' = drop_bit 7 value in
      if value' \<noteq> 0 then (byte OR 0x80) # varint_bytes value' else [byte])"
  by pat_completeness auto
termination
  by (relation "measure unat") (auto intro: drop_bit_less)

declare varint_bytes.simps [simp del]

datatype VarI32 = VarI32 i32
datatype VarI64 = VarI64 i64

fun encode_VarI32 :: "VarI32 \<Rightarrow> u8 list" where
  "encode_VarI32 (VarI32 v) = varint_bytes v"

fun encode_VarI64 :: "VarI64 \<Rightarrow> u8 list" where
  "encode_VarI64 (VarI64 v) = varint_bytes v"

text \<open>
  The decoding loop: \<open>n\<close> turns are left. In the last turn the byte may only carry the bits
  that are left of the word; \<open>last_shift\<close> and \<open>overflow\<close> are that turn's shift and the bits it
  must not have.
\<close>

fun varint_loop :: "nat \<Rightarrow> u8 \<Rightarrow> nat \<Rightarrow> nat \<Rightarrow> 'a::len word \<Rightarrow> ('a word) dec" where
  "varint_loop last_shift overflow 0 shift value = dec_err InvalidVarintLength"
| "varint_loop last_shift overflow (Suc n) shift value =
     dec_bind (take_bytes 1) (\<lambda>bs. let byte = bs ! 0 in
       if shift = last_shift \<and> byte AND overflow \<noteq> 0 then dec_err InvalidVarintLength
       else
         (let value' = value OR push_bit shift (ucast (byte AND 0x7F)) in
          if byte AND 0x80 = 0 then dec_ok value'
          else varint_loop last_shift overflow n (shift + 7) value'))"

definition decode_VarI32 :: "VarI32 dec" where
  "decode_VarI32 = dec_map VarI32 (varint_loop 28 0xf0 5 0 0)"

definition decode_VarI64 :: "VarI64 dec" where
  "decode_VarI64 = dec_map VarI64 (varint_loop 63 0xfe 10 0 0)"

lemma keeps_varint_loop [codec_safe]: "keeps_budget (varint_loop ls ov n s v)"
  by (induction ls ov n s v rule: varint_loop.induct) (simp_all add: codec_safe Let_def)

lemma keeps_decode_VarI32 [codec_safe]: "keeps_budget decode_VarI32"
  by (simp add: decode_VarI32_def codec_safe)

lemma keeps_decode_VarI64 [codec_safe]: "keeps_budget decode_VarI64"
  by (simp add: decode_VarI64_def codec_safe)

subsection \<open>Round trip and length\<close>

lemma seven_bits: "w AND 0x7F = take_bit 7 (w :: 'a::len word)"
proof -
  have "(0x7F :: 'a word) = mask 7" by (simp add: mask_eq_exp_minus_1)
  then show ?thesis by (simp add: take_bit_eq_mask)
qed

lemma bit_0x80: "bit (0x80 :: u8) n \<longleftrightarrow> n = 7"
proof -
  have "(0x80 :: u8) = push_bit 7 1" by simp
  then show ?thesis by (auto simp only: bit_push_bit_iff bit_1_iff) (auto simp: bit_simps)
qed

lemma payload_continued:
  "ucast ((ucast (take_bit 7 w) OR 0x80 :: u8) AND 0x7F) = take_bit 7 (w :: 'a::len word)"
  unfolding seven_bits by (rule bit_word_eqI) (auto simp: bit_simps bit_0x80)

lemma payload_last:
  "ucast ((ucast (take_bit 7 w) :: u8) AND 0x7F) = take_bit 7 (w :: 'a::len word)"
  unfolding seven_bits by (rule bit_word_eqI) (auto simp: bit_simps)

lemma byte_0x80_nonzero [simp]: "(0x80 :: u8) \<noteq> 0"
  by (metis bit_0x80 bit_0_eq bot_apply bot_bool_def)

lemma or_0x80_and_0x80: "((b :: u8) OR 0x80) AND 0x80 = 0x80"
  by (rule bit_word_eqI) (auto simp only: bit_and_iff bit_or_iff)

lemma byte_and_0x80: "(b :: u8) AND 0x80 = 0 \<longleftrightarrow> \<not> bit b 7"
proof
  assume "b AND 0x80 = 0"
  then have "\<not> bit (b AND 0x80) 7" by simp
  then show "\<not> bit b 7" by (simp add: bit_and_iff bit_0x80)
next
  assume "\<not> bit b 7"
  then show "b AND 0x80 = 0"
    by (intro bit_word_eqI) (metis bit_0x80 bit_and_iff bit_0_eq bot_apply bot_bool_def)
qed

lemma continuation_set [simp]: "((b OR 0x80 :: u8) AND 0x80 = 0) = False"
  by (simp only: or_0x80_and_0x80 byte_0x80_nonzero)

lemma continuation_clear: "(ucast (take_bit 7 w) :: u8) AND 0x80 = 0"
  unfolding byte_and_0x80 by (simp add: bit_simps)

lemma take_bit_Suc7:
  "take_bit k v OR push_bit k (take_bit 7 (drop_bit k v)) = take_bit (k + 7) (v :: 'a::len word)"
  by (rule bit_word_eqI) (auto simp: bit_simps not_less)

lemma varint_loop_more:
  assumes "remaining d = (b OR 0x80) # r" and "s \<noteq> ls"
  shows "varint_loop ls ov (Suc n) s v d =
    varint_loop ls ov n (s + 7) (v OR push_bit s (ucast ((b OR 0x80) AND 0x7F))) (charged d 0 0 r)"
  using take_byte_append [OF assms(1)] assms(2)
  by (simp only: varint_loop.simps dec_bind_def prod.case sum.case Let_def nth_Cons_0
      continuation_set if_False simp_thms)

lemma varint_loop_roundtrip:
  fixes v :: "'a::len word"
  assumes "n \<noteq> 0" and "ls = 7 * (k + n - 1)" and "drop_bit (ls + 7) v = 0"
    and "(ucast (drop_bit ls v) :: u8) AND ov = 0"
    and "remaining d = varint_bytes (drop_bit (7 * k) v) @ rest"
  shows "varint_loop ls ov n (7 * k) (take_bit (7 * k) v) d = (Inr v, charged d 0 0 rest)"
  using assms
proof (induction n arbitrary: k d)
  case 0
  then show ?case by simp
next
  case (Suc n)
  let ?w = "drop_bit (7 * k) v"
  have w': "drop_bit 7 ?w = drop_bit (7 * Suc k) v" by (simp add: add.commute)
  show ?case
  proof (cases "drop_bit 7 ?w = 0")
    case True
    have low: "take_bit 7 ?w = ?w"
      using bytes_ident [of 7 ?w] True by simp
    have bytes: "remaining d = ucast (take_bit 7 ?w) # rest"
      using Suc.prems(5) True by (simp add: varint_bytes.simps [of ?w] seven_bits)
    have "take_bit (7 * k) v OR push_bit (7 * k) (take_bit 7 ?w) = v"
      by (simp only: low bytes_ident)
    moreover have "7 * k = ls \<Longrightarrow> (ucast (take_bit 7 ?w) :: u8) AND ov = 0"
      using Suc.prems(4) low by simp
    ultimately show ?thesis
      using take_byte_append [OF bytes]
      by (auto simp: Let_def dec_bind_def dec_ok_def payload_last continuation_clear)
  next
    case False
    have bytes: "remaining d =
        (ucast (take_bit 7 ?w) OR 0x80) # (varint_bytes (drop_bit (7 * Suc k) v) @ rest)"
      using Suc.prems(5) False w' by (simp add: varint_bytes.simps [of ?w] seven_bits)
    have "7 * k \<noteq> ls"
    proof
      assume "7 * k = ls"
      then have "drop_bit 7 ?w = drop_bit (ls + 7) v" by (simp add: add.commute)
      with False Suc.prems(3) show False by simp
    qed
    moreover from this have n: "n \<noteq> 0" using Suc.prems(2) by (cases n) auto
    moreover have "varint_loop ls ov n (7 * Suc k) (take_bit (7 * Suc k) v)
        (charged d 0 0 (varint_bytes (drop_bit (7 * Suc k) v) @ rest)) =
        (Inr v, charged (charged d 0 0 (varint_bytes (drop_bit (7 * Suc k) v) @ rest)) 0 0 rest)"
      using Suc.prems n by (intro Suc.IH) auto
    moreover have "take_bit (7 * k) v OR push_bit (7 * k) (take_bit 7 ?w) = take_bit (7 * Suc k) v"
      by (simp add: take_bit_Suc7 add.commute)
    ultimately show ?thesis
      using varint_loop_more [OF bytes, of "7 * k" ls ov n "take_bit (7 * k) v"]
      by (simp add: payload_continued add.commute)
  qed
qed

lemma and_shifted_mask_0:
  assumes "drop_bit k b = 0" shows "b AND push_bit k (mask n) = (0 :: 'a::len word)"
proof (rule bit_word_eqI)
  fix i
  assume "i < LENGTH('a)"
  have "k \<le> i \<Longrightarrow> bit b i = bit (drop_bit k b) (i - k)" by (simp add: bit_drop_bit_eq)
  with assms show "bit (b AND push_bit k (mask n)) i = bit (0 :: 'a word) i"
    by (auto simp: bit_and_iff bit_push_bit_iff)
qed

lemma high_nibble_clear: "(ucast (drop_bit 28 (v :: u32)) :: u8) AND 0xf0 = 0"
proof -
  have mask: "(0xf0 :: u8) = push_bit 4 (mask 4)" by (simp add: mask_eq_exp_minus_1)
  have "drop_bit 4 (ucast (drop_bit 28 v) :: u8) = 0"
    by (rule bit_word_eqI) (auto simp: bit_simps dest: bit_imp_le_length)
  then show ?thesis unfolding mask by (rule and_shifted_mask_0)
qed

lemma high_bits_clear: "(ucast (drop_bit 63 (v :: u64)) :: u8) AND 0xfe = 0"
proof -
  have mask: "(0xfe :: u8) = push_bit 1 (mask 7)" by (simp add: mask_eq_exp_minus_1)
  have "drop_bit 1 (ucast (drop_bit 63 v) :: u8) = 0"
    by (rule bit_word_eqI) (auto simp: bit_simps dest: bit_imp_le_length)
  then show ?thesis unfolding mask by (rule and_shifted_mask_0)
qed

lemma drop_bit_all: "LENGTH('a) \<le> n \<Longrightarrow> drop_bit n (v :: 'a::len word) = 0"
  by (rule bit_word_eqI) (auto simp: bit_simps)

lemma varint32_append:
  "remaining d = varint_bytes (v :: u32) @ rest \<Longrightarrow>
   varint_loop 28 0xf0 5 0 0 d = (Inr v, charged d 0 0 rest)"
  using varint_loop_roundtrip [of 5 28 0 v "0xf0" d rest]
  by (simp add: high_nibble_clear drop_bit_all)

lemma varint64_append:
  "remaining d = varint_bytes (v :: u64) @ rest \<Longrightarrow>
   varint_loop 63 0xfe 10 0 0 d = (Inr v, charged d 0 0 rest)"
  using varint_loop_roundtrip [of 10 63 0 v "0xfe" d rest]
  by (simp add: high_bits_clear drop_bit_all)

interpretation varint32: codec decode_VarI32 encode_VarI32 always_fits no_cost no_cost no_cost
proof (rule primitive_codec)
  fix d :: decoder and v :: VarI32 and rest
  assume "remaining d = encode_VarI32 v @ rest"
  then show "decode_VarI32 d = (Inr v, charged d 0 0 rest)"
    by (cases v) (simp add: decode_VarI32_def dec_map_def dec_bind_def dec_ok_def varint32_append)
qed (rule keeps_decode_VarI32)

interpretation varint64: codec decode_VarI64 encode_VarI64 always_fits no_cost no_cost no_cost
proof (rule primitive_codec)
  fix d :: decoder and v :: VarI64 and rest
  assume "remaining d = encode_VarI64 v @ rest"
  then show "decode_VarI64 d = (Inr v, charged d 0 0 rest)"
    by (cases v) (simp add: decode_VarI64_def dec_map_def dec_bind_def dec_ok_def varint64_append)
qed (rule keeps_decode_VarI64)

lemma length_varint_bytes:
  "k \<noteq> 0 \<Longrightarrow> drop_bit (7 * k) v = 0 \<Longrightarrow> length (varint_bytes (v :: 'a::len word)) \<le> k"
proof (induction k arbitrary: v)
  case 0
  then show ?case by simp
next
  case (Suc k)
  show ?case
  proof (cases "drop_bit 7 v = 0")
    case True
    then show ?thesis by (simp add: varint_bytes.simps [of v])
  next
    case False
    then have "k \<noteq> 0" using Suc.prems(2) by (cases k) auto
    moreover have "drop_bit (7 * k) (drop_bit 7 v) = 0" using Suc.prems(2) by (simp add: add.commute)
    ultimately have "length (varint_bytes (drop_bit 7 v)) \<le> k" by (rule Suc.IH)
    with False show ?thesis by (simp add: varint_bytes.simps [of v])
  qed
qed

lemma varint_bytes_nonempty [simp]: "varint_bytes v \<noteq> []"
  by (subst varint_bytes.simps) (simp add: Let_def)

lemma length_varint32: "length (varint_bytes (v :: u32)) \<le> 5"
  by (rule length_varint_bytes) (simp_all add: drop_bit_all)

lemma length_varint64: "length (varint_bytes (v :: u64)) \<le> 10"
  by (rule length_varint_bytes) (simp_all add: drop_bit_all)

end
