(* ===== verification/Codec_Containers.thy ===== *)
theory Codec_Containers
  imports Codec_Primitives
begin

text \<open>
  The length-prefixed containers of \<open>primitives/containers.rs\<close> and the unprefixed ones of
  \<open>primitives/fixed_length.rs\<close>. A Rust \<open>String\<close> is its UTF-8 bytes; \<open>utf8_valid\<close> is the
  check \<open>std::str::from_utf8\<close> makes. The size of an element in memory is the compiler's
  choice, hence a parameter.
\<close>

section \<open>Vectors\<close>

fun dec_repeat :: "nat \<Rightarrow> 'a dec \<Rightarrow> 'a list dec" where
  "dec_repeat 0 m = dec_ok []"
| "dec_repeat (Suc n) m =
     dec_bind m (\<lambda>x. dec_bind (dec_repeat n m) (\<lambda>xs. dec_ok (x # xs)))"

definition encode_vec :: "('a \<Rightarrow> u8 list) \<Rightarrow> 'a list \<Rightarrow> u8 list" where
  "encode_vec encode xs =
     encode_VarI32 (VarI32 (word_of_nat (length xs))) @ concat (map encode xs)"

definition decode_vec :: "nat \<Rightarrow> 'a dec \<Rightarrow> 'a list dec" where
  "decode_vec size_of decode_with =
     dec_bind (decode decode_VarI32) (\<lambda>v. case v of VarI32 raw_len \<Rightarrow>
     dec_bind (dec_get limits) (\<lambda>lims.
     dec_bind (checked_len raw_len CollectionElements (max_collection_elements lims)) (\<lambda>len.
     dec_bind (charge_elements len) (\<lambda>_.
     dec_bind (dec_ok_or (checked_mul len size_of) InvalidLength) (\<lambda>allocation.
     dec_bind (charge_allocation allocation) (\<lambda>_.
     dec_bind (try_reserve allocation) (\<lambda>_.
     dec_repeat len (decode decode_with))))))))"

section \<open>Strings\<close>

definition utf8_cont :: "u8 \<Rightarrow> bool" where
  "utf8_cont b \<longleftrightarrow> 0x80 \<le> b \<and> b \<le> 0xBF"

fun utf8_valid :: "u8 list \<Rightarrow> bool" where
  "utf8_valid [] = True"
| "utf8_valid (a # bs) =
     (if a < 0x80 then utf8_valid bs
      else (case bs of [] \<Rightarrow> False | b # cs \<Rightarrow>
        if 0xC2 \<le> a \<and> a \<le> 0xDF then utf8_cont b \<and> utf8_valid cs
        else (case cs of [] \<Rightarrow> False | c # ds \<Rightarrow>
          if a = 0xE0 then 0xA0 \<le> b \<and> b \<le> 0xBF \<and> utf8_cont c \<and> utf8_valid ds
          else if a = 0xED then 0x80 \<le> b \<and> b \<le> 0x9F \<and> utf8_cont c \<and> utf8_valid ds
          else if 0xE1 \<le> a \<and> a \<le> 0xEF then utf8_cont b \<and> utf8_cont c \<and> utf8_valid ds
          else (case ds of [] \<Rightarrow> False | d # es \<Rightarrow>
            if a = 0xF0 then 0x90 \<le> b \<and> b \<le> 0xBF \<and> utf8_cont c \<and> utf8_cont d \<and> utf8_valid es
            else if a = 0xF4 then 0x80 \<le> b \<and> b \<le> 0x8F \<and> utf8_cont c \<and> utf8_cont d \<and> utf8_valid es
            else 0xF1 \<le> a \<and> a \<le> 0xF3 \<and> utf8_cont b \<and> utf8_cont c \<and> utf8_cont d
              \<and> utf8_valid es))))"

definition encode_string :: "u8 list \<Rightarrow> u8 list" where
  "encode_string s = encode_VarI32 (VarI32 (word_of_nat (length s))) @ s"

definition decode_string :: "u8 list dec" where
  "decode_string =
     dec_bind (decode decode_VarI32) (\<lambda>v. case v of VarI32 raw_len \<Rightarrow>
     dec_bind (dec_get limits) (\<lambda>lims.
     dec_bind (checked_len raw_len StringBytes (max_string_bytes lims)) (\<lambda>len.
     dec_bind (charge_allocation len) (\<lambda>_.
     dec_bind (take_bytes len) (\<lambda>bytes.
     if utf8_valid bytes then dec_ok bytes else dec_err InvalidLength)))))"

section \<open>Options\<close>

definition encode_option :: "('a \<Rightarrow> u8 list) \<Rightarrow> 'a option \<Rightarrow> u8 list" where
  "encode_option encode x =
     (case x of Some value \<Rightarrow> encode_bool True @ encode value | None \<Rightarrow> encode_bool False)"

definition decode_option :: "'a dec \<Rightarrow> 'a option dec" where
  "decode_option decode_with =
     dec_bind (decode decode_bool) (\<lambda>present.
     if present then dec_map Some (decode decode_with) else dec_ok None)"

section \<open>Containers without a length prefix\<close>

definition length_mismatch :: "nat \<Rightarrow> nat \<Rightarrow> string" where
  "length_mismatch expected got =
     ''Fixed-length vector length mismatch: expected '' @ show_nat expected @ '', got '' @ show_nat got"

definition encode_fixed_length_vec ::
  "('a \<Rightarrow> u8 list) \<Rightarrow> 'a list \<Rightarrow> nat \<Rightarrow> string + u8 list" where
  "encode_fixed_length_vec encode vec expected_len =
     (if length vec \<noteq> expected_len then Inl (length_mismatch expected_len (length vec))
      else Inr (concat (map encode vec)))"

definition encode_fixed_length_vec_u8 :: "u8 list \<Rightarrow> nat \<Rightarrow> string + u8 list" where
  "encode_fixed_length_vec_u8 vec expected_len =
     (if length vec \<noteq> expected_len then Inl (length_mismatch expected_len (length vec))
      else Inr vec)"

definition decode_fixed_length_vec :: "nat \<Rightarrow> nat \<Rightarrow> 'a dec \<Rightarrow> 'a list dec" where
  "decode_fixed_length_vec size_of len decode_with =
     dec_bind (charge_elements len) (\<lambda>_.
     dec_bind (dec_ok_or (checked_mul len size_of) InvalidLength) (\<lambda>allocation.
     dec_bind (charge_allocation allocation) (\<lambda>_.
     dec_bind (try_reserve allocation) (\<lambda>_.
     dec_repeat len (decode decode_with)))))"

definition decode_fixed_length_vec_u8 :: "nat \<Rightarrow> u8 list dec" where
  "decode_fixed_length_vec_u8 len =
     dec_bind (charge_elements len) (\<lambda>_.
     dec_bind (charge_allocation len) (\<lambda>_.
     take_bytes len))"

definition encode_remaining_vec_u8 :: "u8 list \<Rightarrow> u8 list" where
  "encode_remaining_vec_u8 vec = vec"

definition decode_remaining_vec_u8 :: "u8 list dec" where
  "decode_remaining_vec_u8 =
     dec_bind (dec_get (\<lambda>d. length (remaining d))) (\<lambda>len.
     dec_bind (dec_get limits) (\<lambda>lims.
     if max_remaining_bytes lims < len then
       dec_err (LimitExceeded RemainingBytes len (max_remaining_bytes lims))
     else dec_bind (charge_allocation len) (\<lambda>_. take_bytes len)))"

section \<open>Containers keep the budget\<close>

lemma keeps_dec_repeat [codec_safe]: "keeps_budget m \<Longrightarrow> keeps_budget (dec_repeat n m)"
  by (induction n) (simp_all add: codec_safe)

lemma keeps_case_VarI32 [codec_safe]:
  "(\<And>x. keeps_budget (f x)) \<Longrightarrow> keeps_budget (case v of VarI32 x \<Rightarrow> f x)"
  by (cases v) simp

lemma keeps_decode_vec [codec_safe]: "keeps_budget m \<Longrightarrow> keeps_budget (decode_vec k m)"
  by (simp add: decode_vec_def codec_safe)

lemma keeps_decode_string [codec_safe]: "keeps_budget decode_string"
  by (simp add: decode_string_def codec_safe)

lemma keeps_decode_option [codec_safe]: "keeps_budget m \<Longrightarrow> keeps_budget (decode_option m)"
  by (simp add: decode_option_def decode_bool_def codec_safe)

lemma keeps_decode_fixed [codec_safe]:
  "keeps_budget m \<Longrightarrow> keeps_budget (decode_fixed_length_vec k n m)"
  by (simp add: decode_fixed_length_vec_def codec_safe)

lemma keeps_decode_fixed_u8 [codec_safe]: "keeps_budget (decode_fixed_length_vec_u8 n)"
  by (simp add: decode_fixed_length_vec_u8_def codec_safe)

lemma keeps_decode_remaining [codec_safe]: "keeps_budget decode_remaining_vec_u8"
  by (simp add: decode_remaining_vec_u8_def codec_safe)

section \<open>Round trips\<close>

definition vec_fits :: "(decode_limits \<Rightarrow> 'a \<Rightarrow> bool) \<Rightarrow> decode_limits \<Rightarrow> 'a list \<Rightarrow> bool" where
  "vec_fits fits L xs \<longleftrightarrow>
     length xs < 2 ^ 31 \<and> length xs \<le> max_collection_elements L \<and> (\<forall>x \<in> set xs. fits L x)"

definition vec_elems :: "('a \<Rightarrow> nat) \<Rightarrow> 'a list \<Rightarrow> nat" where
  "vec_elems elems xs = length xs + sum_list (map elems xs)"

definition vec_bytes :: "nat \<Rightarrow> ('a \<Rightarrow> nat) \<Rightarrow> 'a list \<Rightarrow> nat" where
  "vec_bytes size_of bytes xs = length xs * size_of + sum_list (map bytes xs)"

definition vec_levels :: "('a \<Rightarrow> nat) \<Rightarrow> 'a list \<Rightarrow> nat" where
  "vec_levels levels xs = Suc (foldr (\<lambda>x m. max (levels x) m) xs 0)"

definition string_fits :: "decode_limits \<Rightarrow> u8 list \<Rightarrow> bool" where
  "string_fits L s \<longleftrightarrow> length s < 2 ^ 31 \<and> length s \<le> max_string_bytes L \<and> utf8_valid s"

lemma decode_len_append:
  assumes "room d 0 0 1" and "n < 2 ^ 31"
    and "remaining d = encode_VarI32 (VarI32 (word_of_nat n)) @ rest"
  shows "decode decode_VarI32 d = (Inr (VarI32 (word_of_nat n)), charged d 0 0 rest)"
  using varint32.decode_roundtrip [of d "VarI32 (word_of_nat n)" rest] assms by simp

lemma checked_len_ok:
  "n < 2 ^ 31 \<Longrightarrow> n \<le> limit \<Longrightarrow> checked_len (word_of_nat n) k limit = dec_ok n"
  by (simp add: checked_len_def nat_sint_word_of_nat)

lemma charge_elements_ok:
  "room d n 0 0 \<Longrightarrow> n \<le> max_collection_elements (limits d) \<Longrightarrow>
   charge_elements n d = (Inr (), charged d n 0 (remaining d))"
  by (auto simp: charge_elements_def room_def charged_def checked_add_def)

lemma charge_allocation_ok:
  "room d 0 n 0 \<Longrightarrow> charge_allocation n d = (Inr (), charged d 0 n (remaining d))"
  by (auto simp: charge_allocation_def room_def charged_def checked_add_def)

lemma try_reserve_ok: "room d 0 0 0 \<Longrightarrow> n \<le> max_allocation_bytes (limits d) \<Longrightarrow> try_reserve n d = (Inr (), d)"
  by (simp add: try_reserve_def room_def)

lemma string_codec:
  "codec decode_string encode_string string_fits no_cost length (\<lambda>_. 1)"
proof
  fix d :: decoder and v rest
  assume fits: "string_fits (limits d) v" and room: "room d 0 (length v) 1"
    and rem: "remaining d = encode_string v @ rest"
  have "decode decode_VarI32 d = (Inr (VarI32 (word_of_nat (length v))), charged d 0 0 (v @ rest))"
    using fits rem room by (intro decode_len_append)
      (auto simp: string_fits_def encode_string_def elim: room_mono)
  moreover have "charge_allocation (length v) (charged d 0 0 (v @ rest)) =
      (Inr (), charged d 0 (length v) (v @ rest))"
    using room by (subst charge_allocation_ok) (auto elim: room_mono)
  ultimately show "decode_string d = (Inr v, charged d 0 (length v) rest)"
    using fits by (simp add: decode_string_def string_fits_def dec_bind_def dec_get_def dec_ok_def
        checked_len_ok take_bytes_append)
qed (rule keeps_decode_string)

context codec begin

lemma repeat_roundtrip:
  assumes "\<forall>x \<in> set xs. fits (limits d) x"
    and "room d (sum_list (map elems xs)) (sum_list (map bytes xs)) (vec_levels levels xs)"
    and "remaining d = concat (map encode xs) @ rest"
  shows "dec_repeat (length xs) (decode decode_with) d =
    (Inr xs, charged d (sum_list (map elems xs)) (sum_list (map bytes xs)) rest)"
  using assms
proof (induction xs arbitrary: d)
  case Nil
  then show ?case by (simp add: dec_ok_def charged_def)
next
  case (Cons x xs)
  let ?d = "charged d (elems x) (bytes x) (concat (map encode xs) @ rest)"
  have "decode decode_with d = (Inr x, ?d)"
    using Cons.prems by (intro decode_roundtrip) (auto simp: vec_levels_def elim: room_mono)
  moreover have "dec_repeat (length xs) (decode decode_with) ?d =
      (Inr xs, charged ?d (sum_list (map elems xs)) (sum_list (map bytes xs)) rest)"
    using Cons.prems by (intro Cons.IH) (auto simp: vec_levels_def elim: room_mono)
  ultimately show ?case by (simp add: dec_bind_def dec_ok_def)
qed

lemma vec_roundtrip:
  assumes fits: "vec_fits fits (limits d) xs"
    and room: "room d (vec_elems elems xs) (vec_bytes k bytes xs) (vec_levels levels xs)"
    and rem: "remaining d = encode_vec encode xs @ rest"
  shows "decode_vec k decode_with d =
    (Inr xs, charged d (vec_elems elems xs) (vec_bytes k bytes xs) rest)"
proof -
  let ?body = "concat (map encode xs) @ rest"
  let ?n = "length xs"
  have 1: "decode decode_VarI32 d = (Inr (VarI32 (word_of_nat ?n)), charged d 0 0 ?body)"
    using fits rem room by (intro decode_len_append)
      (auto simp: vec_fits_def encode_vec_def vec_levels_def elim: room_mono)
  have 2: "charge_elements ?n (charged d 0 0 ?body) = (Inr (), charged d ?n 0 ?body)"
    using room fits by (subst charge_elements_ok)
      (auto simp: vec_elems_def vec_fits_def elim: room_mono)
  have mul: "?n * k \<le> max_allocation_bytes (limits d)" "?n * k < usize_limit"
    using room by (auto simp: room_def vec_bytes_def)
  have 3: "charge_allocation (?n * k) (charged d ?n 0 ?body) = (Inr (), charged d ?n (?n * k) ?body)"
    using room by (subst charge_allocation_ok) (auto simp: vec_elems_def vec_bytes_def elim: room_mono)
  have 4: "try_reserve (?n * k) (charged d ?n (?n * k) ?body) = (Inr (), charged d ?n (?n * k) ?body)"
    using room mul by (intro try_reserve_ok) (auto simp: vec_elems_def vec_bytes_def elim: room_mono)
  have 5: "dec_repeat ?n (decode decode_with) (charged d ?n (?n * k) ?body) =
      (Inr xs, charged (charged d ?n (?n * k) ?body) (sum_list (map elems xs)) (sum_list (map bytes xs)) rest)"
    using room fits by (intro repeat_roundtrip) (auto simp: vec_fits_def vec_elems_def vec_bytes_def)
  show ?thesis
    using fits mul
    by (simp add: decode_vec_def dec_bind_def dec_get_def dec_ok_def dec_ok_or_def vec_fits_def
        checked_len_ok checked_mul_def 1 2 3 4 5 vec_elems_def vec_bytes_def)
qed

lemma vec_codec:
  "codec (decode_vec k decode_with) (encode_vec encode) (vec_fits fits)
     (vec_elems elems) (vec_bytes k bytes) (vec_levels levels)"
  by unfold_locales (auto intro: keeps_decode_vec budget vec_roundtrip)

lemma option_codec:
  "codec (decode_option decode_with) (encode_option encode)
     (\<lambda>L. pred_option (fits L)) (case_option 0 elems) (case_option 0 bytes)
     (case_option 1 (\<lambda>x. Suc (levels x)))"
proof
  fix d :: decoder and v rest
  assume fits: "pred_option (fits (limits d)) v"
    and room: "room d (case_option 0 elems v) (case_option 0 bytes v)
      (case_option 1 (\<lambda>x. Suc (levels x)) v)"
    and rem: "remaining d = encode_option encode v @ rest"
  let ?tail = "case_option [] encode v @ rest"
  have "decode decode_bool d = (Inr (v \<noteq> None), charged d 0 0 ?tail)"
    using rem room
    by (intro bool.decode_roundtrip)
      (auto simp: encode_option_def split: option.splits elim: room_mono)
  then show "decode_option decode_with d =
      (Inr v, charged d (case_option 0 elems v) (case_option 0 bytes v) rest)"
    using fits room
    by (cases v) (auto simp: decode_option_def dec_bind_def dec_map_def dec_ok_def
        decode_roundtrip [where rest = rest])
qed (rule keeps_decode_option [OF budget])

end

interpretation string: codec decode_string encode_string string_fits no_cost length "\<lambda>_. 1"
  by (rule string_codec)

text \<open>The instances the packets use: vectors of bytes and of variable-length integers.\<close>

interpretation vec_u8: codec "decode_vec 1 decode_u8" "encode_vec encode_u8"
    "vec_fits always_fits" "vec_elems no_cost" "vec_bytes 1 no_cost" "vec_levels no_cost"
  by (rule u8.vec_codec)

interpretation vec_varint: codec "decode_vec 4 decode_VarI32" "encode_vec encode_VarI32"
    "vec_fits always_fits" "vec_elems no_cost" "vec_bytes 4 no_cost" "vec_levels no_cost"
  by (rule varint32.vec_codec)

end
