(* ===== verification/Nbt_Scan.thy ===== *)
theory Nbt_Scan
  imports Codec_Containers
begin

text \<open>
  NBT on the wire (\<open>primitives/nbt.rs\<close>). The tree type, its reader and its writer belong to
  the crate \<open>ussr_nbt\<close> and are parameters; the code here bounds an untrusted payload before
  that reader sees it. The two scanning functions call each other and loop over entries of the
  input, so they take fuel: \<open>None\<close> is "did not return", and \<open>scan_returns\<close> gives the fuel at
  which they always do.
\<close>

section \<open>Bounded reads\<close>

definition nbt_take :: "nat \<Rightarrow> nat \<Rightarrow> u8 list dec" where
  "nbt_take start_len len =
     dec_bind (dec_get (\<lambda>d. length (remaining d))) (\<lambda>rem.
     dec_bind (dec_ok_or
       (Option.bind (checked_sub start_len rem) (\<lambda>value. checked_add value len)) InvalidLength)
       (\<lambda>consumed.
     dec_bind (dec_get limits) (\<lambda>lims.
     if max_nbt_bytes lims < consumed then
       dec_err (LimitExceeded NbtBytes consumed (max_nbt_bytes lims))
     else take_bytes len)))"

definition nbt_i32 :: "nat \<Rightarrow> i32 dec" where
  "nbt_i32 start_len = dec_map from_be_bytes (nbt_take start_len 4)"

definition scan_string :: "nat \<Rightarrow> unit dec" where
  "scan_string start_len =
     dec_bind (nbt_take start_len 2) (\<lambda>bytes.
     let len = unat (from_be_bytes bytes :: u16) in
     dec_bind (charge_allocation len) (\<lambda>_.
     dec_map (\<lambda>_. ()) (nbt_take start_len len)))"

definition checked_nbt_count :: "i32 \<Rightarrow> nat dec" where
  "checked_nbt_count count =
     dec_bind (dec_get limits) (\<lambda>lims.
     checked_len count CollectionElements (max_collection_elements lims))"

definition check_nbt_depth :: "nat \<Rightarrow> unit dec" where
  "check_nbt_depth nest =
     dec_bind (dec_get limits) (\<lambda>lims.
     if max_nbt_depth lims < nest then dec_err (LimitExceeded NbtDepth nest (max_nbt_depth lims))
     else dec_ok ())"

definition scan_array :: "nat \<Rightarrow> nat \<Rightarrow> unit dec" where
  "scan_array start_len width =
     dec_bind (nbt_i32 start_len) (\<lambda>raw_count.
     dec_bind (checked_nbt_count raw_count) (\<lambda>count.
     dec_bind (charge_elements count) (\<lambda>_.
     dec_bind (dec_ok_or (checked_mul count width) InvalidLength) (\<lambda>bytes.
     dec_bind (charge_allocation bytes) (\<lambda>_.
     dec_map (\<lambda>_. ()) (nbt_take start_len bytes))))))"

section \<open>The scan\<close>

type_synonym 'a scan = "decoder \<Rightarrow> ((decode_error + 'a) \<times> decoder) option"

definition scan_lift :: "'a dec \<Rightarrow> 'a scan" where
  "scan_lift m d = Some (m d)"

definition scan_bind :: "'a scan \<Rightarrow> ('a \<Rightarrow> 'b scan) \<Rightarrow> 'b scan" where
  "scan_bind m f d =
     (case m d of
        None \<Rightarrow> None
      | Some (Inl e, d') \<Rightarrow> Some (Inl e, d')
      | Some (Inr x, d') \<Rightarrow> f x d')"

text \<open>
  \<open>compound_loop\<close> is the \<open>loop\<close> of \<open>scan_compound\<close>, \<open>scan_elements\<close> the \<open>for\<close> loop of the list
  case of \<open>scan_payload\<close>.
\<close>

function (sequential) compound_loop :: "nat \<Rightarrow> nat \<Rightarrow> nat \<Rightarrow> nat \<Rightarrow> unit scan"
  and scan_payload :: "nat \<Rightarrow> nat \<Rightarrow> u8 \<Rightarrow> nat \<Rightarrow> unit scan"
  and scan_elements :: "nat \<Rightarrow> nat \<Rightarrow> u8 \<Rightarrow> nat \<Rightarrow> nat \<Rightarrow> unit scan" where
  "compound_loop 0 start_len nest entries d = None"
| "compound_loop (Suc fuel) start_len nest entries d =
     scan_bind (scan_lift (nbt_take start_len 1)) (\<lambda>bs. let tag = bs ! 0 in
       if tag = 0 then scan_lift (dec_ok ())
       else
         scan_bind (scan_lift (dec_ok_or (checked_add entries 1) InvalidLength)) (\<lambda>entries.
         scan_bind (scan_lift (dec_get limits)) (\<lambda>lims.
         if max_collection_elements lims < entries then
           scan_lift (dec_err (LimitExceeded CollectionElements entries (max_collection_elements lims)))
         else
           scan_bind (scan_lift (charge_elements 1)) (\<lambda>_.
           scan_bind (scan_lift (charge_allocation 64)) (\<lambda>_.
           scan_bind (scan_lift (scan_string start_len)) (\<lambda>_.
           scan_bind (scan_payload fuel start_len tag (nest + 1)) (\<lambda>_.
           compound_loop fuel start_len nest entries))))))) d"
| "scan_payload 0 start_len tag nest d = None"
| "scan_payload (Suc fuel) start_len tag nest d =
     scan_bind (scan_lift (check_nbt_depth nest)) (\<lambda>_.
       if tag = 1 then scan_lift (dec_map (\<lambda>_. ()) (nbt_take start_len 1))
       else if tag = 2 then scan_lift (dec_map (\<lambda>_. ()) (nbt_take start_len 2))
       else if tag = 3 \<or> tag = 5 then scan_lift (dec_map (\<lambda>_. ()) (nbt_take start_len 4))
       else if tag = 4 \<or> tag = 6 then scan_lift (dec_map (\<lambda>_. ()) (nbt_take start_len 8))
       else if tag = 7 then scan_lift (scan_array start_len 1)
       else if tag = 8 then scan_lift (scan_string start_len)
       else if tag = 9 then
         scan_bind (scan_lift (nbt_take start_len 1)) (\<lambda>bs. let element_tag = bs ! 0 in
         scan_bind (scan_lift (nbt_i32 start_len)) (\<lambda>raw_count.
         scan_bind (scan_lift (checked_nbt_count raw_count)) (\<lambda>count.
         if element_tag = 0 \<and> count \<noteq> 0 then scan_lift (dec_err InvalidLength)
         else
           scan_bind (scan_lift (charge_elements count)) (\<lambda>_.
           scan_bind (scan_lift (dec_ok_or (checked_mul count 32) InvalidLength)) (\<lambda>bytes.
           scan_bind (scan_lift (charge_allocation bytes)) (\<lambda>_.
           scan_elements fuel start_len element_tag (nest + 1) count))))))
       else if tag = 10 then
         scan_bind (scan_lift (check_nbt_depth (nest + 1))) (\<lambda>_.
         compound_loop fuel start_len (nest + 1) 0)
       else if tag = 11 then scan_lift (scan_array start_len 4)
       else if tag = 12 then scan_lift (scan_array start_len 8)
       else scan_lift (dec_err InvalidLength)) d"
| "scan_elements 0 start_len tag nest count d = None"
| "scan_elements (Suc fuel) start_len tag nest count d =
     (if count = 0 then scan_lift (dec_ok ()) d
      else scan_bind (scan_payload fuel start_len tag nest) (\<lambda>_.
        scan_elements fuel start_len tag nest (count - 1)) d)"
  by pat_completeness auto
termination
  by (relation "measure (\<lambda>p. case p of Inl (fuel, _) \<Rightarrow> fuel | Inr (Inl (fuel, _)) \<Rightarrow> fuel | Inr (Inr (fuel, _)) \<Rightarrow> fuel)") simp_all

definition scan_compound :: "nat \<Rightarrow> nat \<Rightarrow> nat \<Rightarrow> unit scan" where
  "scan_compound fuel start_len nest =
     scan_bind (scan_lift (check_nbt_depth nest)) (\<lambda>_. compound_loop fuel start_len nest 0)"

section \<open>The header the payload is read behind\<close>

record nbt_reader =
  read_bytes :: nat
  inner :: "u8 list"

definition new_reader :: "u8 list \<Rightarrow> nbt_reader" where
  "new_reader bytes = \<lparr>read_bytes = 0, inner = bytes\<rparr>"

text \<open>One \<open>read\<close> call for at most \<open>len\<close> bytes; it cannot fail, reading a slice never does.\<close>

definition reader_read :: "nat \<Rightarrow> nbt_reader \<Rightarrow> u8 list \<times> nbt_reader" where
  "reader_read len r =
     (if len = 0 then ([], r)
      else if read_bytes r = 0 then ([0x0A], r\<lparr>read_bytes := 1\<rparr>)
      else if read_bytes r = 1 then ([0x00], r\<lparr>read_bytes := 2\<rparr>)
      else if read_bytes r = 2 then ([0x00], r\<lparr>read_bytes := 3, inner := drop 1 (inner r)\<rparr>)
      else (let chunk = take len (inner r) in
        (chunk, r\<lparr>read_bytes := read_bytes r + length chunk, inner := drop len (inner r)\<rparr>)))"

definition encode_nbt :: "('nbt \<Rightarrow> u8 list option) \<Rightarrow> 'nbt \<Rightarrow> u8 list" where
  "encode_nbt nbt_write nbt =
     (case nbt_write nbt of
        None \<Rightarrow> []
      | Some temp_buf \<Rightarrow> 0x0A # (if length temp_buf > 3 then drop 3 temp_buf else []))"

text \<open>
  \<open>nbt_read\<close> is \<open>Nbt::read\<close>, as a function of the bytes its reader delivers.
\<close>

definition header_stream :: "u8 list \<Rightarrow> u8 list" where
  "header_stream nbt_bytes = [0x0A, 0x00, 0x00] @ drop 1 nbt_bytes"

definition decode_nbt :: "nat \<Rightarrow> (u8 list \<Rightarrow> 'nbt option) \<Rightarrow> 'nbt scan" where
  "decode_nbt fuel nbt_read d =
     (let original = remaining d; start_len = length original in
      scan_bind (scan_lift (nbt_take start_len 1)) (\<lambda>bs.
        if bs ! 0 \<noteq> 0x0A then scan_lift (dec_err InvalidLength)
        else
          scan_bind (scan_compound fuel start_len 0) (\<lambda>_.
          scan_bind (scan_lift (dec_get (\<lambda>d. start_len - length (remaining d)))) (\<lambda>consumed.
          case nbt_read (header_stream (take consumed original)) of
            Some nbt \<Rightarrow> scan_lift (dec_ok nbt)
          | None \<Rightarrow> scan_lift (dec_err InvalidLength)))) d)"

section \<open>The reader delivers the header, then the payload after its tag byte\<close>

definition reader_stream :: "nbt_reader \<Rightarrow> u8 list" where
  "reader_stream r =
     (if read_bytes r = 0 then header_stream (inner r)
      else if read_bytes r = 1 then [0x00, 0x00] @ drop 1 (inner r)
      else if read_bytes r = 2 then [0x00] @ drop 1 (inner r)
      else inner r)"

lemma reader_read_stream:
  "reader_read len r = (bs, r') \<Longrightarrow> reader_stream r = bs @ reader_stream r'"
  by (auto simp: reader_read_def reader_stream_def header_stream_def Let_def split: if_splits)

text \<open>Any sequence of read requests.\<close>

fun reader_reads :: "nat list \<Rightarrow> nbt_reader \<Rightarrow> u8 list \<times> nbt_reader" where
  "reader_reads [] r = ([], r)"
| "reader_reads (n # ns) r =
     (let (bs, r') = reader_read n r; (bs', r'') = reader_reads ns r' in (bs @ bs', r''))"

lemma reader_reads_stream:
  "reader_reads ns r = (bs, r') \<Longrightarrow> reader_stream r = bs @ reader_stream r'"
  by (induction ns arbitrary: r bs) (auto simp: Let_def split: prod.splits dest!: reader_read_stream)

lemma reader_read_progress:
  "0 < n \<Longrightarrow> reader_stream r \<noteq> [] \<Longrightarrow> fst (reader_read n r) \<noteq> []"
  by (auto simp: reader_read_def reader_stream_def Let_def)

text \<open>Whatever sizes the NBT library reads in, the bytes it has received so far are a
  prefix of the root header followed by the payload behind its tag byte (the compound tag, an
  empty root name, then the network payload without its own tag), and as long as they are not
  all of it the next read of at least one byte delivers something: nothing is lost, repeated,
  reordered or cut short.\<close>

theorem reader_delivers_header:
  assumes "reader_reads ns (new_reader payload) = (bs, r)"
  shows "prefix bs (header_stream payload) \<and>
    (bs \<noteq> header_stream payload \<longrightarrow> 0 < n \<longrightarrow> fst (reader_read n r) \<noteq> [])"
proof -
  have "header_stream payload = bs @ reader_stream r"
    using reader_reads_stream [OF assms] by (simp add: new_reader_def reader_stream_def)
  then show ?thesis using reader_read_progress [of n r] by auto
qed

lemma reader_delivers_header_witness:
  "prefix [0x0A, 0] (header_stream [0x0A, 1, 2]) \<and>
   fst (reader_read 1 (snd (reader_reads [3, 0, 7] (new_reader [0x0A, 1, 2])))) \<noteq> []"
proof -
  have run: "reader_reads [3, 0, 7] (new_reader [0x0A, 1, 2]) =
      ([0x0A, 0], \<lparr>read_bytes = 2, inner = [0x0A, 1, 2]\<rparr>)"
    by (simp add: reader_read_def new_reader_def)
  show ?thesis
    using reader_delivers_header [OF run, of 1] run by (simp add: header_stream_def)
qed

section \<open>The scan stays within the budget\<close>

definition scan_keeps :: "'a scan \<Rightarrow> bool" where
  "scan_keeps m \<longleftrightarrow> (\<forall>d r d'. m d = Some (r, d') \<longrightarrow> follows d d')"

lemma scan_keepsD: "scan_keeps m \<Longrightarrow> m d = Some (r, d') \<Longrightarrow> follows d d'"
  by (simp add: scan_keeps_def)

lemma scan_keeps_lift [codec_safe]: "keeps_budget m \<Longrightarrow> scan_keeps (scan_lift m)"
  by (simp add: scan_keeps_def scan_lift_def keeps_budgetD)

lemma scan_keeps_bind [codec_safe]:
  assumes "scan_keeps m" and "\<And>x. scan_keeps (f x)"
  shows "scan_keeps (scan_bind m f)"
  unfolding scan_keeps_def
proof (intro allI impI)
  fix d r d'
  assume run: "scan_bind m f d = Some (r, d')"
  show "follows d d'"
    using run assms
    by (auto simp: scan_bind_def split: option.splits prod.splits sum.splits
        dest: scan_keepsD intro: follows_trans)
qed

lemma scan_keeps_if [codec_safe]:
  "scan_keeps m \<Longrightarrow> scan_keeps n \<Longrightarrow> scan_keeps (if b then m else n)"
  by simp

lemma keeps_nbt_take [codec_safe]: "keeps_budget (nbt_take s n)"
  by (simp add: nbt_take_def codec_safe)

lemma keeps_nbt_i32 [codec_safe]: "keeps_budget (nbt_i32 s)"
  by (simp add: nbt_i32_def codec_safe)

lemma keeps_scan_string [codec_safe]: "keeps_budget (scan_string s)"
  by (simp add: scan_string_def Let_def codec_safe)

lemma keeps_checked_nbt_count [codec_safe]: "keeps_budget (checked_nbt_count c)"
  by (simp add: checked_nbt_count_def codec_safe)

lemma keeps_check_nbt_depth [codec_safe]: "keeps_budget (check_nbt_depth n)"
  by (simp add: check_nbt_depth_def codec_safe)

lemma keeps_scan_array [codec_safe]: "keeps_budget (scan_array s w)"
  by (simp add: scan_array_def codec_safe)

lemma scan_keeps_all:
  "scan_keeps (compound_loop fuel s n e) \<and> scan_keeps (scan_payload fuel s tag n)
    \<and> scan_keeps (scan_elements fuel s tag n c)"
proof (induction fuel arbitrary: n e tag c)
  case 0
  show ?case by (simp add: scan_keeps_def)
next
  case (Suc fuel)
  have "scan_keeps (\<lambda>d. compound_loop (Suc fuel) s n e d)"
    unfolding compound_loop.simps Let_def
    by (intro scan_keeps_bind scan_keeps_if scan_keeps_lift) (simp_all add: codec_safe Suc)
  moreover have "scan_keeps (\<lambda>d. scan_payload (Suc fuel) s tag n d)"
    unfolding scan_payload.simps Let_def
    by (intro scan_keeps_bind scan_keeps_if scan_keeps_lift) (simp_all add: codec_safe Suc)
  moreover have "scan_keeps (\<lambda>d. scan_elements (Suc fuel) s tag n c d)"
    using Suc by (cases "c = 0") (simp_all add: codec_safe)
  ultimately show ?case by simp
qed

lemmas scan_keeps_loop = scan_keeps_all [THEN conjunct1]
lemmas scan_keeps_payload = scan_keeps_all [THEN conjunct2, THEN conjunct1]

section \<open>The scan returns\<close>

definition scan_returns :: "'a scan \<Rightarrow> decoder \<Rightarrow> bool" where
  "scan_returns m d \<longleftrightarrow> m d \<noteq> None"

lemma returns_lift [simp]: "scan_returns (scan_lift m) d"
  by (simp add: scan_returns_def scan_lift_def)

lemma returns_if: "(b \<Longrightarrow> scan_returns m d) \<Longrightarrow> (\<not> b \<Longrightarrow> scan_returns n d) \<Longrightarrow>
    scan_returns (if b then m else n) d"
  by simp

lemma returns_bind:
  assumes "scan_returns m d"
    and "\<And>x d'. m d = Some (Inr x, d') \<Longrightarrow> scan_returns (f x) d'"
  shows "scan_returns (scan_bind m f) d"
  using assms
  by (auto simp: scan_returns_def scan_bind_def split: option.splits prod.splits sum.splits)

text \<open>\<open>within L l d\<close>: a cursor of this scan, with at most \<open>l\<close> bytes left.\<close>

definition within :: "decode_limits \<Rightarrow> nat \<Rightarrow> decoder \<Rightarrow> bool" where
  "within L l d \<longleftrightarrow> limits d = L \<and> length (remaining d) \<le> l"

lemma within_follows: "within L l d \<Longrightarrow> follows d d' \<Longrightarrow> within L l d'"
  by (auto simp: within_def follows_def dest: suffix_length_le)

lemma within_scan:
  "within L l d \<Longrightarrow> scan_keeps m \<Longrightarrow> m d = Some (r, d') \<Longrightarrow> within L l d'"
  by (blast intro: within_follows scan_keepsD)

text \<open>A sequence returns if its parts do; what its first part consumed stays consumed.\<close>

lemma returns_seq:
  assumes "within L l d" and "scan_keeps m" and "scan_returns m d"
    and "\<And>x d'. within L l d' \<Longrightarrow> m d = Some (Inr x, d') \<Longrightarrow> scan_returns (f x) d'"
  shows "scan_returns (scan_bind m f) d"
  using assms by (intro returns_bind) (auto dest: within_scan)

lemma take_one_shrinks:
  assumes "within L (Suc l) d" and "nbt_take s 1 d = (Inr bs, d')"
  shows "within L l d'"
  using assms
  by (auto simp: nbt_take_def dec_bind_def dec_get_def dec_ok_or_def dec_err_def dec_ok_def
      take_bytes_def within_def split: option.splits if_splits)

lemma checked_count_bound:
  "checked_nbt_count raw d = (Inr c, d') \<Longrightarrow> c \<le> max_collection_elements (limits d)"
  by (auto simp: checked_nbt_count_def dec_bind_def dec_get_def checked_len_def Let_def dec_err_def
      dec_ok_def split: if_splits)

lemma check_depth_bound: "check_nbt_depth n d = (Inr u, d') \<Longrightarrow> n \<le> max_nbt_depth (limits d)"
  by (auto simp: check_nbt_depth_def dec_bind_def dec_get_def dec_err_def split: if_splits)

text \<open>The fuel a level costs: a turn per byte that is left or per element of a list.\<close>

definition level_fuel :: "decode_limits \<Rightarrow> nat \<Rightarrow> nat" where
  "level_fuel L l = l + max_collection_elements L + 3"

definition payload_fuel :: "decode_limits \<Rightarrow> nat \<Rightarrow> nat \<Rightarrow> nat" where
  "payload_fuel L l n = (max_nbt_depth L + 1 - n) * level_fuel L l + 1"

lemma payload_fuel_deeper:
  "n \<le> max_nbt_depth L \<Longrightarrow> payload_fuel L l n = payload_fuel L l (n + 1) + level_fuel L l"
  by (simp add: payload_fuel_def Suc_diff_le)

lemma take_one_empty: "within L 0 d \<Longrightarrow> nbt_take s 1 d \<noteq> (Inr bs, d')"
  by (auto simp: nbt_take_def dec_bind_def dec_get_def dec_ok_or_def dec_err_def dec_ok_def
      take_bytes_def within_def split: option.splits if_splits)

lemma returns_loop_empty: "within L 0 d \<Longrightarrow> scan_returns (compound_loop (Suc fuel) s n e) d"
  unfolding compound_loop.simps
  by (rule returns_bind, simp) (auto simp: scan_lift_def dest: take_one_empty)

lemma returns_loop_step:
  assumes payload: "\<And>tag d. within L k d \<Longrightarrow> scan_returns (scan_payload fuel s tag (Suc n)) d"
    and loop: "\<And>e d. within L k d \<Longrightarrow> scan_returns (compound_loop fuel s n e) d"
    and d: "within L (Suc k) d"
  shows "scan_returns (\<lambda>d. compound_loop (Suc fuel) s n e d) d"
  unfolding compound_loop.simps Let_def
proof (rule returns_bind, simp)
  fix bs d'
  assume "scan_lift (nbt_take s 1) d = Some (Inr bs, d')"
  then have d': "within L k d'" by (intro take_one_shrinks [OF d]) (simp add: scan_lift_def)
  show "scan_returns (if bs ! 0 = 0 then scan_lift (dec_ok ()) else
      scan_bind (scan_lift (dec_ok_or (checked_add e 1) InvalidLength)) (\<lambda>entries.
      scan_bind (scan_lift (dec_get limits)) (\<lambda>lims.
      if max_collection_elements lims < entries then
        scan_lift (dec_err (LimitExceeded CollectionElements entries (max_collection_elements lims)))
      else
        scan_bind (scan_lift (charge_elements 1)) (\<lambda>_.
        scan_bind (scan_lift (charge_allocation 64)) (\<lambda>_.
        scan_bind (scan_lift (scan_string s)) (\<lambda>_.
        scan_bind (scan_payload fuel s (bs ! 0) (n + 1)) (\<lambda>_.
        compound_loop fuel s n entries))))))) d'"
    using d'
    by (intro returns_if returns_lift returns_seq [where L = L and l = k])
      (auto simp: codec_safe scan_keeps_all intro: payload loop)
qed

lemma returns_payload_step:
  assumes elements: "\<And>tag c d. within L l d \<Longrightarrow> c \<le> max_collection_elements L \<Longrightarrow> n \<le> max_nbt_depth L \<Longrightarrow>
      scan_returns (scan_elements fuel s tag (Suc n) c) d"
    and loop: "\<And>d. within L l d \<Longrightarrow> n < max_nbt_depth L \<Longrightarrow> scan_returns (compound_loop fuel s (Suc n) 0) d"
    and d: "within L l d"
  shows "scan_returns (\<lambda>d. scan_payload (Suc fuel) s tag n d) d"
  unfolding scan_payload.simps Let_def
  using d
  by (intro returns_if returns_lift returns_seq [where L = L and l = l])
    (auto simp: codec_safe scan_keeps_all scan_lift_def within_def
      dest!: checked_count_bound check_depth_bound intro: elements loop)

lemma scan_returns_all:
  "(within L k d \<longrightarrow> k \<le> l \<longrightarrow> k + 2 + payload_fuel L l (n + 1) \<le> fuel \<longrightarrow>
      scan_returns (compound_loop fuel s n e) d) \<and>
   (within L l d \<longrightarrow> payload_fuel L l n \<le> fuel \<longrightarrow> scan_returns (scan_payload fuel s tag n) d) \<and>
   (within L l d \<longrightarrow> c + 1 + payload_fuel L l n \<le> fuel \<longrightarrow>
      scan_returns (scan_elements fuel s tag n c) d)"
proof (induction fuel arbitrary: k d n e tag c)
  case 0
  show ?case by (simp add: payload_fuel_def)
next
  case (Suc fuel)
  have loop: "within L k d \<Longrightarrow> k \<le> l \<Longrightarrow> k + 2 + payload_fuel L l (n + 1) \<le> fuel \<Longrightarrow>
      scan_returns (compound_loop fuel s n e) d" for k d n e
    using Suc [of k d n e] by simp
  have payload: "within L l d \<Longrightarrow> payload_fuel L l n \<le> fuel \<Longrightarrow>
      scan_returns (scan_payload fuel s tag n) d" for d n tag
    using Suc [of _ d n _ tag] by simp
  have elements: "within L l d \<Longrightarrow> c + 1 + payload_fuel L l n \<le> fuel \<Longrightarrow>
      scan_returns (scan_elements fuel s tag n c) d" for d n c tag
    using Suc [of _ d n _ tag c] by simp
  have A: "scan_returns (compound_loop (Suc fuel) s n e) d"
    if "within L k d" "k \<le> l" "k + 2 + payload_fuel L l (n + 1) \<le> Suc fuel"
  proof (cases k)
    case 0
    with that show ?thesis by (simp only: returns_loop_empty)
  next
    case (Suc m)
    with that show ?thesis
      by (intro returns_loop_step [of L m]) (auto intro!: loop payload simp: within_def)
  qed
  have B: "scan_returns (scan_payload (Suc fuel) s tag n) d"
    if "within L l d" "payload_fuel L l n \<le> Suc fuel"
  proof -
    show ?thesis
      using that payload_fuel_deeper [of n L l] payload_fuel_deeper [of "n + 1" L l]
      by (intro returns_payload_step [of L l]) (auto intro!: elements loop simp: level_fuel_def)
  qed
  have C: "scan_returns (scan_elements (Suc fuel) s tag n c) d"
    if "within L l d" "c + 1 + payload_fuel L l n \<le> Suc fuel"
  proof (cases "c = 0")
    case True
    then show ?thesis by (simp add: scan_returns_def scan_lift_def)
  next
    case False
    then have "scan_returns (scan_bind (scan_payload fuel s tag n)
        (\<lambda>_. scan_elements fuel s tag n (c - 1))) d"
      using that by (intro returns_seq [where L = L and l = l] payload elements)
        (auto simp: scan_keeps_all)
    with False show ?thesis by (simp add: scan_returns_def)
  qed
  show ?case using A B C by blast
qed

text \<open>Enough fuel for a payload of \<open>l\<close> bytes.\<close>

definition scan_fuel :: "decode_limits \<Rightarrow> nat \<Rightarrow> nat" where
  "scan_fuel L l = l + 2 + payload_fuel L l 0"

lemma payload_fuel_antimono: "m \<le> n \<Longrightarrow> payload_fuel L l n \<le> payload_fuel L l m"
  by (simp add: payload_fuel_def diff_le_mono2)

lemma scan_compound_returns:
  assumes "within L l d" and "scan_fuel L l \<le> fuel"
  shows "scan_returns (scan_compound fuel s 0) d"
  unfolding scan_compound_def
  using assms scan_returns_all [of L l _ l 0 fuel s] payload_fuel_antimono [of 0 "Suc 0" L l]
  by (intro returns_seq [where L = L and l = l])
    (auto simp: codec_safe scan_keeps_all scan_fuel_def)

lemma decode_nbt_returns:
  assumes "scan_fuel (limits d) (length (remaining d)) \<le> fuel"
  shows "decode_nbt fuel nbt_read d \<noteq> None"
proof -
  let ?L = "limits d" and ?l = "length (remaining d)"
  have d: "within ?L ?l d" by (simp add: within_def)
  have "scan_returns (\<lambda>d. decode_nbt fuel nbt_read d) d"
    using d assms unfolding decode_nbt_def Let_def scan_returns_def
    by (fold scan_returns_def)
      (intro returns_if returns_lift returns_seq [where L = ?L and l = ?l] scan_compound_returns,
        auto simp: codec_safe scan_keeps_all scan_compound_def split: option.splits)
  then show ?thesis by (simp add: scan_returns_def)
qed

section \<open>What the scan accepts\<close>

text \<open>The grammar of NBT payloads on the wire, as bytes: a payload of a tag, and the entries of
  a compound up to and with its end tag. Each is nested \<open>n\<close> deep, and no payload is nested deeper
  than \<open>D\<close>.\<close>

inductive nbt_array :: "nat \<Rightarrow> u8 list \<Rightarrow> bool" for width where
  array: "length c = 4 \<Longrightarrow> 0 \<le> sint (from_be_bytes c :: i32) \<Longrightarrow>
    length bs = nat (sint (from_be_bytes c :: i32)) * width \<Longrightarrow> nbt_array width (c @ bs)"

inductive nbt_string :: "u8 list \<Rightarrow> bool" where
  string: "length c = 2 \<Longrightarrow> length bs = unat (from_be_bytes c :: u16) \<Longrightarrow> nbt_string (c @ bs)"

inductive nbt_payload :: "nat \<Rightarrow> nat \<Rightarrow> u8 \<Rightarrow> u8 list \<Rightarrow> bool"
  and nbt_list :: "nat \<Rightarrow> nat \<Rightarrow> u8 \<Rightarrow> nat \<Rightarrow> u8 list \<Rightarrow> bool"
  and nbt_entries :: "nat \<Rightarrow> nat \<Rightarrow> u8 list \<Rightarrow> bool" for D where
  pl_byte: "n \<le> D \<Longrightarrow> length bs = 1 \<Longrightarrow> nbt_payload D n 1 bs"
| pl_short: "n \<le> D \<Longrightarrow> length bs = 2 \<Longrightarrow> nbt_payload D n 2 bs"
| pl_int_float: "n \<le> D \<Longrightarrow> tag = 3 \<or> tag = 5 \<Longrightarrow> length bs = 4 \<Longrightarrow> nbt_payload D n tag bs"
| pl_long_double: "n \<le> D \<Longrightarrow> tag = 4 \<or> tag = 6 \<Longrightarrow> length bs = 8 \<Longrightarrow> nbt_payload D n tag bs"
| pl_byte_array: "n \<le> D \<Longrightarrow> nbt_array 1 bs \<Longrightarrow> nbt_payload D n 7 bs"
| pl_string: "n \<le> D \<Longrightarrow> nbt_string bs \<Longrightarrow> nbt_payload D n 8 bs"
| pl_list: "n \<le> D \<Longrightarrow> length c = 4 \<Longrightarrow> 0 \<le> sint (from_be_bytes c :: i32) \<Longrightarrow>
    count = nat (sint (from_be_bytes c :: i32)) \<Longrightarrow> element_tag = 0 \<longrightarrow> count = 0 \<Longrightarrow>
    nbt_list D (n + 1) element_tag count bs \<Longrightarrow> nbt_payload D n 9 (element_tag # c @ bs)"
| pl_compound: "n + 1 \<le> D \<Longrightarrow> nbt_entries D (n + 1) bs \<Longrightarrow> nbt_payload D n 10 bs"
| pl_int_array: "n \<le> D \<Longrightarrow> nbt_array 4 bs \<Longrightarrow> nbt_payload D n 11 bs"
| pl_long_array: "n \<le> D \<Longrightarrow> nbt_array 8 bs \<Longrightarrow> nbt_payload D n 12 bs"
| list_end: "nbt_list D n tag 0 []"
| list_more: "nbt_payload D n tag bs \<Longrightarrow> nbt_list D n tag k cs \<Longrightarrow> nbt_list D n tag (Suc k) (bs @ cs)"
| entries_end: "nbt_entries D n [0]"
| entries_more: "tag \<noteq> 0 \<Longrightarrow> nbt_string name \<Longrightarrow> nbt_payload D (n + 1) tag bs \<Longrightarrow> nbt_entries D n es \<Longrightarrow>
    nbt_entries D n (tag # name @ bs @ es)"

text \<open>\<open>eats m d x d' bs\<close>: the run succeeds with \<open>x\<close> and has consumed exactly \<open>bs\<close>.\<close>

definition eats :: "'a dec \<Rightarrow> decoder \<Rightarrow> 'a \<Rightarrow> decoder \<Rightarrow> u8 list \<Rightarrow> bool" where
  "eats m d x d' bs \<longleftrightarrow> m d = (Inr x, d') \<and> remaining d = bs @ remaining d'"

lemma bind_InrE:
  assumes "dec_bind m f d = (Inr y, d')"
  obtains x d1 where "m d = (Inr x, d1)" and "f x d1 = (Inr y, d')"
  using assms by (auto simp: dec_bind_def split: prod.splits sum.splits)

lemma map_InrE:
  assumes "dec_map g m d = (Inr y, d')"
  obtains x where "m d = (Inr x, d')" and "y = g x"
  using assms by (auto simp: dec_map_def dec_ok_def elim!: bind_InrE)

lemma nbt_take_eats:
  assumes "nbt_take s n d = (Inr bs, d')"
  shows "remaining d = bs @ remaining d' \<and> length bs = n"
  using assms
  by (auto simp: nbt_take_def dec_get_def dec_ok_or_def dec_err_def dec_ok_def take_bytes_def
      elim!: bind_InrE split: option.splits if_splits)

lemma nbt_take_limit:
  assumes "nbt_take s n d = (Inr bs, d')"
  shows "s \<le> max_nbt_bytes (limits d') + length (remaining d')"
  using assms
  by (auto simp: nbt_take_def dec_get_def dec_ok_or_def dec_err_def dec_ok_def take_bytes_def
      Option.bind_eq_Some_conv elim!: bind_InrE split: option.splits if_splits)

lemma charge_elements_frame: "charge_elements n d = (r, d') \<Longrightarrow> remaining d' = remaining d \<and> limits d' = limits d"
  by (auto simp: charge_elements_def split: option.splits if_splits)

lemma charge_allocation_frame: "charge_allocation n d = (r, d') \<Longrightarrow> remaining d' = remaining d \<and> limits d' = limits d"
  by (auto simp: charge_allocation_def split: option.splits if_splits)

lemma dec_ok_or_frame: "dec_ok_or x e d = (Inr y, d') \<Longrightarrow> d' = d \<and> x = Some y"
  by (auto simp: dec_ok_or_def dec_err_def dec_ok_def split: option.splits)

lemma nbt_i32_eats:
  assumes "nbt_i32 s d = (Inr v, d')"
  obtains c where "remaining d = c @ remaining d'" and "length c = 4" and "v = from_be_bytes c"
  using assms by (auto simp: nbt_i32_def elim!: map_InrE dest!: nbt_take_eats)

lemma checked_nbt_count_Inr:
  assumes "checked_nbt_count raw d = (Inr c, d')"
  shows "d' = d \<and> 0 \<le> sint raw \<and> c = nat (sint raw)"
  using assms
  by (auto simp: checked_nbt_count_def dec_get_def checked_len_def Let_def dec_err_def dec_ok_def
      elim!: bind_InrE split: if_splits)

lemma scan_string_eats:
  assumes "scan_string s d = (Inr u, d')"
  shows "\<exists>bs. remaining d = bs @ remaining d' \<and> nbt_string bs"
  using assms unfolding scan_string_def
  by (auto simp: Let_def elim!: bind_InrE map_InrE dest!: nbt_take_eats charge_allocation_frame)
    (metis append.assoc nbt_string.intros)

lemma scan_array_eats:
  assumes "scan_array s w d = (Inr u, d')"
  shows "\<exists>bs. remaining d = bs @ remaining d' \<and> nbt_array w bs"
  using assms unfolding scan_array_def
  by (auto elim!: bind_InrE map_InrE nbt_i32_eats dest!: nbt_take_eats charge_allocation_frame
      charge_elements_frame dec_ok_or_frame checked_nbt_count_Inr)
    (metis append.assoc nbt_array.intros)

lemma scan_bind_InrE:
  assumes "scan_bind m f d = Some (Inr y, d')"
  obtains x d1 where "m d = Some (Inr x, d1)" and "f x d1 = Some (Inr y, d')"
  using assms by (auto simp: scan_bind_def split: option.splits prod.splits sum.splits)

lemma scan_lift_Inr [simp]: "scan_lift m d = Some r \<longleftrightarrow> m d = r"
  by (simp add: scan_lift_def)

lemma tag_byte:
  assumes "nbt_take s 1 d = (Inr bs, d')"
  shows "remaining d = bs ! 0 # remaining d'"
  using nbt_take_eats [OF assms] by (auto simp: length_Suc_conv)

text \<open>A run keeps the limits, so the bound on the depth stays what it is at the start.\<close>

lemma follows_limits: "follows d d' \<Longrightarrow> limits d' = limits d"
  by (simp add: follows_def)

lemmas keeps_limits = follows_limits [OF keeps_budgetD] follows_limits [OF scan_keepsD]

lemma compound_loop_eats:
  assumes run: "compound_loop (Suc fuel) s n e d = Some (Inr u, d')" and D: "max_nbt_depth (limits d) = D"
    and payload: "\<And>tag d d'. max_nbt_depth (limits d) = D \<Longrightarrow> scan_payload fuel s tag (n + 1) d = Some (Inr (), d') \<Longrightarrow>
      \<exists>bs. remaining d = bs @ remaining d' \<and> nbt_payload D (n + 1) tag bs"
    and loop: "\<And>e d. max_nbt_depth (limits d) = D \<Longrightarrow> compound_loop fuel s n e d = Some (Inr u, d') \<Longrightarrow>
      \<exists>bs. remaining d = bs @ remaining d' \<and> nbt_entries D n bs \<and>
        s \<le> max_nbt_bytes (limits d') + length (remaining d')"
  shows "\<exists>bs. remaining d = bs @ remaining d' \<and> nbt_entries D n bs \<and>
    s \<le> max_nbt_bytes (limits d') + length (remaining d')"
proof -
  from run obtain bs d1 where t: "nbt_take s 1 d = (Inr bs, d1)" and
    rest: "(if bs ! 0 = 0 then scan_lift (dec_ok ()) else
      scan_bind (scan_lift (dec_ok_or (checked_add e 1) InvalidLength)) (\<lambda>entries.
      scan_bind (scan_lift (dec_get limits)) (\<lambda>lims.
      if max_collection_elements lims < entries then
        scan_lift (dec_err (LimitExceeded CollectionElements entries (max_collection_elements lims)))
      else
        scan_bind (scan_lift (charge_elements 1)) (\<lambda>_.
        scan_bind (scan_lift (charge_allocation 64)) (\<lambda>_.
        scan_bind (scan_lift (scan_string s)) (\<lambda>_.
        scan_bind (scan_payload fuel s (bs ! 0) (n + 1)) (\<lambda>_.
        compound_loop fuel s n entries))))))) d1 = Some (Inr u, d')"
    by (auto simp: Let_def elim!: scan_bind_InrE)
  have first: "remaining d = bs ! 0 # remaining d1" by (rule tag_byte [OF t])
  show ?thesis
  proof (cases "bs ! 0 = 0")
    case True
    with rest have "d' = d1" by (simp add: dec_ok_def)
    moreover have "s \<le> max_nbt_bytes (limits d1) + length (remaining d1)"
      by (rule nbt_take_limit [OF t])
    ultimately show ?thesis using first True entries_end by (auto intro!: exI [of _ "[0]"])
  next
    case False
    with rest obtain e' d2 d3 d4 where
      d2: "remaining d2 = remaining d1" "limits d2 = limits d1" and name: "scan_string s d2 = (Inr (), d3)" and
      pay: "scan_payload fuel s (bs ! 0) (n + 1) d3 = Some (Inr (), d4)" and
      more: "compound_loop fuel s n e' d4 = Some (Inr u, d')"
      by (auto simp: dec_get_def dec_err_def elim!: scan_bind_InrE split: if_splits
          dest!: dec_ok_or_frame) (metis charge_elements_frame charge_allocation_frame)
    have D2: "max_nbt_depth (limits d2) = D"
      using D d2(2) keeps_limits(1) [OF keeps_nbt_take t] by simp
    then have D3: "max_nbt_depth (limits d3) = D" using keeps_limits(1) [OF keeps_scan_string name] by simp
    then have D4: "max_nbt_depth (limits d4) = D" using keeps_limits(2) [OF scan_keeps_payload pay] by simp
    obtain nm where nm: "remaining d2 = nm @ remaining d3" "nbt_string nm"
      using scan_string_eats [OF name] by blast
    obtain ps where ps: "remaining d3 = ps @ remaining d4" "nbt_payload D (n + 1) (bs ! 0) ps"
      using payload [OF D3 pay] by blast
    obtain es where es: "remaining d4 = es @ remaining d'" "nbt_entries D n es"
      and fit: "s \<le> max_nbt_bytes (limits d') + length (remaining d')"
      using loop [OF D4 more] by blast
    have "nbt_entries D n (bs ! 0 # nm @ ps @ es)"
      using False nm ps es by (intro entries_more)
    then show ?thesis using first d2 nm ps es fit by (intro exI [of _ "bs ! 0 # nm @ ps @ es"]) simp
  qed
qed

lemma list_payload_eats:
  assumes run: "scan_bind (scan_lift (nbt_take s 1)) (\<lambda>bs. let element_tag = bs ! 0 in
      scan_bind (scan_lift (nbt_i32 s)) (\<lambda>raw_count.
      scan_bind (scan_lift (checked_nbt_count raw_count)) (\<lambda>count.
      if element_tag = 0 \<and> count \<noteq> 0 then scan_lift (dec_err InvalidLength)
      else
        scan_bind (scan_lift (charge_elements count)) (\<lambda>_.
        scan_bind (scan_lift (dec_ok_or (checked_mul count 32) InvalidLength)) (\<lambda>bytes.
        scan_bind (scan_lift (charge_allocation bytes)) (\<lambda>_.
        scan_elements fuel s element_tag (n + 1) count)))))) d = Some (Inr u, d')"
    and D: "max_nbt_depth (limits d) = D" and n: "n \<le> D"
    and elements: "\<And>tag c d. max_nbt_depth (limits d) = D \<Longrightarrow> scan_elements fuel s tag (n + 1) c d = Some (Inr u, d') \<Longrightarrow>
      \<exists>bs. remaining d = bs @ remaining d' \<and> nbt_list D (n + 1) tag c bs"
  shows "\<exists>bs. remaining d = bs @ remaining d' \<and> nbt_payload D n 9 bs"
proof -
  from run obtain bs d1 raw d2 count d3 where t: "nbt_take s 1 d = (Inr bs, d1)"
    and raw: "nbt_i32 s d1 = (Inr raw, d2)"
    and count: "checked_nbt_count raw d2 = (Inr count, d2)"
    and ok: "bs ! 0 = 0 \<longrightarrow> count = 0" and d3: "remaining d3 = remaining d2" "limits d3 = limits d2"
    and more: "scan_elements fuel s (bs ! 0) (n + 1) count d3 = Some (Inr u, d')"
    by (auto simp: Let_def dec_err_def elim!: scan_bind_InrE split: if_splits
        dest!: dec_ok_or_frame dest: checked_nbt_count_Inr)
      (metis charge_elements_frame charge_allocation_frame checked_nbt_count_Inr)+
  have first: "remaining d = bs ! 0 # remaining d1" by (rule tag_byte [OF t])
  obtain c where c: "remaining d1 = c @ remaining d2" "length c = 4" "raw = from_be_bytes c"
    using nbt_i32_eats [OF raw] by blast
  have "limits d1 = limits d" by (rule keeps_limits(1) [OF keeps_nbt_take t])
  moreover have "limits d2 = limits d1" by (rule keeps_limits(1) [OF keeps_nbt_i32 raw])
  ultimately have D3: "max_nbt_depth (limits d3) = D" using D d3(2) by simp
  obtain es where es: "remaining d3 = es @ remaining d'" "nbt_list D (n + 1) (bs ! 0) count es"
    using elements [OF D3 more] by blast
  have "nbt_payload D n 9 (bs ! 0 # c @ es)"
    using n c es ok checked_nbt_count_Inr [OF count] by (intro pl_list) auto
  then show ?thesis using first c d3 es by (intro exI [of _ "bs ! 0 # c @ es"]) simp
qed

lemma scan_payload_eats:
  assumes run: "scan_payload (Suc fuel) s tag n d = Some (Inr u, d')" and D: "max_nbt_depth (limits d) = D"
    and loop: "\<And>d. max_nbt_depth (limits d) = D \<Longrightarrow> compound_loop fuel s (n + 1) 0 d = Some (Inr u, d') \<Longrightarrow>
      \<exists>bs. remaining d = bs @ remaining d' \<and> nbt_entries D (n + 1) bs"
    and elements: "\<And>tag c d. max_nbt_depth (limits d) = D \<Longrightarrow> scan_elements fuel s tag (n + 1) c d = Some (Inr u, d') \<Longrightarrow>
      \<exists>bs. remaining d = bs @ remaining d' \<and> nbt_list D (n + 1) tag c bs"
  shows "\<exists>bs. remaining d = bs @ remaining d' \<and> nbt_payload D n tag bs"
proof -
  have fixed: "\<exists>bs. remaining d = bs @ remaining d' \<and> length bs = k"
    if "dec_map (\<lambda>_. ()) (nbt_take s k) d = (Inr u, d')" for k
    using that by (auto elim!: map_InrE dest!: nbt_take_eats)
  have depth_frame: "d1 = d" if "check_nbt_depth k d = (Inr v, d1)" for k v d1
    using that
    by (auto simp: check_nbt_depth_def dec_get_def dec_err_def dec_ok_def elim!: bind_InrE split: if_splits)
  have n: "n \<le> D"
  proof -
    obtain v d1 where "check_nbt_depth n d = (Inr v, d1)"
      using run unfolding scan_payload.simps by (rule scan_bind_InrE) (simp only: scan_lift_Inr)
    from check_depth_bound [OF this] show ?thesis using D by simp
  qed
  have inner: "\<exists>bs. remaining d = bs @ remaining d' \<and> nbt_payload D n 10 bs" if more: "scan_bind (scan_lift (check_nbt_depth (n + 1)))
      (\<lambda>_. compound_loop fuel s (n + 1) 0) d = Some (Inr u, d')"
  proof -
    obtain v d1 where "check_nbt_depth (n + 1) d = (Inr v, d1)"
      and "compound_loop fuel s (n + 1) 0 d1 = Some (Inr u, d')"
      using more by (rule scan_bind_InrE) (simp only: scan_lift_Inr)
    moreover from this(1) have "d1 = d" by (rule depth_frame)
    ultimately have "compound_loop fuel s (n + 1) 0 d = Some (Inr u, d')" by simp
    moreover have "n + 1 \<le> D" using check_depth_bound [OF \<open>check_nbt_depth (n + 1) d = (Inr v, d1)\<close>] D by simp
    ultimately show ?thesis using loop [OF D] pl_compound by blast
  qed
  show ?thesis
    using run unfolding scan_payload.simps
    apply (rule scan_bind_InrE)
    apply (simp only: scan_lift_Inr)
    apply (drule depth_frame)
    apply (simp only: split: if_split_asm)
    apply (simp_all only: scan_lift_Inr)
    subgoal using fixed [of 1] pl_byte [OF n] by blast
    subgoal using fixed [of 2] pl_short [OF n] by blast
    subgoal using fixed [of 4] pl_int_float [OF n] by blast
    subgoal using fixed [of 8] pl_long_double [OF n] by blast
    subgoal using scan_array_eats pl_byte_array [OF n] by blast
    subgoal using scan_string_eats pl_string [OF n] by blast
    subgoal using list_payload_eats [OF _ D n elements] by blast
    subgoal using inner by blast
    subgoal using scan_array_eats pl_int_array [OF n] by blast
    subgoal using scan_array_eats pl_long_array [OF n] by blast
    subgoal by (simp add: dec_err_def)
    done
qed


lemma scan_eats_all:
  "max_nbt_depth (limits d) = D \<Longrightarrow> (compound_loop fuel s n e d = Some (Inr (), d') \<longrightarrow>
      (\<exists>bs. remaining d = bs @ remaining d' \<and> nbt_entries D n bs \<and>
        s \<le> max_nbt_bytes (limits d') + length (remaining d'))) \<and>
   (scan_payload fuel s tag n d = Some (Inr (), d') \<longrightarrow>
      (\<exists>bs. remaining d = bs @ remaining d' \<and> nbt_payload D n tag bs)) \<and>
   (scan_elements fuel s tag n c d = Some (Inr (), d') \<longrightarrow>
      (\<exists>bs. remaining d = bs @ remaining d' \<and> nbt_list D n tag c bs))"
proof (induction fuel arbitrary: n e d d' tag c)
  case 0
  show ?case by simp
next
  case (Suc fuel)
  have loop: "\<exists>bs. remaining d = bs @ remaining d' \<and> nbt_entries D n bs \<and>
      s \<le> max_nbt_bytes (limits d') + length (remaining d')"
    if "max_nbt_depth (limits d) = D" "compound_loop fuel s n e d = Some (Inr (), d')" for n e d d'
    using Suc.IH [of d n e d'] that by blast
  have payload: "\<exists>bs. remaining d = bs @ remaining d' \<and> nbt_payload D n tag bs"
    if "max_nbt_depth (limits d) = D" "scan_payload fuel s tag n d = Some (Inr (), d')" for n tag d d'
    using Suc.IH [of d n _ d' tag] that by blast
  have elements: "\<exists>bs. remaining d = bs @ remaining d' \<and> nbt_list D n tag c bs"
    if "max_nbt_depth (limits d) = D" "scan_elements fuel s tag n c d = Some (Inr (), d')" for n tag c d d'
    using Suc.IH [of d n _ d' tag c] that by blast
  have A: "compound_loop (Suc fuel) s n e d = Some (Inr (), d') \<longrightarrow>
      (\<exists>bs. remaining d = bs @ remaining d' \<and> nbt_entries D n bs \<and>
        s \<le> max_nbt_bytes (limits d') + length (remaining d'))"
    by (rule impI, rule compound_loop_eats) (use payload loop Suc.prems in blast)+
  have B: "scan_payload (Suc fuel) s tag n d = Some (Inr (), d') \<longrightarrow>
      (\<exists>bs. remaining d = bs @ remaining d' \<and> nbt_payload D n tag bs)"
    by (rule impI, rule scan_payload_eats) (use elements loop Suc.prems in blast)+
  have C: "scan_elements (Suc fuel) s tag n c d = Some (Inr (), d') \<longrightarrow>
      (\<exists>bs. remaining d = bs @ remaining d' \<and> nbt_list D n tag c bs)"
  proof (cases c)
    case 0
    then show ?thesis by (auto simp: dec_ok_def intro: list_end)
  next
    case (Suc m)
    show ?thesis
    proof
      assume "scan_elements (Suc fuel) s tag n c d = Some (Inr (), d')"
      then obtain d1 where p: "scan_payload fuel s tag n d = Some (Inr (), d1)"
        and q: "scan_elements fuel s tag n m d1 = Some (Inr (), d')"
        using Suc by (auto elim!: scan_bind_InrE)
      from keeps_limits(2) [OF scan_keeps_payload p] have D1: "max_nbt_depth (limits d1) = D" using Suc.prems(1) by simp
      from payload [OF Suc.prems(1) p] elements [OF D1 q] show "\<exists>bs. remaining d = bs @ remaining d' \<and> nbt_list D n tag c bs"
        using Suc list_more by fastforce
    qed
  qed
  show ?case using A B C by blast
qed

lemma check_depth_frame: "check_nbt_depth k d = (Inr v, d') \<Longrightarrow> d' = d"
  by (auto simp: check_nbt_depth_def dec_get_def dec_err_def dec_ok_def elim!: bind_InrE split: if_splits)

lemma scan_compound_eats:
  assumes "scan_compound fuel s n d = Some (Inr (), d')"
  shows "\<exists>bs. remaining d = bs @ remaining d' \<and> nbt_entries (max_nbt_depth (limits d)) n bs \<and>
    s \<le> max_nbt_bytes (limits d') + length (remaining d')"
proof -
  obtain u d1 where "check_nbt_depth n d = (Inr u, d1)"
    and loop: "compound_loop fuel s n 0 d1 = Some (Inr (), d')"
    using assms unfolding scan_compound_def by (rule scan_bind_InrE) (simp only: scan_lift_Inr)
  moreover from this(1) have "d1 = d" by (rule check_depth_frame)
  ultimately show ?thesis using scan_eats_all by blast
qed

section \<open>Decoding an NBT value\<close>

lemma scan_keeps_compound: "scan_keeps (scan_compound fuel s n)"
  unfolding scan_compound_def by (intro scan_keeps_bind scan_keeps_lift) (auto simp: codec_safe scan_keeps_all)

lemma scan_keeps_decode_nbt: "scan_keeps (\<lambda>d. decode_nbt fuel nbt_read d)"
  unfolding scan_keeps_def
proof (intro allI impI)
  fix d :: decoder and r d'
  let ?s = "length (remaining d)"
  have "scan_keeps (\<lambda>d1. scan_bind (scan_lift (nbt_take ?s 1)) (\<lambda>bs.
      if bs ! 0 \<noteq> 0x0A then scan_lift (dec_err InvalidLength)
      else
        scan_bind (scan_compound fuel ?s 0) (\<lambda>_.
        scan_bind (scan_lift (dec_get (\<lambda>d. ?s - length (remaining d)))) (\<lambda>consumed.
        case nbt_read (header_stream (take consumed (remaining d))) of
          Some nbt \<Rightarrow> scan_lift (dec_ok nbt)
        | None \<Rightarrow> scan_lift (dec_err InvalidLength)))) d1)"
    unfolding scan_compound_def
    by (intro scan_keeps_bind scan_keeps_if) (auto simp: codec_safe scan_keeps_all split: option.split)
  moreover assume "decode_nbt fuel nbt_read d = Some (r, d')"
  ultimately show "follows d d'" unfolding decode_nbt_def Let_def by (rule scan_keepsD)
qed

lemma decode_nbt_eats:
  fixes d :: decoder
  assumes "decode_nbt fuel nbt_read d = Some (Inr v, d')"
  shows "\<exists>es. nbt_entries (max_nbt_depth (limits d)) 0 es \<and> limits d' = limits d \<and> remaining d = 0x0A # es @ remaining d' \<and>
    length es + 1 \<le> max_nbt_bytes (limits d') \<and> nbt_read (header_stream (0x0A # es)) = Some v"
proof -
  let ?s = "length (remaining d)"
  obtain bs d1 d2 where t: "nbt_take ?s 1 d = (Inr bs, d1)" and tag: "bs ! 0 = 0x0A"
    and scan: "scan_compound fuel ?s 0 d1 = Some (Inr (), d2)"
    and read: "(case nbt_read (header_stream (take (?s - length (remaining d2)) (remaining d))) of
        Some nbt \<Rightarrow> scan_lift (dec_ok nbt) | None \<Rightarrow> scan_lift (dec_err InvalidLength)) d2 = Some (Inr v, d')"
    using assms unfolding decode_nbt_def Let_def
    by (auto simp: dec_get_def dec_err_def simp del: One_nat_def elim!: scan_bind_InrE split: if_splits)
  have first: "remaining d = 0x0A # remaining d1" using tag_byte [OF t] tag by simp
  obtain es where es: "remaining d1 = es @ remaining d2" "nbt_entries (max_nbt_depth (limits d1)) 0 es"
    and fit: "?s \<le> max_nbt_bytes (limits d2) + length (remaining d2)"
    using scan_compound_eats [OF scan] by blast
  have "take (?s - length (remaining d2)) (remaining d) = 0x0A # es" using first es by simp
  with read have "nbt_read (header_stream (0x0A # es)) = Some v" and "d' = d2"
    by (auto simp: dec_ok_def dec_err_def split: option.splits)
  moreover have "limits d1 = limits d" by (rule keeps_limits(1) [OF keeps_nbt_take t])
  moreover have "limits d2 = limits d1"
    by (rule keeps_limits(2) [OF scan_keeps_compound scan])
  ultimately show ?thesis using first es fit by (intro exI [of _ es]) simp
qed

text \<open>C10: decoding an NBT value always returns: with fuel for the bytes at hand and the limits
  in force, the scan of an arbitrary buffer comes back with a result or an error, having kept
  to the limits on elements and allocation; a result is nested no deeper than \<open>max_nbt_depth\<close>.\<close>

theorem decode_nbt_total:
  fixes d :: decoder
  assumes "scan_fuel (limits d) (length (remaining d)) \<le> fuel"
  shows "\<exists>r d'. decode_nbt fuel nbt_read d = Some (r, d') \<and> follows d d' \<and>
    (r \<in> range Inr \<longrightarrow> (\<exists>es. remaining d = 0x0A # es @ remaining d' \<and> nbt_entries (max_nbt_depth (limits d)) 0 es))"
proof -
  obtain r d' where run: "decode_nbt fuel nbt_read d = Some (r, d')"
    using decode_nbt_returns [OF assms, of nbt_read] by fastforce
  then have "follows d d'" by (rule scan_keepsD [OF scan_keeps_decode_nbt])
  with run show ?thesis using decode_nbt_eats [of fuel nbt_read d] by blast
qed

lemma decode_nbt_total_witness:
  "\<exists>r d'. decode_nbt (scan_fuel default_limits 3) (\<lambda>bs. Some bs)
     (new_decoder (\<lambda>_. True) [0x0A, 3, 0] default_limits) = Some (r, d') \<and>
     follows (new_decoder (\<lambda>_. True) [0x0A, 3, 0] default_limits) d'"
  using decode_nbt_total [of "new_decoder (\<lambda>_. True) [0x0A, 3, 0] default_limits" "scan_fuel default_limits 3"]
  by (fastforce simp: new_decoder_def eval_nat_numeral)

text \<open>C9: a value comes out of the decoder only if the bytes it consumed are a well-formed NBT
  compound (tag 10, entries with non-zero tags, names and payloads of the lengths they announce,
  an end tag) nested no deeper than \<open>max_nbt_depth\<close>, no longer than \<open>max_nbt_bytes\<close>, and the NBT
  library accepted exactly those bytes behind the root header; the rest of the input is left in place.\<close>

theorem decode_nbt_accepts:
  fixes d :: decoder
  assumes "decode_nbt fuel nbt_read d = Some (Inr v, d')"
  shows "\<exists>es. nbt_entries (max_nbt_depth (limits d')) 0 es \<and> remaining d = 0x0A # es @ remaining d' \<and>
    length es + 1 \<le> max_nbt_bytes (limits d') \<and> nbt_read (header_stream (0x0A # es)) = Some v"
  using decode_nbt_eats [OF assms] by auto

definition sample_nbt :: "u8 list" where
  "sample_nbt = [0x0A, 1, 0, 1, 0x41, 5, 0, 7]"

lemma sample_nbt_decodes:
  "map_option (\<lambda>(r, d). (r, remaining d, limits d))
     (decode_nbt (Suc (Suc (Suc 0))) (\<lambda>bs. Some bs) (new_decoder (\<lambda>_. True) sample_nbt default_limits)) =
   Some (Inr [0x0A, 0, 0, 1, 0, 1, 0x41, 5, 0], [7], default_limits)"
  by (simp add: decode_nbt_def scan_compound_def scan_bind_def scan_lift_def nbt_take_def
      sample_nbt_def new_decoder_def default_limits_def dec_bind_def dec_get_def dec_ok_or_def
      dec_ok_def dec_err_def take_bytes_def checked_sub_def checked_add_def check_nbt_depth_def
      charge_elements_def charge_allocation_def scan_string_def from_be_bytes_def dec_map_def
      header_stream_def Let_def)

lemma decode_nbt_accepts_witness:
  "\<exists>es. nbt_entries (max_nbt_depth default_limits) 0 es \<and> sample_nbt = 0x0A # es @ [7] \<and>
    length es + 1 \<le> max_nbt_bytes default_limits \<and>
    header_stream (0x0A # es) = [0x0A, 0, 0, 1, 0, 1, 0x41, 5, 0]"
proof -
  obtain d' where run: "decode_nbt (Suc (Suc (Suc 0))) (\<lambda>bs. Some bs)
      (new_decoder (\<lambda>_. True) sample_nbt default_limits) =
      Some (Inr [0x0A, 0, 0, 1, 0, 1, 0x41, 5, 0], d')" and d': "remaining d' = [7]" "limits d' = default_limits"
    using sample_nbt_decodes by auto
  from decode_nbt_accepts [OF run] d' show ?thesis by (simp add: new_decoder_def)
qed

end
