(* ===== verification/Codec_Structs.thy ===== *)
theory Codec_Structs
  imports Codec_Containers
begin

text \<open>
  How the decoders of structures are put together from those of their fields: the code
  \<open>void-codec-macros\<close> derives decodes one field after the other with \<open>?\<close>. \<open>delivers\<close> is the
  round-trip contract of one such step under given limits, and its rules follow the shape of
  a decoder, so that a structure's contract is the composition of its fields'.
\<close>

section \<open>Integer fields written as VarInts\<close>

text \<open>\<open>decoder.decode::<VarI32>()?.0\<close>.\<close>

definition decode_varint32 :: "i32 dec" where
  "decode_varint32 = dec_bind (decode decode_VarI32) (\<lambda>v. case v of VarI32 x \<Rightarrow> dec_ok x)"

lemma keeps_decode_varint32 [codec_safe]: "keeps_budget decode_varint32"
  by (simp add: decode_varint32_def codec_safe keeps_case_VarI32)

section \<open>The contract of a decoding step\<close>

definition delivers ::
  "'a dec \<Rightarrow> decode_limits \<Rightarrow> u8 list \<Rightarrow> 'a \<Rightarrow> nat \<Rightarrow> nat \<Rightarrow> nat \<Rightarrow> bool" where
  "delivers m L bs v e b l \<longleftrightarrow>
     (\<forall>d rest. limits d = L \<longrightarrow> room d e b l \<longrightarrow> remaining d = bs @ rest \<longrightarrow>
        m d = (Inr v, charged d e b rest))"

lemma deliversI:
  "(\<And>d rest. limits d = L \<Longrightarrow> room d e b l \<Longrightarrow> remaining d = bs @ rest \<Longrightarrow>
     m d = (Inr v, charged d e b rest)) \<Longrightarrow> delivers m L bs v e b l"
  by (simp add: delivers_def)

lemma deliversD:
  "delivers m (limits d) bs v e b l \<Longrightarrow> room d e b l \<Longrightarrow> remaining d = bs @ rest \<Longrightarrow>
   m d = (Inr v, charged d e b rest)"
  by (simp add: delivers_def)

lemma delivers_ok: "delivers (dec_ok v) L [] v 0 0 0"
  by (rule deliversI) (simp add: dec_ok_def charged_def)

lemma delivers_bind:
  assumes "delivers m L bs v e b l" and "delivers (f v) L bs' w e' b' l'"
  shows "delivers (dec_bind m f) L (bs @ bs') w (e + e') (b + b') (max l l')"
proof (rule deliversI)
  fix d rest
  assume d: "limits d = L" "room d (e + e') (b + b') (max l l')" "remaining d = (bs @ bs') @ rest"
  have "m d = (Inr v, charged d e b (bs' @ rest))"
    using assms(1) d by (intro deliversD [of m d bs v e b l]) (auto elim: room_mono)
  moreover have "f v (charged d e b (bs' @ rest)) = (Inr w, charged (charged d e b (bs' @ rest)) e' b' rest)"
    using assms(2) d by (intro deliversD [of "f v" _ bs' w e' b' l']) (auto elim: room_mono)
  ultimately show "dec_bind m f d = (Inr w, charged d (e + e') (b + b') rest)"
    by (simp add: dec_bind_def)
qed

text \<open>The last step of a decoder leaves no bytes to a following \<open>dec_ok\<close>.\<close>

lemma delivers_eq:
  "delivers m L bs v e b l \<Longrightarrow> bs = bs' \<Longrightarrow> v = v' \<Longrightarrow> e = e' \<Longrightarrow> b = b' \<Longrightarrow> l \<le> l' \<Longrightarrow>
   delivers m L bs' v' e' b' l'"
  by (rule deliversI) (auto intro: deliversD room_mono [where l = l' and l' = l])

lemma delivers_map:
  assumes "delivers m L bs v e b l"
  shows "delivers (dec_map g m) L bs (g v) e b l"
  using delivers_bind [OF assms, where f = "\<lambda>x. dec_ok (g x)", OF delivers_ok]
  by (simp add: dec_map_def)

lemma delivers_decode:
  assumes "delivers m L bs v e b l"
  shows "delivers (decode m) L bs v e b (Suc l)"
proof (rule deliversI)
  fix d rest
  assume d: "limits d = L" "room d e b (Suc l)" "remaining d = bs @ rest"
  let ?d = "d\<lparr>depth := depth d + 1\<rparr>"
  have "m ?d = (Inr v, charged ?d e b rest)"
    using assms d by (intro deliversD [of m ?d bs v e b l]) (auto simp: room_def)
  moreover have "depth d < max_decode_depth (limits d)" using d(2) by (simp add: room_def)
  ultimately show "decode m d = (Inr v, charged d e b rest)"
    by (simp add: decode_def charged_def)
qed

lemma delivers_get: "delivers (f (g' L)) L bs v e b l \<Longrightarrow>
  delivers (dec_bind (dec_get (\<lambda>d. g' (limits d))) f) L bs v e b l"
  by (auto simp: delivers_def dec_bind_def dec_get_def)

lemma delivers_charge_elements:
  "n \<le> max_collection_elements L \<Longrightarrow> delivers (charge_elements n) L [] () n 0 0"
  by (rule deliversI) (auto simp: charge_elements_ok)

lemma delivers_charge_allocation: "delivers (charge_allocation n) L [] () 0 n 0"
  by (rule deliversI) (auto simp: charge_allocation_ok)

lemma delivers_try_reserve: "n \<le> max_allocation_bytes L \<Longrightarrow> delivers (try_reserve n) L [] () 0 0 0"
  by (rule deliversI) (auto simp: try_reserve_ok charged_def)

lemma delivers_varint32: "delivers decode_varint32 L (varint_bytes v) v 0 0 1"
proof (rule deliversI)
  fix d rest
  assume "limits d = L" "room d 0 0 1" "remaining d = varint_bytes v @ rest"
  then show "decode_varint32 d = (Inr v, charged d 0 0 rest)"
    using varint32.decode_roundtrip [of d "VarI32 v" rest]
    by (simp add: decode_varint32_def dec_bind_def dec_ok_def)
qed

text \<open>The room a step has may be assumed in showing its contract.\<close>

lemma delivers_room:
  assumes "b \<le> max_allocation_bytes L \<Longrightarrow> max_allocation_bytes L < usize_limit \<Longrightarrow> delivers m L bs v e b l"
  shows "delivers m L bs v e b l"
proof (rule deliversI)
  fix d rest
  assume d: "limits d = L" "room d e b l" "remaining d = bs @ rest"
  then have "b \<le> max_allocation_bytes L" "max_allocation_bytes L < usize_limit"
    by (auto simp: room_def)
  from assms [OF this] d show "m d = (Inr v, charged d e b rest)" by (simp add: deliversD)
qed

lemma delivers_checked_len:
  "n < 2 ^ 31 \<Longrightarrow> n \<le> limit \<Longrightarrow> delivers (checked_len (word_of_nat n) k limit) L [] n 0 0 0"
  by (simp add: checked_len_ok delivers_ok)

lemma delivers_ok_or: "x = Some v \<Longrightarrow> delivers (dec_ok_or x err) L [] v 0 0 0"
  by (simp add: dec_ok_or_def delivers_ok)

lemma delivers_repeat:
  assumes "\<And>x. x \<in> set xs \<Longrightarrow> delivers m L (enc x) x (e x) (b x) (lv x)"
  shows "delivers (dec_repeat (length xs) m) L (concat (map enc xs)) xs
    (sum_list (map e xs)) (sum_list (map b xs)) (foldr (\<lambda>x k. max (lv x) k) xs 0)"
  using assms
proof (induction xs)
  case Nil
  then show ?case by (simp add: delivers_ok)
next
  case (Cons x xs)
  have "delivers (dec_bind (dec_repeat (length xs) m) (\<lambda>ys. dec_ok (x # ys))) L (concat (map enc xs))
      (x # xs) (sum_list (map e xs)) (sum_list (map b xs)) (foldr (\<lambda>x k. max (lv x) k) xs 0)"
    using delivers_map [OF Cons.IH, of "\<lambda>ys. x # ys"] Cons.prems by (simp add: dec_map_def)
  with Cons.prems have "delivers (dec_bind m (\<lambda>x. dec_bind (dec_repeat (length xs) m) (\<lambda>ys. dec_ok (x # ys))))
      L (enc x @ concat (map enc xs)) (x # xs) (e x + sum_list (map e xs)) (b x + sum_list (map b xs))
      (max (lv x) (foldr (\<lambda>x k. max (lv x) k) xs 0))"
    by (intro delivers_bind [where v = x]) simp_all
  then show ?case by simp
qed

context codec begin

lemma delivers_with: "fits L v \<Longrightarrow> delivers decode_with L (encode v) v (elems v) (bytes v) (levels v)"
  by (rule deliversI) (auto simp: roundtrip)

lemma delivers_field:
  "fits L v \<Longrightarrow> delivers (decode decode_with) L (encode v) v (elems v) (bytes v) (Suc (levels v))"
  by (rule delivers_decode [OF delivers_with])

end

text \<open>A contract for every value is a codec.\<close>

lemma codecI:
  assumes "keeps_budget m"
    and "\<And>L v. fits L v \<Longrightarrow> delivers m L (enc v) v (elems v) (b v) (lv v)"
  shows "codec m enc fits elems b lv"
  by unfold_locales (use assms in \<open>auto intro: deliversD\<close>)

text \<open>What a codec's round trip says of a whole packet from a fresh cursor.\<close>

definition fresh_room :: "decode_limits \<Rightarrow> nat \<Rightarrow> nat \<Rightarrow> nat \<Rightarrow> bool" where
  "fresh_room L e b l \<longleftrightarrow>
     e \<le> max_total_elements L \<and> max_total_elements L < usize_limit \<and>
     b \<le> max_allocation_bytes L \<and> max_allocation_bytes L < usize_limit \<and> l \<le> max_decode_depth L"

lemma room_fresh: "fresh_room L e b l \<Longrightarrow> room (new_decoder (\<lambda>_. True) bs L) e b l"
  by (simp add: fresh_room_def room_def new_decoder_def)

lemma default_limits_fields [simp]:
  "max_total_elements default_limits = 131072" "max_allocation_bytes default_limits = 4194304"
  "max_decode_depth default_limits = 128" "max_collection_elements default_limits = 65536"
  "max_string_bytes default_limits = 32768"
  by (simp_all add: default_limits_def)

end
