(* ===== verification/Nbt_Wire.thy ===== *)
theory Nbt_Wire
  imports Nbt_Scan Codec_Structs
begin

text \<open>
  The other half of \<open>primitives/nbt.rs\<close>: the scan of \<open>Nbt_Scan\<close> accepts every well-formed payload
  the limits leave room for, and charges it exactly; so \<open>decode_nbt\<close> and \<open>encode_nbt\<close> are a \<open>codec\<close>.
\<close>

section \<open>Well-formed payloads and what they are charged\<close>

text \<open>The grammar again, under given limits, with the elements \<open>e\<close> and the bytes of memory \<open>b\<close> each part
  is charged: 64 bytes and one element an entry, 32 bytes and one element an item of a list.\<close>

inductive wire_string :: "u8 list \<Rightarrow> nat \<Rightarrow> bool" where
  wire_string: "length c = 2 \<Longrightarrow> length bs = unat (from_be_bytes c :: u16) \<Longrightarrow> wire_string (c @ bs) (length bs)"

inductive wire_array :: "decode_limits \<Rightarrow> nat \<Rightarrow> u8 list \<Rightarrow> nat \<Rightarrow> bool" for L width where
  wire_array: "length c = 4 \<Longrightarrow> sint (from_be_bytes c :: i32) = int count \<Longrightarrow>
    count \<le> max_collection_elements L \<Longrightarrow> length bs = count * width \<Longrightarrow> wire_array L width (c @ bs) count"

inductive wire_payload :: "decode_limits \<Rightarrow> nat \<Rightarrow> u8 \<Rightarrow> u8 list \<Rightarrow> nat \<Rightarrow> nat \<Rightarrow> bool"
  and wire_list :: "decode_limits \<Rightarrow> nat \<Rightarrow> u8 \<Rightarrow> nat \<Rightarrow> u8 list \<Rightarrow> nat \<Rightarrow> nat \<Rightarrow> bool"
  and wire_entries :: "decode_limits \<Rightarrow> nat \<Rightarrow> nat \<Rightarrow> u8 list \<Rightarrow> nat \<Rightarrow> nat \<Rightarrow> bool" for L where
  wire_byte: "n \<le> max_nbt_depth L \<Longrightarrow> length bs = 1 \<Longrightarrow> wire_payload L n 1 bs 0 0"
| wire_short: "n \<le> max_nbt_depth L \<Longrightarrow> length bs = 2 \<Longrightarrow> wire_payload L n 2 bs 0 0"
| wire_int_float: "n \<le> max_nbt_depth L \<Longrightarrow> tag = 3 \<or> tag = 5 \<Longrightarrow> length bs = 4 \<Longrightarrow> wire_payload L n tag bs 0 0"
| wire_long_double: "n \<le> max_nbt_depth L \<Longrightarrow> tag = 4 \<or> tag = 6 \<Longrightarrow> length bs = 8 \<Longrightarrow> wire_payload L n tag bs 0 0"
| wire_byte_array: "n \<le> max_nbt_depth L \<Longrightarrow> wire_array L 1 bs k \<Longrightarrow> wire_payload L n 7 bs k k"
| wire_text: "n \<le> max_nbt_depth L \<Longrightarrow> wire_string bs k \<Longrightarrow> wire_payload L n 8 bs 0 k"
| wire_items: "n \<le> max_nbt_depth L \<Longrightarrow> length c = 4 \<Longrightarrow> sint (from_be_bytes c :: i32) = int count \<Longrightarrow>
    count \<le> max_collection_elements L \<Longrightarrow> element_tag = 0 \<longrightarrow> count = 0 \<Longrightarrow>
    wire_list L (n + 1) element_tag count bs e b \<Longrightarrow>
    wire_payload L n 9 (element_tag # c @ bs) (count + e) (count * 32 + b)"
| wire_compound: "n + 1 \<le> max_nbt_depth L \<Longrightarrow> k \<le> max_collection_elements L \<Longrightarrow> wire_entries L (n + 1) k bs e b \<Longrightarrow>
    wire_payload L n 10 bs e b"
| wire_int_array: "n \<le> max_nbt_depth L \<Longrightarrow> wire_array L 4 bs k \<Longrightarrow> wire_payload L n 11 bs k (k * 4)"
| wire_long_array: "n \<le> max_nbt_depth L \<Longrightarrow> wire_array L 8 bs k \<Longrightarrow> wire_payload L n 12 bs k (k * 8)"
| wire_no_more: "wire_list L n tag 0 [] 0 0"
| wire_item: "wire_payload L n tag bs e b \<Longrightarrow> wire_list L n tag k cs e' b' \<Longrightarrow>
    wire_list L n tag (Suc k) (bs @ cs) (e + e') (b + b')"
| wire_end: "wire_entries L n 0 [0] 0 0"
| wire_entry: "tag \<noteq> 0 \<Longrightarrow> wire_string name l \<Longrightarrow> wire_payload L (n + 1) tag bs e b \<Longrightarrow> wire_entries L n k es e' b' \<Longrightarrow>
    wire_entries L n (Suc k) (tag # name @ bs @ es) (1 + (e + e')) (64 + (l + (b + b')))"

section \<open>The contract of a scanning step\<close>

text \<open>From a cursor at \<open>bs\<close>, \<open>s\<close> bytes before the end of the buffer at the start of the payload, with room
  for the charges and \<open>bs\<close> within \<open>max_nbt_bytes\<close>: if the step returns, it has consumed \<open>bs\<close>.\<close>

definition accepts :: "nat \<Rightarrow> decode_limits \<Rightarrow> 'a scan \<Rightarrow> u8 list \<Rightarrow> 'a \<Rightarrow> nat \<Rightarrow> nat \<Rightarrow> bool" where
  "accepts s L m bs v e b \<longleftrightarrow>
     (\<forall>d rest r. limits d = L \<longrightarrow> room d e b 0 \<longrightarrow> remaining d = bs @ rest \<longrightarrow>
        length bs + length rest \<le> s \<longrightarrow> s \<le> max_nbt_bytes L + length rest \<longrightarrow> m d = Some r \<longrightarrow>
        r = (Inr v, charged d e b rest))"

definition limits_fit :: "decode_limits \<Rightarrow> bool" where
  "limits_fit L \<longleftrightarrow> max_nbt_bytes L < usize_limit \<and> max_collection_elements L < usize_limit"

lemma acceptsD:
  "accepts s (limits d) m bs v e b \<Longrightarrow> m d = Some r \<Longrightarrow> room d e b 0 \<Longrightarrow> remaining d = bs @ rest \<Longrightarrow>
   length bs + length rest \<le> s \<Longrightarrow> s \<le> max_nbt_bytes (limits d) + length rest \<Longrightarrow>
   r = (Inr v, charged d e b rest)"
  unfolding accepts_def by blast

lemma accepts_lift: "delivers m L bs v e b 0 \<Longrightarrow> accepts s L (scan_lift m) bs v e b"
  by (auto simp: accepts_def scan_lift_def deliversD)

lemma accepts_eq:
  "accepts s L m bs v e b \<Longrightarrow> bs = bs' \<Longrightarrow> e = e' \<Longrightarrow> b = b' \<Longrightarrow> accepts s L m bs' v e' b'"
  by simp

lemma accepts_bind:
  assumes m: "accepts s L m bs v e b" and f: "accepts s L (f v) bs' w e' b'"
  shows "accepts s L (scan_bind m f) (bs @ bs') w (e + e') (b + b')"
  unfolding accepts_def
proof (intro allI impI)
  fix d rest r
  assume d: "limits d = L" "room d (e + e') (b + b') 0" "remaining d = (bs @ bs') @ rest"
    "length (bs @ bs') + length rest \<le> s" "s \<le> max_nbt_bytes L + length rest"
    and run: "scan_bind m f d = Some r"
  obtain q where q: "m d = Some q" using run by (auto simp: scan_bind_def split: option.splits)
  have "q = (Inr v, charged d e b (bs' @ rest))"
    using d m q by (intro acceptsD [of s d m bs v e b q]) (auto elim: room_mono)
  with q run have "f v (charged d e b (bs' @ rest)) = Some r" by (simp add: scan_bind_def)
  then show "r = (Inr w, charged d (e + e') (b + b') rest)"
    using acceptsD [of s "charged d e b (bs' @ rest)" "f v" bs' w e' b' r rest] f d by simp
qed

lemma accepts_take:
  assumes "limits_fit L"
  shows "accepts s L (scan_lift (nbt_take s (length bs))) bs bs 0 0"
  using assms
  by (auto simp: accepts_def scan_lift_def nbt_take_def dec_bind_def dec_get_def dec_ok_or_def dec_ok_def
      checked_sub_def checked_add_def take_bytes_def charged_def limits_fit_def)

lemma accepts_map:
  "accepts s L (scan_lift m) bs v e b \<Longrightarrow> accepts s L (scan_lift (dec_map g m)) bs (g v) e b"
  by (auto simp: accepts_def scan_lift_def dec_map_def dec_bind_def dec_ok_def split: prod.splits)

lemma accepts_lift_bind:
  assumes "accepts s L (scan_lift m) bs v e b" and "accepts s L (scan_lift (f v)) bs' w e' b'"
  shows "accepts s L (scan_lift (dec_bind m f)) (bs @ bs') w (e + e') (b + b')"
proof -
  have "scan_lift (dec_bind m f) = scan_bind (scan_lift m) (\<lambda>x. scan_lift (f x))"
    by (rule ext) (simp add: scan_lift_def scan_bind_def dec_bind_def split: prod.splits sum.splits)
  with accepts_bind [OF assms(1), of "\<lambda>x. scan_lift (f x)"] assms(2) show ?thesis by simp
qed


text \<open>The room a step has may be assumed in showing its contract.\<close>

lemma accepts_room:
  assumes "b \<le> max_allocation_bytes L \<Longrightarrow> max_allocation_bytes L < usize_limit \<Longrightarrow> accepts s L m bs v e b"
  shows "accepts s L m bs v e b"
  unfolding accepts_def
proof (intro allI impI)
  fix d rest r
  assume d: "limits d = L" "room d e b 0" "remaining d = bs @ rest" "length bs + length rest \<le> s"
    "s \<le> max_nbt_bytes L + length rest" "m d = Some r"
  then have "b \<le> max_allocation_bytes L" "max_allocation_bytes L < usize_limit" by (auto simp: room_def)
  from assms [OF this] d show "r = (Inr v, charged d e b rest)" by (auto intro: acceptsD)
qed

lemma accepts_string:
  assumes L: "limits_fit L" and bs: "wire_string bs k"
  shows "accepts s L (scan_lift (scan_string s)) bs () 0 k"
  using bs
proof cases
  case (wire_string c cs)
  have "accepts s L (scan_lift (dec_map (\<lambda>_. ()) (nbt_take s (length cs)))) cs () 0 0"
    by (rule accepts_map [where v = cs, OF accepts_take [OF L]])
  then have "accepts s L (scan_lift (dec_bind (charge_allocation (length cs))
      (\<lambda>_. dec_map (\<lambda>_. ()) (nbt_take s (length cs))))) ([] @ cs) () (0 + 0) (length cs + 0)"
    by (rule accepts_lift_bind [OF accepts_lift [OF delivers_charge_allocation]])
  moreover have "accepts s L (scan_lift (nbt_take s 2)) c c 0 0"
    using accepts_take [OF L, of s c] wire_string by simp
  ultimately show ?thesis
    using accepts_lift_bind [of s L "nbt_take s 2" c c 0 0 "\<lambda>bytes. dec_bind (charge_allocation (unat (from_be_bytes bytes :: u16)))
        (\<lambda>_. dec_map (\<lambda>_. ()) (nbt_take s (unat (from_be_bytes bytes :: u16))))" cs "()" 0 "length cs"] wire_string
    by (simp add: scan_string_def Let_def)
qed

lemma accepts_i32:
  "limits_fit L \<Longrightarrow> length c = 4 \<Longrightarrow> accepts s L (scan_lift (nbt_i32 s)) c (from_be_bytes c) 0 0"
  unfolding nbt_i32_def by (rule accepts_map) (use accepts_take [of L s c] in simp)

lemma delivers_count:
  assumes "sint raw = int count" and "count \<le> max_collection_elements L"
  shows "delivers (checked_nbt_count raw) L [] count 0 0 0"
proof -
  have "delivers (checked_len raw CollectionElements (max_collection_elements L)) L [] count 0 0 0"
    using assms by (auto simp: checked_len_def Let_def intro: delivers_ok)
  then show ?thesis
    unfolding checked_nbt_count_def by (auto simp: delivers_def dec_bind_def dec_get_def)
qed


lemma accepts_array:
  assumes L: "limits_fit L" and bs: "wire_array L w bs k"
  shows "accepts s L (scan_lift (scan_array s w)) bs () k (k * w)"
  using bs
proof cases
  case (wire_array c cs)
  show ?thesis
  proof (rule accepts_room)
    assume "k * w \<le> max_allocation_bytes L" "max_allocation_bytes L < usize_limit"
    then have mul: "checked_mul k w = Some (k * w)" by (simp add: checked_mul_def)
    have "accepts s L (scan_lift (nbt_take s (k * w))) cs cs 0 0"
      using accepts_take [OF L, of s cs] wire_array by simp
    note last = accepts_map [OF this, of "\<lambda>_. ()"]
    show ?thesis
      unfolding scan_array_def
      by (rule accepts_eq, rule accepts_lift_bind [OF accepts_i32 [OF L wire_array(2)]],
          rule accepts_lift_bind [OF accepts_lift [OF delivers_count [OF wire_array(3,4)]]],
          rule accepts_lift_bind [OF accepts_lift [OF delivers_charge_elements [OF wire_array(4)]]],
          rule accepts_lift_bind [OF accepts_lift [OF delivers_ok_or [OF mul]]],
          rule accepts_lift_bind [OF accepts_lift [OF delivers_charge_allocation]],
          rule last)
        (simp_all add: wire_array)
  qed
qed

lemma delivers_depth: "n \<le> max_nbt_depth L \<Longrightarrow> delivers (check_nbt_depth n) L [] () 0 0 0"
  by (auto simp: delivers_def check_nbt_depth_def dec_bind_def dec_get_def dec_ok_def charged_def)

lemma accepts_limits: "accepts s L (f L) bs v e b \<Longrightarrow> accepts s L (scan_bind (scan_lift (dec_get limits)) f) bs v e b"
  by (auto simp: accepts_def scan_bind_def scan_lift_def dec_get_def)

section \<open>Every well-formed payload is accepted\<close>

lemma accepts_list_payload:
  assumes L: "limits_fit L" and c: "length c = 4" "sint (from_be_bytes c :: i32) = int count"
    and count: "count \<le> max_collection_elements L" "element_tag = 0 \<longrightarrow> count = 0"
    and items: "accepts s L (scan_elements fuel s element_tag (n + 1) count) bs () e b"
  shows "accepts s L (scan_bind (scan_lift (nbt_take s 1)) (\<lambda>bs. let element_tag = bs ! 0 in
      scan_bind (scan_lift (nbt_i32 s)) (\<lambda>raw_count.
      scan_bind (scan_lift (checked_nbt_count raw_count)) (\<lambda>count.
      if element_tag = 0 \<and> count \<noteq> 0 then scan_lift (dec_err InvalidLength)
      else
        scan_bind (scan_lift (charge_elements count)) (\<lambda>_.
        scan_bind (scan_lift (dec_ok_or (checked_mul count 32) InvalidLength)) (\<lambda>bytes.
        scan_bind (scan_lift (charge_allocation bytes)) (\<lambda>_.
        scan_elements fuel s element_tag (n + 1) count))))))) (element_tag # c @ bs) () (count + e) (count * 32 + b)"
proof (rule accepts_room)
  assume "count * 32 + b \<le> max_allocation_bytes L" "max_allocation_bytes L < usize_limit"
  then have mul: "checked_mul count 32 = Some (count * 32)" by (simp add: checked_mul_def)
  have tag: "accepts s L (scan_lift (nbt_take s 1)) [element_tag] [element_tag] 0 0"
    using accepts_take [OF L, of s "[element_tag]"] by simp
  have ok: "\<not> (element_tag = 0 \<and> count \<noteq> 0)" using count(2) by simp
  show ?thesis
    unfolding Let_def
    by (rule accepts_eq, rule accepts_bind [OF tag], simp only: nth_Cons_0,
        rule accepts_bind [OF accepts_i32 [OF L c(1)]],
        rule accepts_bind [OF accepts_lift [OF delivers_count [OF c(2) count(1)]]], subst if_not_P [OF ok],
        rule accepts_bind [OF accepts_lift [OF delivers_charge_elements [OF count(1)]]],
        rule accepts_bind [OF accepts_lift [OF delivers_ok_or [OF mul]]],
        rule accepts_bind [OF accepts_lift [OF delivers_charge_allocation]], rule items) simp_all
qed

lemma accepts_entry:
  assumes L: "limits_fit L" and tag: "tag \<noteq> 0" and name: "wire_string name l"
    and k: "k < max_collection_elements L"
    and payload: "accepts s L (scan_payload fuel s tag (n + 1)) bs () e b"
    and more: "accepts s L (compound_loop fuel s n (k + 1)) es () e' b'"
  shows "accepts s L (compound_loop (Suc fuel) s n k) (tag # name @ bs @ es) () (1 + (e + e')) (64 + (l + (b + b')))"
proof -
  have first: "accepts s L (scan_lift (nbt_take s 1)) [tag] [tag] 0 0"
    using accepts_take [OF L, of s "[tag]"] by simp
  have add: "checked_add k 1 = Some (k + 1)" using k L by (simp add: checked_add_def limits_fit_def)
  have one: "1 \<le> max_collection_elements L" and ok: "\<not> max_collection_elements L < k + 1" using k by simp_all
  have "accepts s L (\<lambda>d. compound_loop (Suc fuel) s n k d) (tag # name @ bs @ es) () (1 + (e + e')) (64 + (l + (b + b')))"
    unfolding compound_loop.simps Let_def
    by (rule accepts_eq, rule accepts_bind [OF first], simp only: nth_Cons_0, subst if_not_P [OF tag],
        rule accepts_bind [OF accepts_lift [OF delivers_ok_or [OF add]]], rule accepts_limits, subst if_not_P [OF ok],
        rule accepts_bind [OF accepts_lift [OF delivers_charge_elements [OF one]]],
        rule accepts_bind [OF accepts_lift [OF delivers_charge_allocation]],
        rule accepts_bind [OF accepts_string [OF L name]],
        rule accepts_bind [OF payload], rule more) simp_all
  then show ?thesis .
qed


lemma accepts_no_fuel [simp]:
  "accepts s L (compound_loop 0 s n k) bs () e b" "accepts s L (scan_payload 0 s tag n) bs () e b"
  "accepts s L (scan_elements 0 s tag n c) bs () e b"
  by (simp_all add: accepts_def)

text \<open>The nesting check every payload starts with.\<close>

lemma accepts_payload:
  assumes n: "n \<le> max_nbt_depth L"
    and body: "\<And>fuel. accepts s L (if tag = 1 then scan_lift (dec_map (\<lambda>_. ()) (nbt_take s 1))
       else if tag = 2 then scan_lift (dec_map (\<lambda>_. ()) (nbt_take s 2))
       else if tag = 3 \<or> tag = 5 then scan_lift (dec_map (\<lambda>_. ()) (nbt_take s 4))
       else if tag = 4 \<or> tag = 6 then scan_lift (dec_map (\<lambda>_. ()) (nbt_take s 8))
       else if tag = 7 then scan_lift (scan_array s 1)
       else if tag = 8 then scan_lift (scan_string s)
       else if tag = 9 then
         scan_bind (scan_lift (nbt_take s 1)) (\<lambda>bs. let element_tag = bs ! 0 in
         scan_bind (scan_lift (nbt_i32 s)) (\<lambda>raw_count.
         scan_bind (scan_lift (checked_nbt_count raw_count)) (\<lambda>count.
         if element_tag = 0 \<and> count \<noteq> 0 then scan_lift (dec_err InvalidLength)
         else
           scan_bind (scan_lift (charge_elements count)) (\<lambda>_.
           scan_bind (scan_lift (dec_ok_or (checked_mul count 32) InvalidLength)) (\<lambda>bytes.
           scan_bind (scan_lift (charge_allocation bytes)) (\<lambda>_.
           scan_elements fuel s element_tag (n + 1) count))))))
       else if tag = 10 then
         scan_bind (scan_lift (check_nbt_depth (n + 1))) (\<lambda>_. compound_loop fuel s (n + 1) 0)
       else if tag = 11 then scan_lift (scan_array s 4)
       else if tag = 12 then scan_lift (scan_array s 8)
       else scan_lift (dec_err InvalidLength)) bs () e b"
  shows "accepts s L (scan_payload fuel s tag n) bs () e b"
proof (cases fuel)
  case (Suc f)
  have "accepts s L (\<lambda>d. scan_payload (Suc f) s tag n d) ([] @ bs) () (0 + e) (0 + b)"
    unfolding scan_payload.simps by (rule accepts_bind [OF accepts_lift [OF delivers_depth [OF n]]], rule body)
  then show ?thesis unfolding Suc by (simp only: append_Nil add_0)
qed simp

lemma accepts_fixed:
  "limits_fit L \<Longrightarrow> length bs = k \<Longrightarrow> accepts s L (scan_lift (dec_map (\<lambda>_. ()) (nbt_take s k))) bs () 0 0"
  by (drule accepts_take [of L s bs], rule accepts_map) simp

lemma accepts_items:
  assumes L: "limits_fit L" and n: "n \<le> max_nbt_depth L" and c: "length c = 4" "sint (from_be_bytes c :: i32) = int count"
    and count: "count \<le> max_collection_elements L" "element_tag = 0 \<longrightarrow> count = 0"
    and items: "\<And>fuel. accepts s L (scan_elements fuel s element_tag (n + 1) count) bs () e b"
  shows "accepts s L (scan_payload fuel s 9 n) (element_tag # c @ bs) () (count + e) (count * 32 + b)"
  by (rule accepts_payload [OF n])
    (use accepts_list_payload [OF L c count items] in simp)

lemma accepts_wire:
  assumes L: "limits_fit L"
  shows "(wire_payload L n tag bs e b \<longrightarrow> (\<forall>fuel. accepts s L (scan_payload fuel s tag n) bs () e b)) \<and>
    (wire_list L n tag c bs' e' b' \<longrightarrow> (\<forall>fuel. accepts s L (scan_elements fuel s tag n c) bs' () e' b')) \<and>
    (wire_entries L n k es e'' b'' \<longrightarrow> (\<forall>fuel j. j + k \<le> max_collection_elements L \<longrightarrow>
      accepts s L (compound_loop fuel s n j) es () e'' b''))"
proof (induction rule: wire_payload_wire_list_wire_entries.induct)
  case (wire_byte n bs)
  then show ?case by (intro allI accepts_payload) (simp_all add: accepts_fixed [OF L])
next
  case (wire_short n bs)
  then show ?case by (intro allI accepts_payload) (simp_all add: accepts_fixed [OF L])
next
  case (wire_int_float n tag bs)
  then show ?case by (intro allI accepts_payload) (auto simp: accepts_fixed [OF L])
next
  case (wire_long_double n tag bs)
  then show ?case by (intro allI accepts_payload) (auto simp: accepts_fixed [OF L])
next
  case (wire_byte_array n bs k)
  then show ?case using accepts_array [OF L, of 1 bs k s] by (intro allI accepts_payload) simp_all
next
  case (wire_text n bs k)
  then show ?case using accepts_string [OF L, of bs k s] by (intro allI accepts_payload) simp_all
next
  case (wire_items n c count element_tag bs e b)
  then show ?case
    by (intro allI accepts_items [OF L]) auto
next
  case (wire_compound n k bs e b)
  have "accepts s L (scan_bind (scan_lift (check_nbt_depth (n + 1))) (\<lambda>_. compound_loop f s (n + 1) 0)) ([] @ bs) () (0 + e) (0 + b)" for f
    using wire_compound by (intro accepts_bind [OF accepts_lift [OF delivers_depth]]) simp_all
  then show ?case using wire_compound by (intro allI accepts_payload) simp_all
next
  case (wire_int_array n bs k)
  then show ?case using accepts_array [OF L, of 4 bs k s] by (intro allI accepts_payload) simp_all
next
  case (wire_long_array n bs k)
  then show ?case using accepts_array [OF L, of 8 bs k s] by (intro allI accepts_payload) simp_all
next
  case (wire_no_more n tag)
  have "accepts s L (scan_lift (dec_ok ())) [] () 0 0" by (rule accepts_lift [OF delivers_ok])
  then have "accepts s L (scan_elements f s tag n 0) [] () 0 0" for f by (cases f) (auto simp: accepts_def)
  then show ?case by blast
next
  case (wire_item n tag bs e b k cs e' b')
  show ?case
  proof
    fix fuel show "accepts s L (scan_elements fuel s tag n (Suc k)) (bs @ cs) () (e + e') (b + b')"
    proof (cases fuel)
    case (Suc f)
    have "accepts s L (scan_bind (scan_payload f s tag n) (\<lambda>_. scan_elements f s tag n k)) (bs @ cs) () (e + e') (b + b')"
      using wire_item.IH by (intro accepts_bind) blast+
    then show ?thesis using Suc by (simp add: accepts_def)
    qed simp
  qed
next
  case (wire_end n)
  have "accepts s L (\<lambda>d. compound_loop (Suc f) s n j d) ([0] @ []) () (0 + 0) (0 + 0)" for f j
    unfolding compound_loop.simps Let_def
    by (rule accepts_bind [where v = "[0]"]) (use accepts_take [OF L, of s "[0]"] in \<open>simp_all add: accepts_lift delivers_ok\<close>)
  then have "accepts s L (compound_loop f s n j) [0] () 0 0" for f j
    by (cases f) (simp, simp only: append_Nil2 add_0)
  then show ?case by blast
next
  case (wire_entry tag name l n bs e b k es e' b')
  show ?case
  proof (intro allI impI)
    fix fuel j assume j: "j + Suc k \<le> max_collection_elements L"
    show "accepts s L (compound_loop fuel s n j) (tag # name @ bs @ es) () (1 + (e + e')) (64 + (l + (b + b')))"
    proof (cases fuel)
    case (Suc f)
    show ?thesis
      unfolding Suc using j wire_entry.IH
      by (intro accepts_entry [OF L wire_entry.hyps(1,2)]) simp_all
    qed simp
  qed
qed


section \<open>NBT values survive the wire\<close>

text \<open>What the code relies on in the NBT library, for one value: it is written as the root header and a
  compound the limits allow, and read back from these bytes. \<open>cost\<close> is what the scan charges for it.\<close>

definition nbt_fits ::
  "('nbt \<Rightarrow> u8 list option) \<Rightarrow> (u8 list \<Rightarrow> 'nbt option) \<Rightarrow> ('nbt \<Rightarrow> nat \<times> nat) \<Rightarrow> decode_limits \<Rightarrow> 'nbt \<Rightarrow> bool" where
  "nbt_fits nbt_write nbt_read cost L v \<longleftrightarrow> limits_fit L \<and>
     (\<exists>es k. nbt_write v = Some ([0x0A, 0, 0] @ es) \<and> nbt_read ([0x0A, 0, 0] @ es) = Some v \<and>
        wire_entries L 0 k es (fst (cost v)) (snd (cost v)) \<and> k \<le> max_collection_elements L \<and>
        length es + 1 \<le> max_nbt_bytes L)"

text \<open>With the fuel that is enough, the scan is total.\<close>

definition decode_nbt_with :: "(u8 list \<Rightarrow> 'nbt option) \<Rightarrow> 'nbt dec" where
  "decode_nbt_with nbt_read d =
     (case decode_nbt (scan_fuel (limits d) (length (remaining d))) nbt_read d of
        Some r \<Rightarrow> r | None \<Rightarrow> (Inl InvalidLength, d))"

lemma decode_nbt_with_runs:
  "decode_nbt (scan_fuel (limits d) (length (remaining d))) nbt_read d = Some (decode_nbt_with nbt_read d)"
  using decode_nbt_returns [OF order_refl, of d nbt_read] by (auto simp: decode_nbt_with_def)

lemma nbt_delivers:
  assumes v: "nbt_fits nbt_write nbt_read cost L v"
  shows "delivers (decode_nbt_with nbt_read) L (encode_nbt nbt_write v) v (fst (cost v)) (snd (cost v)) 0"
proof (rule deliversI)
  fix d rest
  assume d: "limits d = L" "room d (fst (cost v)) (snd (cost v)) 0" "remaining d = encode_nbt nbt_write v @ rest"
  obtain es k where es: "nbt_write v = Some ([0x0A, 0, 0] @ es)" "nbt_read ([0x0A, 0, 0] @ es) = Some v"
    "wire_entries L 0 k es (fst (cost v)) (snd (cost v))" "k \<le> max_collection_elements L"
    "length es + 1 \<le> max_nbt_bytes L" and L: "limits_fit L"
    using v by (auto simp: nbt_fits_def)
  have enc: "encode_nbt nbt_write v = 0x0A # es" using es(1) by (simp add: encode_nbt_def)
  let ?s = "length (remaining d)" and ?fuel = "scan_fuel (limits d) (length (remaining d))"
  have tag: "accepts ?s L (scan_lift (nbt_take ?s 1)) [0x0A] [0x0A] 0 0"
    using accepts_take [OF L, of ?s "[0x0A]"] by simp
  have scan: "accepts ?s L (scan_compound ?fuel ?s 0) ([] @ es) () (0 + fst (cost v)) (0 + snd (cost v))"
    unfolding scan_compound_def
    by (rule accepts_bind [OF accepts_lift [OF delivers_depth]])
      (use accepts_wire [OF L, THEN conjunct2, THEN conjunct2] es(3,4) in auto)
  let ?d1 = "charged d 0 0 (es @ rest)" and ?d2 = "charged d (fst (cost v)) (snd (cost v)) rest"
  have len: "?s = Suc (length es + length rest)" using d(3) enc by simp
  have none: "room d 0 0 0" by (rule room_mono [OF d(2)]) simp_all
  have 1: "nbt_take ?s 1 d = (Inr [0x0A], ?d1)"
    using d(3) enc es(5) acceptsD [of ?s d "scan_lift (nbt_take ?s 1)" "[0x0A]" "[0x0A]" 0 0 "nbt_take ?s 1 d" "es @ rest"] tag d none
    by (auto simp: scan_lift_def len)
  obtain r where run: "decode_nbt ?fuel nbt_read d = Some r" using decode_nbt_with_runs by blast
  then obtain q where q: "scan_compound ?fuel ?s 0 ?d1 = Some q"
    using 1 by (auto simp: decode_nbt_def Let_def scan_bind_def scan_lift_def split: option.splits)
  have 2: "scan_compound ?fuel ?s 0 ?d1 = Some (Inr (), ?d2)"
    using q acceptsD [of ?s ?d1 "scan_compound ?fuel ?s 0" es "()" "fst (cost v)" "snd (cost v)" q rest] scan d es(5)
    by (simp add: len enc)
  have "decode_nbt ?fuel nbt_read d = Some (Inr v, ?d2)"
    using 1 2 d(3) enc es(2)
    by (simp add: decode_nbt_def Let_def scan_bind_def scan_lift_def dec_get_def dec_ok_def header_stream_def len)
  then show "decode_nbt_with nbt_read d = (Inr v, ?d2)"
    by (simp add: decode_nbt_with_def)
qed


lemma keeps_decode_nbt_with: "keeps_budget (decode_nbt_with nbt_read)"
proof (rule keeps_budgetI)
  fix d
  show "follows d (snd (decode_nbt_with nbt_read d))"
    by (rule scan_keepsD [OF scan_keeps_decode_nbt, of _ nbt_read d "fst (decode_nbt_with nbt_read d)"])
      (simp only: prod.collapse, rule decode_nbt_with_runs)
qed

lemma nbt_codec:
  "codec (decode_nbt_with nbt_read) (encode_nbt nbt_write) (nbt_fits nbt_write nbt_read cost)
     (\<lambda>v. fst (cost v)) (\<lambda>v. snd (cost v)) (\<lambda>_. 0)"
  by (rule codecI [OF keeps_decode_nbt_with nbt_delivers])


section \<open>Properties\<close>

text \<open>C11: every NBT value the library writes as a well-formed compound within the limits (depth, entries,
  elements, memory, \<open>max_nbt_bytes\<close>) and reads back from these bytes survives the wire: the scan takes
  exactly its bytes, charges exactly its cost, and the value comes out.\<close>

theorem nbt_roundtrip:
  fixes d :: decoder
  assumes "nbt_fits nbt_write nbt_read cost (limits d) v" and "room d (fst (cost v)) (snd (cost v)) 0"
    and "remaining d = encode_nbt nbt_write v @ rest"
  shows "decode_nbt (scan_fuel (limits d) (length (remaining d))) nbt_read d =
    Some (Inr v, charged d (fst (cost v)) (snd (cost v)) rest)"
  using deliversD [OF nbt_delivers [OF assms(1)] assms(2,3)] decode_nbt_with_runs by metis

text \<open>A compound with a byte named \<open>A\<close>; the library here keeps values as the bytes behind the root header.\<close>

abbreviation (input) sample_entries :: "u8 list" where
  "sample_entries \<equiv> [1, 0, 1, 0x41, 5, 0]"

lemma sample_fits:
  "nbt_fits (\<lambda>v. Some ([0x0A, 0, 0] @ v)) (\<lambda>bs. Some (drop 3 bs)) (\<lambda>_. (1, 65)) default_limits sample_entries"
proof -
  have "wire_string ([0, 1] @ [0x41]) (length [0x41 :: u8])"
    by (rule wire_string) (simp_all add: from_be_bytes_def)
  then have "wire_entries default_limits 0 (Suc 0) (1 # [0, 1, 0x41] @ [5] @ [0]) (1 + (0 + 0)) (64 + (length [0x41 :: u8] + (0 + 0)))"
    by (intro wire_entry wire_byte wire_end) (simp_all add: default_limits_def)
  then show ?thesis
    by (auto simp: nbt_fits_def limits_fit_def default_limits_def intro!: exI [of _ "Suc 0"])
qed

lemma nbt_roundtrip_witness:
  "let d = new_decoder (\<lambda>_. True) (0x0A # sample_entries @ [7]) default_limits in
   decode_nbt (scan_fuel (limits d) (length (remaining d))) (\<lambda>bs. Some (drop 3 bs)) d =
     Some (Inr sample_entries, charged d 1 65 [7])"
  unfolding Let_def
  using nbt_roundtrip [of "\<lambda>v. Some ([0x0A, 0, 0] @ v)" "\<lambda>bs. Some (drop 3 bs)" "\<lambda>_. (1, 65)"
      "new_decoder (\<lambda>_. True) (0x0A # sample_entries @ [7]) default_limits" sample_entries "[7]"] sample_fits
  by (simp add: new_decoder_def encode_nbt_def room_def default_limits_def)

end
