(* ===== verification/Slots.thy ===== *)
theory Slots
  imports Nbt_Wire
begin

text \<open>
  The item slot of \<open>void-protocol/src/slot.rs\<close> and the click packet of
  \<open>void-protocol/src/serverbound/play/click_container.rs\<close>. The decoders take that
  of the NBT value of a custom-data component as an argument, \<open>Nbt_Wire\<close> gives it; \<open>size_of::<DataComponent>()\<close>
  is a parameter.
\<close>

section \<open>Data components\<close>

abbreviation CUSTOM_DATA :: i32 where "CUSTOM_DATA \<equiv> 0"
abbreviation MAX_STACK_SIZE :: i32 where "MAX_STACK_SIZE \<equiv> 1"
abbreviation MAX_DAMAGE :: i32 where "MAX_DAMAGE \<equiv> 2"
abbreviation DAMAGE :: i32 where "DAMAGE \<equiv> 3"
abbreviation REPAIR_COST :: i32 where "REPAIR_COST \<equiv> 19"

datatype 'n data_component =
    MaxStackSize i32
  | MaxDamage i32
  | Damage i32
  | RepairCost i32
  | CustomData 'n
  | Raw i32 "u8 list"

fun component_type_id :: "'n data_component \<Rightarrow> i32" where
  "component_type_id (MaxStackSize _) = MAX_STACK_SIZE"
| "component_type_id (MaxDamage _) = MAX_DAMAGE"
| "component_type_id (Damage _) = DAMAGE"
| "component_type_id (RepairCost _) = REPAIR_COST"
| "component_type_id (CustomData _) = CUSTOM_DATA"
| "component_type_id (Raw type_id _) = type_id"

fun encode_body :: "('n \<Rightarrow> u8 list) \<Rightarrow> 'n data_component \<Rightarrow> u8 list" where
  "encode_body enc_nbt (MaxStackSize v) = encode_VarI32 (VarI32 v)"
| "encode_body enc_nbt (MaxDamage v) = encode_VarI32 (VarI32 v)"
| "encode_body enc_nbt (Damage v) = encode_VarI32 (VarI32 v)"
| "encode_body enc_nbt (RepairCost v) = encode_VarI32 (VarI32 v)"
| "encode_body enc_nbt (CustomData n) = enc_nbt n"
| "encode_body enc_nbt (Raw _ body) = body"

text \<open>None: a component whose body the decoder cannot delimit.\<close>

definition decode_body :: "'n dec \<Rightarrow> i32 \<Rightarrow> 'n data_component dec option" where
  "decode_body dec_nbt type_id =
     (if type_id = CUSTOM_DATA then Some (dec_map CustomData (decode dec_nbt))
      else if type_id = MAX_STACK_SIZE then Some (dec_map MaxStackSize decode_varint32)
      else if type_id = MAX_DAMAGE then Some (dec_map MaxDamage decode_varint32)
      else if type_id = DAMAGE then Some (dec_map Damage decode_varint32)
      else if type_id = REPAIR_COST then Some (dec_map RepairCost decode_varint32)
      else None)"

definition encode_component :: "('n \<Rightarrow> u8 list) \<Rightarrow> 'n data_component \<Rightarrow> u8 list" where
  "encode_component enc_nbt c = encode_VarI32 (VarI32 (component_type_id c)) @ encode_body enc_nbt c"

section \<open>Patches\<close>

record 'n data_component_patch =
  patch_add :: "'n data_component list"
  patch_remove :: "i32 list"

definition encode_parts ::
  "('n \<Rightarrow> u8 list) \<Rightarrow> 'n data_component list \<Rightarrow> i32 list \<Rightarrow> u8 list" where
  "encode_parts enc_nbt components_to_add components_to_remove =
     encode_VarI32 (VarI32 (word_of_nat (length components_to_add))) @
     encode_VarI32 (VarI32 (word_of_nat (length components_to_remove))) @
     concat (map (encode_component enc_nbt) components_to_add) @
     concat (map (\<lambda>type_id. encode_VarI32 (VarI32 type_id)) components_to_remove)"

definition encode_patch :: "('n \<Rightarrow> u8 list) \<Rightarrow> 'n data_component_patch \<Rightarrow> u8 list" where
  "encode_patch enc_nbt p = encode_parts enc_nbt (patch_add p) (patch_remove p)"

text \<open>One turn of the loop over the components to add.\<close>

definition decode_component :: "'n dec \<Rightarrow> 'n data_component dec" where
  "decode_component dec_nbt =
     dec_bind decode_varint32 (\<lambda>type_id.
     case decode_body dec_nbt type_id of
       Some component \<Rightarrow> component
     | None \<Rightarrow> dec_err InvalidLength)"

definition decode_patch :: "nat \<Rightarrow> 'n dec \<Rightarrow> 'n data_component_patch dec" where
  "decode_patch size_of_component dec_nbt =
     dec_bind decode_varint32 (\<lambda>raw_add.
     dec_bind decode_varint32 (\<lambda>raw_remove.
     dec_bind (dec_get (\<lambda>d. max_collection_elements (limits d))) (\<lambda>max_elements.
     dec_bind (checked_len raw_add CollectionElements max_elements) (\<lambda>n_add.
     dec_bind (checked_len raw_remove CollectionElements max_elements) (\<lambda>n_remove.
     dec_bind (charge_elements n_add) (\<lambda>_.
     dec_bind (charge_elements n_remove) (\<lambda>_.
     dec_bind (dec_ok_or (checked_mul n_add size_of_component) InvalidLength) (\<lambda>add_bytes.
     dec_bind (dec_ok_or (checked_mul n_remove 4) InvalidLength) (\<lambda>remove_bytes.
     dec_bind (dec_ok_or (checked_add add_bytes remove_bytes) InvalidLength) (\<lambda>both.
     dec_bind (charge_allocation both) (\<lambda>_.
     dec_bind (try_reserve add_bytes) (\<lambda>_.
     dec_bind (dec_repeat n_add (decode_component dec_nbt)) (\<lambda>components_to_add.
     dec_bind (try_reserve remove_bytes) (\<lambda>_.
     dec_bind (dec_repeat n_remove decode_varint32) (\<lambda>components_to_remove.
     dec_ok \<lparr>patch_add = components_to_add, patch_remove = components_to_remove\<rparr>)))))))))))))))"

section \<open>Slots\<close>

record 'n slot =
  slot_count :: i32
  slot_item_id :: i32
  components_to_add :: "'n data_component list"
  components_to_remove :: "i32 list"

definition EMPTY_SLOT :: "'n slot" where
  "EMPTY_SLOT = \<lparr>slot_count = 0, slot_item_id = 0, components_to_add = [], components_to_remove = []\<rparr>"

definition simple_slot :: "i32 \<Rightarrow> i32 \<Rightarrow> 'n slot" where
  "simple_slot item count =
     \<lparr>slot_count = count, slot_item_id = item, components_to_add = [], components_to_remove = []\<rparr>"

definition slot_is_empty :: "'n slot \<Rightarrow> bool" where
  "slot_is_empty s \<longleftrightarrow> sint (slot_count s) \<le> 0"

definition encode_slot :: "('n \<Rightarrow> u8 list) \<Rightarrow> 'n slot \<Rightarrow> u8 list" where
  "encode_slot enc_nbt s =
     encode_VarI32 (VarI32 (slot_count s)) @
     (if sint (slot_count s) \<le> 0 then []
      else encode_VarI32 (VarI32 (slot_item_id s)) @
        encode_parts enc_nbt (components_to_add s) (components_to_remove s))"

definition decode_slot :: "nat \<Rightarrow> 'n dec \<Rightarrow> 'n slot dec" where
  "decode_slot size_of_component dec_nbt =
     dec_bind decode_varint32 (\<lambda>count.
     if sint count \<le> 0 then dec_ok EMPTY_SLOT
     else
       dec_bind decode_varint32 (\<lambda>item.
       dec_bind (decode_patch size_of_component dec_nbt) (\<lambda>patch.
       dec_ok \<lparr>slot_count = count, slot_item_id = item,
         components_to_add = patch_add patch, components_to_remove = patch_remove patch\<rparr>)))"

section \<open>Clicks\<close>

datatype container_input = Pickup | QuickMove | Swap | Clone | Throw | QuickCraft | PickupAll

fun input_id :: "container_input \<Rightarrow> i32" where
  "input_id Pickup = 0"
| "input_id QuickMove = 1"
| "input_id Swap = 2"
| "input_id Clone = 3"
| "input_id Throw = 4"
| "input_id QuickCraft = 5"
| "input_id PickupAll = 6"

definition input_from_id :: "i32 \<Rightarrow> container_input" where
  "input_from_id i =
     (if i = 1 then QuickMove else if i = 2 then Swap else if i = 3 then Clone
      else if i = 4 then Throw else if i = 5 then QuickCraft else if i = 6 then PickupAll
      else Pickup)"

definition encode_input :: "container_input \<Rightarrow> u8 list" where
  "encode_input c = encode_VarI32 (VarI32 (input_id c))"

definition decode_input :: "container_input dec" where
  "decode_input = dec_bind decode_varint32 (\<lambda>v. dec_ok (input_from_id v))"

record hashed_component =
  hashed_type_id :: i32
  hash :: i32

definition encode_hashed_component :: "hashed_component \<Rightarrow> u8 list" where
  "encode_hashed_component c = encode_VarI32 (VarI32 (hashed_type_id c)) @ encode_i32 (hash c)"

definition decode_hashed_component :: "hashed_component dec" where
  "decode_hashed_component =
     dec_bind decode_varint32 (\<lambda>type_id.
     dec_bind (decode decode_i32) (\<lambda>h.
     dec_ok \<lparr>hashed_type_id = type_id, hash = h\<rparr>))"

record hashed_item =
  hashed_item_id :: i32
  hashed_count :: i32
  added :: "hashed_component list"
  removed :: "VarI32 list"

definition encode_hashed_item :: "hashed_item \<Rightarrow> u8 list" where
  "encode_hashed_item h =
     encode_VarI32 (VarI32 (hashed_item_id h)) @ encode_VarI32 (VarI32 (hashed_count h)) @
     encode_vec encode_hashed_component (added h) @ encode_vec encode_VarI32 (removed h)"

text \<open>A \<open>HashedComponent\<close> is two \<open>i32\<close>, eight bytes; a \<open>VarI32\<close> is four.\<close>

definition decode_hashed_item :: "hashed_item dec" where
  "decode_hashed_item =
     dec_bind decode_varint32 (\<lambda>item.
     dec_bind decode_varint32 (\<lambda>count.
     dec_bind (decode (decode_vec 8 decode_hashed_component)) (\<lambda>plus.
     dec_bind (decode (decode_vec 4 decode_VarI32)) (\<lambda>minus.
     dec_ok \<lparr>hashed_item_id = item, hashed_count = count, added = plus, removed = minus\<rparr>))))"

type_synonym hashed_stack = "hashed_item option"

record changed_slot =
  changed_index :: i16
  changed_item :: hashed_stack

definition encode_changed_slot :: "changed_slot \<Rightarrow> u8 list" where
  "encode_changed_slot c =
     encode_i16 (changed_index c) @ encode_option encode_hashed_item (changed_item c)"

definition decode_changed_slot :: "changed_slot dec" where
  "decode_changed_slot =
     dec_bind (decode decode_i16) (\<lambda>index.
     dec_bind (decode (decode_option decode_hashed_item)) (\<lambda>item.
     dec_ok \<lparr>changed_index = index, changed_item = item\<rparr>))"

record click_container =
  click_container_id :: i32
  click_state_id :: i32
  click_slot :: i16
  click_button :: i8
  click_input :: container_input
  changed_slots :: "changed_slot list"
  click_carried :: hashed_stack

abbreviation SLOT_OUTSIDE :: i16 where "SLOT_OUTSIDE \<equiv> - 999"
abbreviation MAX_CHANGED_SLOTS :: nat where "MAX_CHANGED_SLOTS \<equiv> 128"

definition encode_click :: "click_container \<Rightarrow> u8 list" where
  "encode_click c =
     encode_VarI32 (VarI32 (click_container_id c)) @ encode_VarI32 (VarI32 (click_state_id c)) @
     encode_i16 (click_slot c) @ encode_i8 (click_button c) @ encode_input (click_input c) @
     encode_vec encode_changed_slot (changed_slots c) @
     encode_option encode_hashed_item (click_carried c)"

definition decode_click :: "nat \<Rightarrow> click_container dec" where
  "decode_click size_of_changed_slot =
     dec_bind decode_varint32 (\<lambda>container.
     dec_bind decode_varint32 (\<lambda>state.
     dec_bind (decode decode_i16) (\<lambda>index.
     dec_bind (decode decode_i8) (\<lambda>button.
     dec_bind (decode decode_input) (\<lambda>inp.
     dec_bind (decode (decode_vec size_of_changed_slot decode_changed_slot)) (\<lambda>changed.
     if MAX_CHANGED_SLOTS < length changed then dec_err InvalidLength
     else
       dec_bind (decode (decode_option decode_hashed_item)) (\<lambda>carried.
       dec_ok \<lparr>click_container_id = container, click_state_id = state, click_slot = index,
         click_button = button, click_input = inp, changed_slots = changed,
         click_carried = carried\<rparr>)))))))"

section \<open>The budget is kept\<close>

lemma keeps_case_option [codec_safe]:
  "keeps_budget m \<Longrightarrow> (\<And>x. keeps_budget (f x)) \<Longrightarrow>
   keeps_budget (case v of None \<Rightarrow> m | Some x \<Rightarrow> f x)"
  by (cases v) simp_all

lemma keeps_decode_component: "keeps_budget m \<Longrightarrow> keeps_budget (decode_component m)"
  unfolding decode_component_def
  by (rule keeps_dec_bind)
    (auto simp: decode_body_def intro!: keeps_decode_varint32 keeps_dec_map keeps_decode keeps_dec_err
      split: option.splits if_splits)

lemma keeps_decode_slot: "keeps_budget m \<Longrightarrow> keeps_budget (decode_slot k m)"
  by (auto simp: decode_slot_def decode_patch_def intro!: codec_safe keeps_decode_component)

lemma keeps_decode_hashed_item: "keeps_budget decode_hashed_item"
  by (auto simp: decode_hashed_item_def decode_hashed_component_def intro!: codec_safe i32.budget varint32.budget)

lemma keeps_decode_click: "keeps_budget (decode_click k)"
  by (auto simp: decode_click_def decode_changed_slot_def decode_input_def
      intro!: codec_safe keeps_decode_hashed_item i16.budget i8.budget)

section \<open>Slots survive the wire\<close>

text \<open>What the wire can carry: no unmodelled component, and an empty slot in its one form.\<close>

definition component_fits ::
  "(decode_limits \<Rightarrow> 'n \<Rightarrow> bool) \<Rightarrow> decode_limits \<Rightarrow> 'n data_component \<Rightarrow> bool" where
  "component_fits fits L c = (case c of CustomData n \<Rightarrow> fits L n | Raw _ _ \<Rightarrow> False | _ \<Rightarrow> True)"

definition nbt_cost :: "('n \<Rightarrow> nat) \<Rightarrow> 'n data_component \<Rightarrow> nat" where
  "nbt_cost cost c = (case c of CustomData n \<Rightarrow> cost n | _ \<Rightarrow> 0)"

definition slot_fits :: "(decode_limits \<Rightarrow> 'n \<Rightarrow> bool) \<Rightarrow> decode_limits \<Rightarrow> 'n slot \<Rightarrow> bool" where
  "slot_fits fits L s \<longleftrightarrow>
     (if slot_is_empty s then s = EMPTY_SLOT
      else vec_fits (component_fits fits) L (components_to_add s) \<and>
        vec_fits always_fits L (components_to_remove s))"

definition slot_elems :: "('n \<Rightarrow> nat) \<Rightarrow> 'n slot \<Rightarrow> nat" where
  "slot_elems elems s =
     vec_elems (nbt_cost elems) (components_to_add s) + length (components_to_remove s)"

definition slot_bytes :: "nat \<Rightarrow> ('n \<Rightarrow> nat) \<Rightarrow> 'n slot \<Rightarrow> nat" where
  "slot_bytes k bytes s =
     vec_bytes k (nbt_cost bytes) (components_to_add s) + 4 * length (components_to_remove s)"

definition slot_levels :: "('n \<Rightarrow> nat) \<Rightarrow> 'n slot \<Rightarrow> nat" where
  "slot_levels levels s = Suc (vec_levels (nbt_cost levels) (components_to_add s))"

lemma foldr_max_Suc: "foldr (\<lambda>x m. max (Suc (f x)) m) xs 0 \<le> Suc (foldr (\<lambda>x m. max (f x) m) xs 0)"
  by (induction xs) auto

lemma foldr_max_one: "foldr (\<lambda>x m. max (Suc 0) m) xs 0 \<le> Suc k"
  by (induction xs) auto

context codec begin

lemma component_delivers:
  assumes "component_fits fits L c"
  shows "delivers (decode_component decode_with) L (encode_component encode c) c
    (nbt_cost elems c) (nbt_cost bytes c) (Suc (nbt_cost levels c))"
proof -
  have v: "delivers (dec_map g decode_varint32) L (varint_bytes x) (g x) 0 0 1"
    for g :: "i32 \<Rightarrow> 'a data_component" and x
    by (rule delivers_map [OF delivers_varint32])
  have n: "delivers (dec_map CustomData (decode decode_with)) L (encode x) (CustomData x)
      (elems x) (bytes x) (Suc (levels x))" if "fits L x" for x
    using that by (rule delivers_map [OF delivers_field])
  show ?thesis
    unfolding decode_component_def encode_component_def encode_VarI32.simps
    by (rule delivers_eq [OF delivers_bind [OF delivers_varint32 [of _ "component_type_id c"],
          where bs' = "encode_body encode c" and w = c and e' = "nbt_cost elems c"
            and b' = "nbt_cost bytes c" and l' = "Suc (nbt_cost levels c)"]])
      (use assms v n in \<open>cases c; auto simp: decode_body_def component_fits_def nbt_cost_def\<close>)+
qed


lemma patch_delivers:
  assumes add: "vec_fits (component_fits fits) L (patch_add p)"
    and rm: "vec_fits always_fits L (patch_remove p)"
  shows "delivers (decode_patch k decode_with) L (encode_patch encode p) p
    (vec_elems (nbt_cost elems) (patch_add p) + length (patch_remove p))
    (vec_bytes k (nbt_cost bytes) (patch_add p) + 4 * length (patch_remove p))
    (Suc (vec_levels (nbt_cost levels) (patch_add p)))"
proof (rule delivers_room)
  let ?n = "length (patch_add p)" and ?m = "length (patch_remove p)"
  assume "vec_bytes k (nbt_cost bytes) (patch_add p) + 4 * ?m \<le> max_allocation_bytes L"
    and "max_allocation_bytes L < usize_limit"
  then have alloc: "?n * k + ?m * 4 \<le> max_allocation_bytes L" "?n * k + ?m * 4 < usize_limit"
    by (auto simp: vec_bytes_def)
  have mul: "checked_mul ?n k = Some (?n * k)" "checked_mul ?m 4 = Some (?m * 4)"
    "checked_add (?n * k) (?m * 4) = Some (?n * k + ?m * 4)"
    using alloc(2) by (auto simp: checked_mul_def checked_add_def)
  have n: "?n < 2 ^ 31" "?n \<le> max_collection_elements L"
    and m: "?m < 2 ^ 31" "?m \<le> max_collection_elements L"
    using add rm by (auto simp: vec_fits_def)
  have adds: "delivers (dec_repeat ?n (decode_component decode_with)) L
      (concat (map (encode_component encode) (patch_add p))) (patch_add p)
      (sum_list (map (nbt_cost elems) (patch_add p))) (sum_list (map (nbt_cost bytes) (patch_add p)))
      (foldr (\<lambda>x m. max (Suc (nbt_cost levels x)) m) (patch_add p) 0)"
    using add by (intro delivers_repeat component_delivers) (auto simp: vec_fits_def)
  have rms: "delivers (dec_repeat ?m decode_varint32) L (concat (map varint_bytes (patch_remove p)))
      (patch_remove p) (sum_list (map (\<lambda>_. 0) (patch_remove p)))
      (sum_list (map (\<lambda>_. 0) (patch_remove p))) (foldr (\<lambda>x m. max 1 m) (patch_remove p) 0)"
    by (intro delivers_repeat delivers_varint32)
  show "delivers (decode_patch k decode_with) L (encode_patch encode p) p
    (vec_elems (nbt_cost elems) (patch_add p) + ?m)
    (vec_bytes k (nbt_cost bytes) (patch_add p) + 4 * ?m)
    (Suc (vec_levels (nbt_cost levels) (patch_add p)))"
    unfolding decode_patch_def
    by (rule delivers_eq, rule delivers_bind, rule delivers_varint32 [of _ "word_of_nat ?n"],
        rule delivers_bind, rule delivers_varint32 [of _ "word_of_nat ?m"],
        rule delivers_get,
        rule delivers_bind, rule delivers_checked_len [OF n],
        rule delivers_bind, rule delivers_checked_len [OF m],
        rule delivers_bind, rule delivers_charge_elements [OF n(2)],
        rule delivers_bind, rule delivers_charge_elements [OF m(2)],
        rule delivers_bind, rule delivers_ok_or [OF mul(1)],
        rule delivers_bind, rule delivers_ok_or [OF mul(2)],
        rule delivers_bind, rule delivers_ok_or [OF mul(3)],
        rule delivers_bind, rule delivers_charge_allocation,
        rule delivers_bind, rule delivers_try_reserve, use alloc in simp,
        rule delivers_bind, rule adds,
        rule delivers_bind, rule delivers_try_reserve, use alloc in simp,
        rule delivers_bind, rule rms, rule delivers_ok)
      (use foldr_max_Suc [of "nbt_cost levels" "patch_add p"] foldr_max_one [of "patch_remove p"]
        in \<open>auto simp: encode_patch_def encode_parts_def vec_elems_def vec_bytes_def vec_levels_def\<close>)
qed

lemma slot_codec:
  "codec (decode_slot k decode_with) (encode_slot encode) (slot_fits fits)
     (slot_elems elems) (slot_bytes k bytes) (slot_levels levels)"
proof (rule codecI)
  show "keeps_budget (decode_slot k decode_with)" by (rule keeps_decode_slot [OF budget])
  fix L and s :: "'a slot"
  assume s: "slot_fits fits L s"
  show "delivers (decode_slot k decode_with) L (encode_slot encode s) s
    (slot_elems elems s) (slot_bytes k bytes s) (slot_levels levels s)"
  proof (cases "slot_is_empty s")
    case True
    have zero: "sint (0 :: i32) \<le> 0" by simp
    have "delivers (decode_slot k decode_with) L (encode_slot encode EMPTY_SLOT) EMPTY_SLOT 0 0 1"
      unfolding decode_slot_def
      by (rule delivers_eq, rule delivers_bind, rule delivers_varint32 [of _ 0],
          subst if_P [OF zero], rule delivers_ok)
        (simp_all add: encode_slot_def EMPTY_SLOT_def)
    then show ?thesis using True s
      by (auto simp: slot_fits_def slot_elems_def slot_bytes_def vec_elems_def vec_bytes_def
          slot_levels_def EMPTY_SLOT_def intro: delivers_eq)
  next
    case False
    let ?p = "\<lparr>patch_add = components_to_add s, patch_remove = components_to_remove s\<rparr>"
    have pos: "\<not> sint (slot_count s) \<le> 0" using False by (simp add: slot_is_empty_def)
    have p: "delivers (decode_patch k decode_with) L (encode_patch encode ?p) ?p
      (slot_elems elems s) (slot_bytes k bytes s) (slot_levels levels s)"
      using patch_delivers [of L ?p k] False s
      by (simp add: slot_fits_def slot_elems_def slot_bytes_def slot_levels_def)
    show ?thesis
      unfolding decode_slot_def
      by (rule delivers_eq, rule delivers_bind, rule delivers_varint32 [of _ "slot_count s"],
          subst if_not_P [OF pos], rule delivers_bind, rule delivers_varint32 [of _ "slot_item_id s"],
          rule delivers_bind, rule p, rule delivers_ok)
        (use pos in \<open>auto simp: encode_slot_def encode_patch_def slot_levels_def\<close>)
  qed
qed

end

section \<open>Clicks survive the wire\<close>

definition item_fits :: "decode_limits \<Rightarrow> hashed_item \<Rightarrow> bool" where
  "item_fits L h \<longleftrightarrow> vec_fits always_fits L (added h) \<and> vec_fits always_fits L (removed h)"

definition item_elems :: "hashed_item \<Rightarrow> nat" where
  "item_elems h = length (added h) + length (removed h)"

definition item_bytes :: "hashed_item \<Rightarrow> nat" where
  "item_bytes h = length (added h) * 8 + length (removed h) * 4"

lemma vec_levels_const: "(\<And>x. lv x \<le> c) \<Longrightarrow> vec_levels lv xs \<le> Suc c"
  by (induction xs) (auto simp: vec_levels_def)

lemma vec_cost_zero [simp]:
  "vec_elems no_cost xs = length xs" "vec_bytes k no_cost xs = length xs * k"
  by (simp_all add: vec_elems_def vec_bytes_def)

lemma input_from_id_id [simp]: "input_from_id (input_id c) = c"
  by (cases c) (simp_all add: input_from_id_def)

interpretation input: codec decode_input encode_input always_fits no_cost no_cost "\<lambda>_. 1"
proof (rule codecI)
  show "keeps_budget decode_input" by (auto simp: decode_input_def intro!: codec_safe)
  show "delivers decode_input L (encode_input v) v 0 0 1" for L v
    unfolding decode_input_def
    by (rule delivers_eq, rule delivers_bind, rule delivers_varint32 [of _ "input_id v"],
        rule delivers_ok)
      (simp_all add: encode_input_def)
qed

interpretation hashed_component:
  codec decode_hashed_component encode_hashed_component always_fits no_cost no_cost "\<lambda>_. 1"
proof (rule codecI)
  show "keeps_budget decode_hashed_component"
    by (auto simp: decode_hashed_component_def intro!: codec_safe i32.budget)
  show "delivers decode_hashed_component L (encode_hashed_component v) v 0 0 1" for L v
    unfolding decode_hashed_component_def
    by (rule delivers_eq, rule delivers_bind, rule delivers_varint32 [of _ "hashed_type_id v"],
        rule delivers_bind, rule i32.delivers_field [of _ "hash v"], simp, rule delivers_ok)
      (simp_all add: encode_hashed_component_def)
qed

interpretation hashed_item:
  codec decode_hashed_item encode_hashed_item item_fits item_elems item_bytes "\<lambda>_. 3"
proof (rule codecI)
  show "keeps_budget decode_hashed_item" by (rule keeps_decode_hashed_item)
  fix L v assume v: "item_fits L v"
  have parts: "vec_fits always_fits L (added v)" "vec_fits always_fits L (removed v)"
    using v by (auto simp: item_fits_def)
  show "delivers decode_hashed_item L (encode_hashed_item v) v (item_elems v) (item_bytes v) 3"
    unfolding decode_hashed_item_def
    by (rule delivers_eq, rule delivers_bind, rule delivers_varint32 [of _ "hashed_item_id v"],
        rule delivers_bind, rule delivers_varint32 [of _ "hashed_count v"],
        rule delivers_bind, rule codec.delivers_field [OF hashed_component.vec_codec parts(1)],
        rule delivers_bind, rule codec.delivers_field [OF varint32.vec_codec parts(2)],
        rule delivers_ok)
      (use vec_levels_const [of "\<lambda>_. 1" 1 "added v"] vec_levels_const [of no_cost 0 "removed v"]
        in \<open>simp_all add: encode_hashed_item_def item_elems_def item_bytes_def\<close>)
qed

definition stack_elems :: "hashed_stack \<Rightarrow> nat" where
  "stack_elems = case_option 0 item_elems"

definition stack_bytes :: "hashed_stack \<Rightarrow> nat" where
  "stack_bytes = case_option 0 item_bytes"

lemma stack_codec:
  "codec (decode_option decode_hashed_item) (encode_option encode_hashed_item)
     (\<lambda>L. pred_option (item_fits L)) stack_elems stack_bytes (case_option 1 (\<lambda>x. Suc 3))"
  using hashed_item.option_codec by (simp add: stack_elems_def stack_bytes_def)

lemma stack_delivers:
  assumes "pred_option (item_fits L) v"
  shows "delivers (decode (decode_option decode_hashed_item)) L (encode_option encode_hashed_item v) v
    (stack_elems v) (stack_bytes v) 5"
  by (rule delivers_eq [OF codec.delivers_field [OF stack_codec assms]]) (auto split: option.splits)

definition changed_fits :: "decode_limits \<Rightarrow> changed_slot \<Rightarrow> bool" where
  "changed_fits L c \<longleftrightarrow> pred_option (item_fits L) (changed_item c)"

interpretation changed_slot: codec decode_changed_slot encode_changed_slot changed_fits
    "\<lambda>c. stack_elems (changed_item c)" "\<lambda>c. stack_bytes (changed_item c)" "\<lambda>_. 5"
proof (rule codecI)
  show "keeps_budget decode_changed_slot"
    by (auto simp: decode_changed_slot_def intro!: codec_safe keeps_decode_hashed_item i16.budget)
  fix L v assume v: "changed_fits L v"
  then have item: "pred_option (item_fits L) (changed_item v)" by (simp add: changed_fits_def)
  show "delivers decode_changed_slot L (encode_changed_slot v) v (stack_elems (changed_item v))
      (stack_bytes (changed_item v)) 5"
    unfolding decode_changed_slot_def
    by (rule delivers_eq, rule delivers_bind, rule i16.delivers_field [of _ "changed_index v"], simp,
        rule delivers_bind, rule stack_delivers [OF item], rule delivers_ok)
      (simp_all add: encode_changed_slot_def)
qed

definition click_fits :: "decode_limits \<Rightarrow> click_container \<Rightarrow> bool" where
  "click_fits L c \<longleftrightarrow>
     length (changed_slots c) \<le> MAX_CHANGED_SLOTS \<and> vec_fits changed_fits L (changed_slots c) \<and>
     pred_option (item_fits L) (click_carried c)"

definition click_elems :: "click_container \<Rightarrow> nat" where
  "click_elems c =
     vec_elems (\<lambda>c. stack_elems (changed_item c)) (changed_slots c) + stack_elems (click_carried c)"

definition click_bytes :: "nat \<Rightarrow> click_container \<Rightarrow> nat" where
  "click_bytes k c =
     vec_bytes k (\<lambda>c. stack_bytes (changed_item c)) (changed_slots c) + stack_bytes (click_carried c)"

interpretation click: codec "decode_click k" encode_click click_fits click_elems "click_bytes k"
    "\<lambda>_. 7" for k
proof (rule codecI)
  show "keeps_budget (decode_click k)" by (rule keeps_decode_click)
  fix L v assume v: "click_fits L v"
  then have changed: "vec_fits changed_fits L (changed_slots v)"
    and few: "\<not> MAX_CHANGED_SLOTS < length (changed_slots v)"
    and carried: "pred_option (item_fits L) (click_carried v)"
    by (auto simp: click_fits_def)
  show "delivers (decode_click k) L (encode_click v) v (click_elems v) (click_bytes k v) 7"
    unfolding decode_click_def
    by (rule delivers_eq, rule delivers_bind, rule delivers_varint32 [of _ "click_container_id v"],
        rule delivers_bind, rule delivers_varint32 [of _ "click_state_id v"],
        rule delivers_bind, rule i16.delivers_field [of _ "click_slot v"], simp,
        rule delivers_bind, rule i8.delivers_field [of _ "click_button v"], simp,
        rule delivers_bind, rule input.delivers_field [of _ "click_input v"], simp,
        rule delivers_bind, rule codec.delivers_field [OF changed_slot.vec_codec changed],
        subst if_not_P [OF few],
        rule delivers_bind, rule stack_delivers [OF carried], rule delivers_ok)
      (use vec_levels_const [of "\<lambda>_. 5" 5 "changed_slots v"]
        in \<open>simp_all add: encode_click_def click_elems_def click_bytes_def\<close>)
qed

section \<open>Properties\<close>

text \<open>C33: a slot the server writes is read back as it was, all its bytes used: count, item, the typed
  components and the ids of removed ones, an empty slot as its single byte; as long as it is within the
  limits on elements and memory, its NBT values are well-formed within the NBT limits and read back by the
  library, and it has no component of a type the decoder does not know.\<close>

theorem slot_roundtrip:
  assumes "slot_fits (nbt_fits nbt_write nbt_read cost) L s"
    and "fresh_room L (slot_elems (\<lambda>n. fst (cost n)) s) (slot_bytes k (\<lambda>n. snd (cost n)) s)
      (Suc (slot_levels (\<lambda>_. 0) s))"
  shows "fst (decode_exact (decode_slot k (decode_nbt_with nbt_read))
    (new_decoder (\<lambda>_. True) (encode_slot (encode_nbt nbt_write) s) L)) = Inr s"
proof -
  let ?d = "new_decoder (\<lambda>_. True) (encode_slot (encode_nbt nbt_write) s) L"
  let ?e = "slot_elems (\<lambda>n. fst (cost n)) s" and ?b = "slot_bytes k (\<lambda>n. snd (cost n)) s"
  have "decode_exact (decode_slot k (decode_nbt_with nbt_read)) ?d = (Inr s, charged ?d ?e ?b [])"
    using assms(1) room_fresh [OF assms(2)]
    by (intro codec.decode_exact_roundtrip [OF codec.slot_codec [OF nbt_codec]]) (auto simp: new_decoder_def)
  then show ?thesis by simp
qed

text \<open>A slot with a custom-data component, the compound of \<open>Nbt_Wire.sample_fits\<close>.\<close>

lemma slot_roundtrip_witness:
  "let s = \<lparr>slot_count = 2, slot_item_id = 700,
        components_to_add = [MaxStackSize 16, CustomData sample_entries, Damage 3],
        components_to_remove = [19]\<rparr>
   in fst (decode_exact (decode_slot 32 (decode_nbt_with (\<lambda>bs. Some (drop 3 bs))))
        (new_decoder (\<lambda>_. True) (encode_slot (encode_nbt (\<lambda>v. Some ([0x0A, 0, 0] @ v))) s) default_limits)) = Inr s"
  unfolding Let_def
  by (rule slot_roundtrip [where cost = "\<lambda>_. (1, 65)"])
    (use sample_fits in \<open>simp_all add: slot_fits_def slot_is_empty_def vec_fits_def component_fits_def
      fresh_room_def slot_elems_def slot_bytes_def slot_levels_def nbt_cost_def vec_elems_def
      vec_bytes_def vec_levels_def\<close>)

lemma dec_repeat_all:
  assumes "dec_repeat n m d = (Inr xs, d')" and "\<And>d x d'. m d = (Inr x, d') \<Longrightarrow> P x"
  shows "length xs = n \<and> (\<forall>x \<in> set xs. P x)"
  using assms(1)
proof (induction n arbitrary: d xs d')
  case 0
  then show ?case by (simp add: dec_ok_def)
next
  case (Suc n)
  obtain x d1 ys where "m d = (Inr x, d1)" and "dec_repeat n m d1 = (Inr ys, d')" and "xs = x # ys"
    using Suc.prems
    by (auto simp: dec_bind_def dec_ok_def split: prod.splits sum.splits)
  with Suc.IH [of d1 ys d'] assms(2) show ?case by auto
qed

definition modelled :: "'n data_component \<Rightarrow> bool" where
  "modelled c \<longleftrightarrow> (case c of Raw _ _ \<Rightarrow> False | _ \<Rightarrow> True)"

lemma decode_component_parsed:
  "decode_component dec_nbt d = (Inr c, d') \<Longrightarrow> modelled c"
  by (auto simp: modelled_def decode_component_def decode_body_def dec_bind_def dec_map_def dec_err_def dec_ok_def
      split: prod.splits sum.splits if_splits)

lemma dec_bind_Inr:
  assumes "dec_bind m f d = (Inr x, d')"
  obtains v d1 where "m d = (Inr v, d1)" and "f v d1 = (Inr x, d')"
  using assms by (auto simp: dec_bind_def split: prod.splits sum.splits)

lemma decode_patch_parsed:
  assumes "decode_patch k dec_nbt d = (Inr p, d')"
  shows "\<forall>c \<in> set (patch_add p). modelled c"
  using assms unfolding decode_patch_def
  by (elim dec_bind_Inr)
    (auto simp: dec_ok_def dest!: dec_repeat_all [where P = modelled]
      decode_component_parsed)

text \<open>Whatever bytes arrive, a slot that decodes is in canonical form: an empty one is
  \<open>EMPTY\<close>, and no component is left unparsed.\<close>

theorem decode_slot_canonical:
  assumes "decode_slot k dec_nbt d = (Inr s, d')"
  shows "(slot_is_empty s \<longrightarrow> s = EMPTY_SLOT) \<and> (\<forall>c \<in> set (components_to_add s). modelled c)"
proof -
  obtain count d1 where "(if sint count \<le> 0 then dec_ok EMPTY_SLOT
      else dec_bind decode_varint32 (\<lambda>item. dec_bind (decode_patch k dec_nbt) (\<lambda>patch.
        dec_ok \<lparr>slot_count = count, slot_item_id = item, components_to_add = patch_add patch,
          components_to_remove = patch_remove patch\<rparr>))) d1 = (Inr s, d')" (is "?rest d1 = _")
    using assms unfolding decode_slot_def by (elim dec_bind_Inr) blast
  then show ?thesis
    by (auto simp: dec_ok_def EMPTY_SLOT_def slot_is_empty_def split: if_splits elim!: dec_bind_Inr
        dest!: decode_patch_parsed)
qed

lemma decode_slot_canonical_witness:
  "let s = \<lparr>slot_count = 2, slot_item_id = 700,
        components_to_add = [MaxStackSize 16, CustomData [104, 105], Damage 3], components_to_remove = [19]\<rparr>
   in case fst (decode_slot 32 decode_string (new_decoder (\<lambda>_. True) (encode_slot encode_string s) default_limits)) of
        Inr s' \<Rightarrow> list_all modelled (components_to_add s')
      | Inl _ \<Rightarrow> False"
proof -
  let ?s = "\<lparr>slot_count = 2, slot_item_id = 700,
      components_to_add = [MaxStackSize 16, CustomData [104, 105], Damage 3], components_to_remove = [19]\<rparr> :: u8 list slot"
  let ?d = "new_decoder (\<lambda>_. True) (encode_slot encode_string ?s) default_limits"
  have run: "decode_slot 32 decode_string ?d =
    (Inr ?s, charged ?d (slot_elems no_cost ?s) (slot_bytes 32 length ?s) [])"
    by (rule codec.roundtrip [OF codec.slot_codec [OF string_codec, of 32], of ?d ?s "[]"])
      (simp_all add: slot_fits_def slot_is_empty_def vec_fits_def component_fits_def string_fits_def room_fresh
        fresh_room_def new_decoder_def slot_elems_def slot_bytes_def slot_levels_def nbt_cost_def vec_elems_def
        vec_bytes_def vec_levels_def room_def)
  from decode_slot_canonical [OF run] show ?thesis
    unfolding Let_def run by (simp add: list_all_iff)
qed

text \<open>C34: a click the client sends is read as it was, and a click that decodes never carries more
  than 128 changed slots.\<close>

theorem click_wire:
  fixes d :: decoder
  shows "(click_fits L c \<longrightarrow> fresh_room L (click_elems c) (click_bytes k c) 8 \<longrightarrow>
      fst (decode_exact (decode_click k) (new_decoder (\<lambda>_. True) (encode_click c) L)) = Inr c) \<and>
    (decode_click k d = (Inr c, d') \<longrightarrow> length (changed_slots c) \<le> MAX_CHANGED_SLOTS)"
proof (intro conjI impI)
  assume fits: "click_fits L c" and room: "fresh_room L (click_elems c) (click_bytes k c) 8"
  let ?d = "new_decoder (\<lambda>_. True) (encode_click c) L"
  have "decode_exact (decode_click k) ?d = (Inr c, charged ?d (click_elems c) (click_bytes k c) [])"
    by (rule click.decode_exact_roundtrip) (use fits room_fresh [OF room] in \<open>auto simp: new_decoder_def\<close>)
  then show "fst (decode_exact (decode_click k) ?d) = Inr c" by simp
next
  assume "decode_click k d = (Inr c, d')"
  then show "length (changed_slots c) \<le> MAX_CHANGED_SLOTS"
    unfolding decode_click_def
    by (elim dec_bind_Inr) (auto simp: dec_err_def dec_ok_def split: if_splits elim!: dec_bind_Inr)
qed

lemma click_wire_witness:
  "let c = \<lparr>click_container_id = 1, click_state_id = 7, click_slot = 36, click_button = 0,
        click_input = Swap, changed_slots = [\<lparr>changed_index = 36, changed_item = None\<rparr>],
        click_carried = Some \<lparr>hashed_item_id = 5, hashed_count = 64, added = [], removed = []\<rparr>\<rparr>
   in fst (decode_exact (decode_click 48) (new_decoder (\<lambda>_. True) (encode_click c) default_limits)) = Inr c"
  unfolding Let_def
  by (rule click_wire [THEN conjunct1, rule_format])
    (simp_all add: click_fits_def changed_fits_def item_fits_def vec_fits_def fresh_room_def
      click_elems_def click_bytes_def stack_elems_def stack_bytes_def item_elems_def item_bytes_def
      vec_elems_def vec_bytes_def)

end
