(* ===== verification/Codec_Properties.thy ===== *)
theory Codec_Properties
  imports Slots
begin

text \<open>
  What the codec promises for whole values: the round trips of its building blocks under the
  default limits, and the budget every packet is decoded under.
\<close>

section \<open>Integers of variable length\<close>

text \<open>A VarInt or VarLong of any value, negative ones included, takes one to five or one to
  ten bytes, reads back as it was, and the bytes behind it stay.\<close>

theorem varint_roundtrip:
  "decode_buf mem decode_VarI32 (encode_VarI32 v @ rest) = Inr (v, rest) \<and>
   decode_buf mem decode_VarI64 (encode_VarI64 w @ rest) = Inr (w, rest) \<and>
   1 \<le> length (encode_VarI32 v) \<and> length (encode_VarI32 v) \<le> 5 \<and>
   1 \<le> length (encode_VarI64 w) \<and> length (encode_VarI64 w) \<le> 10"
proof -
  have "decode_buf mem decode_VarI32 (encode_VarI32 v @ rest) = Inr (v, rest)"
    using varint32_append [of "new_decoder mem (encode_VarI32 v @ rest) default_limits" _ rest]
    by (cases v) (simp add: decode_buf_def decode_VarI32_def decode_byte_simps new_decoder_def)
  moreover have "decode_buf mem decode_VarI64 (encode_VarI64 w @ rest) = Inr (w, rest)"
    using varint64_append [of "new_decoder mem (encode_VarI64 w @ rest) default_limits" _ rest]
    by (cases w) (simp add: decode_buf_def decode_VarI64_def decode_byte_simps new_decoder_def)
  moreover have "1 \<le> length (varint_bytes x)" for x :: u32 by (simp add: Suc_le_eq)
  moreover have "1 \<le> length (varint_bytes x)" for x :: u64 by (simp add: Suc_le_eq)
  ultimately show ?thesis
    by (cases v; cases w) (simp add: length_varint32 length_varint64)
qed

section \<open>Strings and vectors\<close>

lemma decode_buf_codec:
  assumes "decode_with (new_decoder (\<lambda>_. True) buf default_limits) = (Inr v, charged d e b rest)"
  shows "decode_buf (\<lambda>_. True) decode_with buf = Inr (v, rest)"
  using assms by (simp add: decode_buf_def)

text \<open>A string of valid UTF-8 is read back as it was up to 32 KiB, and one that announces more
  is refused with the limit before any of it is copied.\<close>

theorem string_roundtrip:
  assumes "utf8_valid s" and "length s < 2 ^ 31"
  shows "decode_buf (\<lambda>_. True) decode_string (encode_string s @ rest) =
    (if length s \<le> 32768 then Inr (s, rest) else Inl (LimitExceeded StringBytes (length s) 32768))"
proof (cases "length s \<le> 32768")
  case True
  let ?d = "new_decoder (\<lambda>_. True) (encode_string s @ rest) default_limits"
  have "room ?d 0 (length s) 1"
    using True by (intro room_fresh) (simp add: fresh_room_def)
  then have "decode_string ?d = (Inr s, charged ?d 0 (length s) rest)"
    using assms True by (intro string.roundtrip) (simp_all add: string_fits_def new_decoder_def)
  then show ?thesis using True by (simp add: decode_buf_codec)
next
  case False
  let ?d = "new_decoder (\<lambda>_. True) (encode_string s @ rest) default_limits"
  have "room ?d 0 0 1" by (intro room_fresh) (simp add: fresh_room_def)
  then have "decode decode_VarI32 ?d = (Inr (VarI32 (word_of_nat (length s))), charged ?d 0 0 (s @ rest))"
    using assms by (intro decode_len_append) (simp_all add: encode_string_def new_decoder_def)
  moreover have "sint (word_of_nat (length s) :: i32) = int (length s)"
    using assms(2) by (rule nat_sint_word_of_nat)
  ultimately show ?thesis
    using False
    by (simp add: decode_buf_def decode_string_def dec_bind_def dec_get_def checked_len_def dec_err_def
        new_decoder_def)
qed

lemma string_roundtrip_witness:
  "decode_buf (\<lambda>_. True) decode_string (encode_string [0x68, 0x69] @ [7]) = Inr ([0x68, 0x69], [7])"
  using string_roundtrip [of "[0x68, 0x69]" "[7]"] by simp

text \<open>C35: whatever bytes a client sends as a click, under whatever limits, decoding charges no more
  elements and no more memory than the limits allow, restores the nesting depth, and returns a packet
  only if every byte belongs to it.\<close>

theorem packets_decode_in_budget:
  "case decode_exact (decode_click k) (new_decoder mem bytes lims) of (r, d') \<Rightarrow>
     total_elements d' \<le> max_total_elements lims \<and> allocated_bytes d' \<le> max_allocation_bytes lims \<and>
     depth d' = 0 \<and> suffix (remaining d') bytes \<and>
     (case r of Inl _ \<Rightarrow> True | Inr _ \<Rightarrow> remaining d' = [])"
proof -
  obtain r d' where run: "decode_exact (decode_click k) (new_decoder mem bytes lims) = (r, d')" by fastforce
  have "follows (new_decoder mem bytes lims) d'"
    by (rule keeps_budgetD [OF keeps_decode_exact [OF keeps_decode_click] run])
  moreover have "remaining d' = []" if "r = Inr p" for p
    using click.decode_exact_all run that by blast
  ultimately show ?thesis
    unfolding run by (cases r) (simp_all add: follows_def new_decoder_def)
qed

end
