(* ===== verification/Frames.thy ===== *)
theory Frames
  imports Codec_Containers
begin

text \<open>
  The length-prefixed framing of \<open>void-net/src/socket.rs\<close>. The TCP stream is the environment:
  \<open>tcp\<close> is what its reads will deliver, cut into segments in an arbitrary way, an I/O error
  where one occurs, and the end of the list is the peer's close. The lemmas show that framing
  does not depend on the segmentation and that what one side sends the other receives.
\<close>

section \<open>Limits and errors\<close>

record frame_limits =
  max_inbound_frame_bytes :: nat
  max_outbound_frame_bytes :: nat
  decode_lims :: decode_limits

definition default_frame_limits :: frame_limits where
  "default_frame_limits = \<lparr>
     max_inbound_frame_bytes = 2 * 1024 * 1024,
     max_outbound_frame_bytes = 8 * 1024 * 1024,
     decode_lims = default_limits\<rparr>"

datatype frame_error =
    InvalidLengthVarInt
  | TruncatedLengthPrefix nat
  | NegativeLength i32
  | EmptyFrame
  | FrameTooLarge nat nat
  | FrameAllocationFailed nat
  | OutboundLengthOverflow nat
  | TruncatedFrame nat nat

definition frame_error_message :: "frame_error \<Rightarrow> string" where
  "frame_error_message e =
     (case e of
        InvalidLengthVarInt \<Rightarrow> ''invalid frame length VarInt''
      | TruncatedLengthPrefix n \<Rightarrow>
          ''connection closed after '' @ show_nat n @ '' frame length bytes''
      | NegativeLength v \<Rightarrow> ''negative frame length '' @ show_int (sint v)
      | EmptyFrame \<Rightarrow> ''empty packet frame''
      | FrameTooLarge requested limit \<Rightarrow>
          ''frame length '' @ show_nat requested @ '' exceeds limit '' @ show_nat limit
      | FrameAllocationFailed requested \<Rightarrow>
          ''failed to allocate '' @ show_nat requested @ '' bytes for packet frame''
      | OutboundLengthOverflow requested \<Rightarrow>
          ''outbound frame length '' @ show_nat requested @ '' does not fit in a VarInt''
      | TruncatedFrame expected received \<Rightarrow>
          ''connection closed after '' @ show_nat received @ '' of '' @ show_nat expected
            @ '' frame bytes'')"

text \<open>The I/O errors of the standard library are the parameter \<open>'io\<close>.\<close>

datatype 'io socket_error = PeerClosed | Io 'io | Frame frame_error | Decode decode_error

section \<open>The stream\<close>

datatype 'io segment = Data "u8 list" | Fail 'io

type_synonym 'io tcp = "'io segment list"

text \<open>
  \<open>stream.read(buf)\<close> for a non-empty buffer of \<open>n\<close> bytes: at least one byte of the next
  segment, none when the peer has closed.
\<close>

fun tcp_read :: "nat \<Rightarrow> 'io tcp \<Rightarrow> ('io + u8 list) \<times> 'io tcp" where
  "tcp_read n [] = (Inr [], [])"
| "tcp_read n (Fail e # s) = (Inl e, s)"
| "tcp_read n (Data bs # s) =
     (if bs = [] then tcp_read n s
      else (Inr (take n bs), (if length bs \<le> n then s else Data (drop n bs) # s)))"

section \<open>Packets and the reader\<close>

record packet =
  packet_bytes :: "u8 list"
  packet_limits :: decode_limits

definition packet_decode :: "(nat \<Rightarrow> bool) \<Rightarrow> 'a dec \<Rightarrow> packet \<Rightarrow> decode_error + 'a" where
  "packet_decode mem decode_with p =
     fst (decode_exact decode_with (new_decoder mem (packet_bytes p) (packet_limits p)))"

text \<open>
  The loop that collects the length prefix. \<open>len_buf\<close> holds the \<open>bytes_read\<close> bytes read so far;
  each turn either ends or adds one, and the fifth byte without an end is an error, so \<open>n\<close> turns
  are left, five at the start.
\<close>

fun receive_prefix :: "nat \<Rightarrow> u8 list \<Rightarrow> 'io tcp \<Rightarrow> ('io socket_error + u8 list) \<times> 'io tcp" where
  "receive_prefix 0 len_buf s = (Inl (Frame InvalidLengthVarInt), s)"
| "receive_prefix (Suc n) len_buf s =
     (case tcp_read 1 s of
        (Inl e, s') \<Rightarrow> (Inl (Io e), s')
      | (Inr [], s') \<Rightarrow>
          (Inl (if length len_buf = 0 then PeerClosed
                else Frame (TruncatedLengthPrefix (length len_buf))), s')
      | (Inr (byte # _), s') \<Rightarrow>
          if byte AND 0x80 = 0 then (Inr (len_buf @ [byte]), s')
          else receive_prefix n (len_buf @ [byte]) s')"

lemma tcp_read_shrinks:
  "tcp_read n s = (Inr bs, s') \<Longrightarrow> 0 < n \<Longrightarrow> bs \<noteq> [] \<Longrightarrow>
   sum_list (map (case_segment length (\<lambda>_. 0)) s') < sum_list (map (case_segment length (\<lambda>_. 0)) s)"
  by (induction n s rule: tcp_read.induct) (auto split: if_splits)

lemma tcp_read_length: "tcp_read n s = (Inr bs, s') \<Longrightarrow> length bs \<le> n"
  by (induction n s rule: tcp_read.induct) (auto split: if_splits)

text \<open>
  The loop that fills the packet buffer, with \<open>received\<close> holding the bytes so far. It stops
  because every turn takes bytes off the stream.
\<close>

function (sequential) receive_body ::
  "nat \<Rightarrow> u8 list \<Rightarrow> 'io tcp \<Rightarrow> ('io socket_error + u8 list) \<times> 'io tcp" where
  "receive_body len received s =
     (if length received < len then
        (case tcp_read (len - length received) s of
           (Inl e, s') \<Rightarrow> (Inl (Io e), s')
         | (Inr bs, s') \<Rightarrow>
             if bs = [] then (Inl (Frame (TruncatedFrame len (length received))), s')
             else receive_body len (received @ bs) s')
      else (Inr received, s))"
  by pat_completeness auto
termination
  by (relation "measure (\<lambda>(len, received, s). sum_list (map (case_segment length (\<lambda>_. 0)) s))")
    (auto dest!: sym [of "(_, _)"] intro: tcp_read_shrinks)

declare receive_body.simps [simp del]

definition receive ::
  "(nat \<Rightarrow> bool) \<Rightarrow> frame_limits \<Rightarrow> 'io tcp \<Rightarrow> ('io socket_error + packet) \<times> 'io tcp" where
  "receive mem lims s =
     (case receive_prefix 5 [] s of
        (Inl e, s') \<Rightarrow> (Inl e, s')
      | (Inr prefix_bytes, s') \<Rightarrow>
          (case decode_buf mem decode_VarI32 prefix_bytes of
             Inl _ \<Rightarrow> (Inl (Frame InvalidLengthVarInt), s')
           | Inr (VarI32 signed_len, _) \<Rightarrow>
               if sint signed_len < 0 then (Inl (Frame (NegativeLength signed_len)), s')
               else if signed_len = 0 then (Inl (Frame EmptyFrame), s')
               else
                 (let len = nat (sint signed_len) in
                  if max_inbound_frame_bytes lims < len then
                    (Inl (Frame (FrameTooLarge len (max_inbound_frame_bytes lims))), s')
                  else if \<not> mem len then (Inl (Frame (FrameAllocationFailed len)), s')
                  else
                    (case receive_body len [] s' of
                       (Inl e, s'') \<Rightarrow> (Inl e, s'')
                     | (Inr bytes, s'') \<Rightarrow>
                         (Inr \<lparr>packet_bytes = bytes, packet_limits = decode_lims lims\<rparr>, s'')))))"

section \<open>The writer\<close>

abbreviation FRAME_HEADER_BYTES :: nat where
  "FRAME_HEADER_BYTES \<equiv> 5"

abbreviation FRAME_BUFFER_RETAINED_DIVISOR :: nat where
  "FRAME_BUFFER_RETAINED_DIVISOR \<equiv> 8"

text \<open>
  \<open>wire\<close> is what the buffered TCP stream has accepted. \<open>broken\<close> says that its next write fails:
  with which error, and after how many bytes.
\<close>

record 'io client_writer =
  wire :: "u8 list"
  broken :: "('io \<times> nat) option"
  writer_limits :: frame_limits
  frame :: "u8 list"
  retained_bytes :: nat

definition new_writer :: "frame_limits \<Rightarrow> 'io client_writer" where
  "new_writer lims = \<lparr>wire = [], broken = None, writer_limits = lims, frame = [],
     retained_bytes = max_outbound_frame_bytes lims div FRAME_BUFFER_RETAINED_DIVISOR\<rparr>"

text \<open>The header loop: bytes of \<open>value\<close> into the array from index \<open>written\<close> on.\<close>

function header_loop :: "u8 list \<Rightarrow> u32 \<Rightarrow> nat \<Rightarrow> u8 list \<times> nat" where
  "header_loop header value written =
     (let byte = ucast (value AND 0x7F) :: u8; value' = drop_bit 7 value;
          byte' = (if value' \<noteq> 0 then byte OR 0x80 else byte);
          header' = header[written := byte']; written' = written + 1 in
      if value' = 0 then (header', written') else header_loop header' value' written')"
  by pat_completeness auto
termination
  by (relation "measure (\<lambda>(_, value, _). unat value)") (auto intro: drop_bit_less)

declare header_loop.simps [simp del]

text \<open>\<open>self.frame[start..end].copy_from_slice(src)\<close>, for a source of that length.\<close>

definition copy_into :: "'a list \<Rightarrow> nat \<Rightarrow> 'a list \<Rightarrow> 'a list" where
  "copy_into xs start src = take start xs @ src @ drop (start + length src) xs"

definition write_frame ::
  "nat \<Rightarrow> 'io client_writer \<Rightarrow> ('io socket_error + unit) \<times> 'io client_writer" where
  "write_frame body_len w =
     (if max_outbound_frame_bytes (writer_limits w) < body_len then
        (Inl (Frame (FrameTooLarge body_len (max_outbound_frame_bytes (writer_limits w)))), w)
      else if 2 ^ 31 \<le> body_len then (Inl (Frame (OutboundLengthOverflow body_len)), w)
      else
        (let (header, written) = header_loop (replicate FRAME_HEADER_BYTES 0) (word_of_nat body_len) 0;
             start = FRAME_HEADER_BYTES - written;
             frame' = copy_into (frame w) start (take written header);
             w' = w\<lparr>frame := frame'\<rparr> in
         case broken w of
           Some (e, n) \<Rightarrow> (Inl (Io e), w'\<lparr>wire := wire w @ take n (drop start frame')\<rparr>)
         | None \<Rightarrow> (Inr (), w'\<lparr>wire := wire w @ drop start frame'\<rparr>)))"

text \<open>
  \<open>capacity\<close> is the capacity the allocator gave the frame buffer; a buffer above the retained
  size is given back.
\<close>

definition send ::
  "(u8 list \<Rightarrow> nat) \<Rightarrow> ('a \<Rightarrow> u8 list) \<Rightarrow> 'a \<Rightarrow> 'io client_writer \<Rightarrow>
   ('io socket_error + unit) \<times> 'io client_writer" where
  "send capacity encode packet w =
     (let frame0 = replicate FRAME_HEADER_BYTES 0 @ encode packet;
          body_len = length frame0 - FRAME_HEADER_BYTES;
          (result, w') = write_frame body_len (w\<lparr>frame := frame0\<rparr>) in
      (result, if retained_bytes w' < capacity (frame w') then w'\<lparr>frame := []\<rparr> else w'))"

section \<open>The prefix written is the VarInt of the length\<close>

lemma list_update_append_here: "length xs = k \<Longrightarrow> (xs @ y # ys)[k := z] = xs @ z # ys"
  by auto

lemma header_loop_bytes:
  assumes "length pre = written" and "length (varint_bytes v) \<le> length todo"
  shows "header_loop (pre @ todo) v written =
    (pre @ varint_bytes v @ drop (length (varint_bytes v)) todo,
     written + length (varint_bytes v))"
  using assms
proof (induction "pre @ todo" v written arbitrary: pre todo rule: header_loop.induct)
  case (1 v written)
  obtain t ts where todo: "todo = t # ts"
    using 1(3) by (cases todo) auto
  show ?case
  proof (cases "drop_bit 7 v = 0")
    case True
    then show ?thesis
      using 1(2) todo
      by (simp add: header_loop.simps [of _ v] varint_bytes.simps [of v]
          list_update_append_here)
  next
    case False
    let ?b = "ucast (v AND 0x7F) OR 0x80 :: u8"
    have "header_loop ((pre @ [?b]) @ ts) (drop_bit 7 v) (written + 1) =
      ((pre @ [?b]) @ varint_bytes (drop_bit 7 v) @
         drop (length (varint_bytes (drop_bit 7 v))) ts,
       written + 1 + length (varint_bytes (drop_bit 7 v)))"
      using 1(2,3) todo False
      by (intro 1(1)) (auto simp: varint_bytes.simps [of v] list_update_append_here Let_def)
    then show ?thesis
      using 1(2) todo False
      by (simp add: header_loop.simps [of _ v] varint_bytes.simps [of v] Let_def
          list_update_append_here)
  qed
qed

lemma header_loop_array:
  "header_loop (replicate 5 0) v 0 =
   (varint_bytes v @ replicate (5 - length (varint_bytes v)) 0, length (varint_bytes v))"
  using header_loop_bytes [of "[]" 0 v "replicate 5 0"] length_varint32 [of v]
  by simp

lemma write_frame_ok:
  assumes "length body \<le> max_outbound_frame_bytes (writer_limits w)" and "length body < 2 ^ 31"
    and "broken w = None" and "frame w = replicate 5 0 @ body"
  shows "\<exists>w'. write_frame (length body) w = (Inr (), w') \<and>
    wire w' = wire w @ varint_bytes (word_of_nat (length body) :: u32) @ body \<and>
    broken w' = None \<and> writer_limits w' = writer_limits w \<and> retained_bytes w' = retained_bytes w"
  using assms length_varint32 [of "word_of_nat (length body)"]
  by (simp add: write_frame_def header_loop_array copy_into_def Let_def)

lemma send_ok:
  assumes "length (encode p) \<le> max_outbound_frame_bytes (writer_limits w)"
    and "length (encode p) < 2 ^ 31" and "broken w = None"
  shows "\<exists>w'. send capacity encode p w = (Inr (), w') \<and>
    wire w' = wire w @ varint_bytes (word_of_nat (length (encode p)) :: u32) @ encode p \<and>
    broken w' = None \<and> writer_limits w' = writer_limits w"
proof -
  let ?w = "w\<lparr>frame := replicate 5 0 @ encode p\<rparr>"
  obtain w' where "write_frame (length (encode p)) ?w = (Inr (), w')"
    and "wire w' = wire ?w @ varint_bytes (word_of_nat (length (encode p)) :: u32) @ encode p"
    and "broken w' = None" and "writer_limits w' = writer_limits ?w"
    using write_frame_ok [of "encode p" ?w] assms by auto
  then show ?thesis by (simp add: send_def Let_def)
qed

section \<open>Reading does not depend on the segmentation\<close>

text \<open>\<open>content s bs s'\<close>: \<open>s\<close> delivers the bytes \<open>bs\<close> first, in some cut, and then is \<open>s'\<close>.\<close>

fun stream_bytes :: "'io tcp \<Rightarrow> u8 list" where
  "stream_bytes [] = []"
| "stream_bytes (Data bs # s) = bs @ stream_bytes s"
| "stream_bytes (Fail e # s) = []"

lemma tcp_read_some:
  assumes "stream_bytes s \<noteq> []" and "0 < n"
  obtains bs s' where "tcp_read n s = (Inr bs, s')" and "bs \<noteq> []"
    and "stream_bytes s = bs @ stream_bytes s'" and "length bs \<le> n"
  using assms
proof (induction n s arbitrary: thesis rule: tcp_read.induct)
  case (3 n bs s)
  show ?case
  proof (cases "bs = []")
    case True
    with 3 show ?thesis by auto
  next
    case False
    show ?thesis
      by (rule "3.prems"(1) [of "take n bs" "if length bs \<le> n then s else Data (drop n bs) # s"])
        (use False "3.prems"(3) in auto)
  qed
qed auto

lemma receive_body_ok:
  assumes "length received \<le> len" and "stream_bytes s = rest @ tail"
    and "length received + length rest = len"
  shows "\<exists>s'. receive_body len received s = (Inr (received @ rest), s') \<and> stream_bytes s' = tail"
  using assms
proof (induction len received s arbitrary: rest rule: receive_body.induct)
  case (1 len received s)
  show ?case
  proof (cases "rest = []")
    case True
    with 1 show ?thesis by (simp add: receive_body.simps [of len])
  next
    case False
    then have lt: "length received < len" using 1(4) by (cases rest) auto
    obtain bs s1 where read: "tcp_read (len - length received) s = (Inr bs, s1)" "bs \<noteq> []"
      and bytes: "stream_bytes s = bs @ stream_bytes s1" and le: "length bs \<le> len - length received"
      using tcp_read_some [of s "len - length received"] False 1(3) lt by auto
    obtain more where more: "rest = bs @ more" "stream_bytes s1 = more @ tail"
      using bytes 1(3,4) le
      by (intro that [of "drop (length bs) rest"]) (auto simp: append_eq_append_conv2)
    have "\<exists>s'. receive_body len (received @ bs) s1 = (Inr ((received @ bs) @ more), s') \<and>
        stream_bytes s' = tail"
      using 1(4) more le lt by (intro 1(1) [OF lt read(1) [symmetric] refl read(2)]) auto
    then show ?thesis using read lt more by (simp add: receive_body.simps [of len received s])
  qed
qed

text \<open>A prefix of which only the last byte lacks the continuation bit.\<close>

fun varint_shape :: "u8 list \<Rightarrow> bool" where
  "varint_shape [] = False"
| "varint_shape [b] = (b AND 0x80 = 0)"
| "varint_shape (b # bs) = (b AND 0x80 \<noteq> 0 \<and> varint_shape bs)"

lemma varint_shape_bytes: "varint_shape (varint_bytes v)"
proof (induction v rule: varint_bytes.induct)
  case (1 v)
  show ?case
  proof (cases "drop_bit 7 v = 0")
    case True
    then show ?thesis
      by (simp add: varint_bytes.simps [of v] seven_bits continuation_clear)
  next
    case False
    with 1 have "varint_shape (varint_bytes (drop_bit 7 v))" by simp
    with False show ?thesis
      by (cases "varint_bytes (drop_bit 7 v)") (auto simp: varint_bytes.simps [of v] Let_def)
  qed
qed

lemma receive_prefix_ok:
  assumes "varint_shape bs" and "length bs \<le> n" and "stream_bytes s = bs @ tail"
  shows "\<exists>s'. receive_prefix n buf s = (Inr (buf @ bs), s') \<and> stream_bytes s' = tail"
  using assms
proof (induction bs arbitrary: n buf s)
  case Nil
  then show ?case by simp
next
  case (Cons b bs)
  obtain m where n: "n = Suc m" using Cons.prems(2) by (cases n) auto
  obtain cs s1 where read: "tcp_read 1 s = (Inr cs, s1)" "cs \<noteq> []"
    and bytes: "stream_bytes s = cs @ stream_bytes s1" and le: "length cs \<le> 1"
    using tcp_read_some [of s 1] Cons.prems(3) by auto
  have cs: "cs = [b]" "stream_bytes s1 = bs @ tail"
    using le read(2) bytes Cons.prems(3) by (cases cs; auto)+
  show ?case
  proof (cases bs)
    case Nil
    then show ?thesis using Cons.prems(1) cs read(1) n by simp
  next
    case (Cons b' bs')
    then have "\<exists>s'. receive_prefix m (buf @ [b]) s1 = (Inr ((buf @ [b]) @ bs), s') \<and> stream_bytes s' = tail"
      using Cons.prems cs n by (intro Cons.IH) auto
    then show ?thesis using Cons.prems(1) Cons cs read(1) n by simp
  qed
qed

lemma decode_buf_varint32: "decode_buf mem decode_VarI32 (varint_bytes v) = Inr (VarI32 v, [])"
  by (simp add: decode_buf_def decode_VarI32_def dec_map_def dec_bind_def dec_ok_def charged_def
      varint32_append [where rest = "[]"] new_decoder_def)

lemma receive_announced:
  assumes "stream_bytes s = varint_bytes (v :: u32) @ tail"
  obtains s' where "receive_prefix 5 [] s = (Inr (varint_bytes v), s')" and "stream_bytes s' = tail"
  using receive_prefix_ok [OF varint_shape_bytes length_varint32 assms, of "[]"] by auto

lemma receive_ok:
  assumes "stream_bytes s = varint_bytes (word_of_nat (length body) :: u32) @ body @ tail"
    and "body \<noteq> []" and "length body < 2 ^ 31" and "length body \<le> max_inbound_frame_bytes lims"
    and "mem (length body)"
  shows "\<exists>s'. receive mem lims s =
      (Inr \<lparr>packet_bytes = body, packet_limits = decode_lims lims\<rparr>, s') \<and> stream_bytes s' = tail"
proof -
  let ?v = "word_of_nat (length body) :: i32"
  have v: "sint ?v = int (length body)"
    using assms(3) by (rule nat_sint_word_of_nat)
  have nz: "?v \<noteq> 0"
  proof
    assume "?v = 0"
    with v have "int (length body) = 0" by (simp only: signed_0)
    with assms(2) show False by simp
  qed
  obtain s1 where p: "receive_prefix 5 [] s = (Inr (varint_bytes ?v), s1)"
    and s1: "stream_bytes s1 = body @ tail"
    using receive_announced [OF assms(1)] .
  obtain s2 where b: "receive_body (length body) [] s1 = (Inr body, s2)" and "stream_bytes s2 = tail"
    using receive_body_ok [OF _ s1, of "[]" "length body"] by auto
  then show ?thesis using p nz assms(4,5) by (simp add: receive_def decode_buf_varint32 v)
qed

lemma tcp_read_bytes: "tcp_read n s = (Inr bs, s') \<Longrightarrow> stream_bytes s = bs @ stream_bytes s'"
  by (induction n s rule: tcp_read.induct) (auto split: if_splits)

lemma tcp_read_tail: "tcp_read n s = (r, s') \<Longrightarrow> \<forall>e. Fail e \<notin> set s \<Longrightarrow> \<forall>e. Fail e \<notin> set s'"
  by (induction n s rule: tcp_read.induct) (auto split: if_splits)

lemma tcp_read_eof: "stream_bytes s = [] \<Longrightarrow> \<forall>e. Fail e \<notin> set s \<Longrightarrow> tcp_read n s = (Inr [], [])"
  by (induction n s rule: tcp_read.induct) auto

lemma receive_body_truncated:
  assumes "length received + length (stream_bytes s) < len" and "\<forall>e. Fail e \<notin> set s"
  shows "receive_body len received s =
    (Inl (Frame (TruncatedFrame len (length received + length (stream_bytes s)))), [])"
  using assms
proof (induction len received s rule: receive_body.induct)
  case (1 len received s)
  have lt: "length received < len" using 1(2) by simp
  show ?case
  proof (cases "stream_bytes s = []")
    case True
    then show ?thesis
      using lt tcp_read_eof [OF True 1(3)] by (simp add: receive_body.simps [of len received s])
  next
    case False
    obtain bs s1 where read: "tcp_read (len - length received) s = (Inr bs, s1)" "bs \<noteq> []"
      and bytes: "stream_bytes s = bs @ stream_bytes s1"
      by (rule tcp_read_some [of s "len - length received"]) (use False lt in auto)
    have "receive_body len (received @ bs) s1 =
      (Inl (Frame (TruncatedFrame len (length (received @ bs) + length (stream_bytes s1)))), [])"
      using 1(2) bytes tcp_read_tail [OF read(1) 1(3)]
      by (intro 1(1) [OF lt read(1) [symmetric] refl read(2)]) auto
    then show ?thesis using read lt bytes by (simp add: receive_body.simps [of len received s])
  qed
qed

lemma receive_body_sound:
  assumes "receive_body len received s = (Inr bytes, s')" and "length received \<le> len"
  shows "length bytes = len \<and> received @ stream_bytes s = bytes @ stream_bytes s'"
  using assms
proof (induction len received s rule: receive_body.induct)
  case (1 len received s)
  show ?case
  proof (cases "length received < len")
    case True
    obtain bs s1 where read: "tcp_read (len - length received) s = (Inr bs, s1)" "bs \<noteq> []"
      and more: "receive_body len (received @ bs) s1 = (Inr bytes, s')"
      using 1(2) True
      by (auto simp: receive_body.simps [of len received s] split: prod.splits sum.splits if_splits)
    have "length (received @ bs) \<le> len" using tcp_read_length [OF read(1)] True by simp
    from 1(1) [OF True read(1) [symmetric] refl read(2) more this] tcp_read_bytes [OF read(1)]
    show ?thesis by simp
  next
    case False
    with 1(2,3) show ?thesis by (simp add: receive_body.simps [of len received s])
  qed
qed

lemma receive_prefix_sound:
  assumes "receive_prefix n buf s = (Inr bytes, s')"
  shows "length bytes \<le> length buf + n \<and> buf @ stream_bytes s = bytes @ stream_bytes s'"
  using assms
proof (induction n arbitrary: buf s)
  case (Suc n)
  obtain b bs s1 where read: "tcp_read 1 s = (Inr (b # bs), s1)"
    using Suc.prems by (auto split: prod.splits sum.splits list.splits if_splits)
  have one: "bs = []" using tcp_read_length [OF read] by simp
  show ?case
  proof (cases "b AND 0x80 = 0")
    case True
    then show ?thesis using Suc.prems read one tcp_read_bytes [OF read] by auto
  next
    case False
    then have "receive_prefix n (buf @ [b]) s1 = (Inr bytes, s')" using Suc.prems read by simp
    from Suc.IH [OF this] show ?thesis using one tcp_read_bytes [OF read] by simp
  qed
qed simp

lemma receive_prefix_tail:
  "receive_prefix n buf s = (r, s') \<Longrightarrow> \<forall>e. Fail e \<notin> set s \<Longrightarrow> \<forall>e. Fail e \<notin> set s'"
proof (induction n arbitrary: buf s)
  case (Suc n)
  obtain q s1 where read: "tcp_read 1 s = (q, s1)" by (cases "tcp_read 1 s")
  have "\<forall>e. Fail e \<notin> set s1" using tcp_read_tail [OF read Suc.prems(2)] .
  with Suc read show ?case by (auto split: sum.splits list.splits if_splits)
qed simp

section \<open>What receive accepts and rejects\<close>

text \<open>C32: a received packet is a part of the stream that is framed by its length: it follows a
  prefix of at most five bytes that decodes to that length, the length is positive and within the
  inbound limit, and the reader stands right behind it.\<close>

theorem receive_sound:
  assumes "receive mem lims s = (Inr p, s')"
  shows "\<exists>prefix_bytes v rest.
    stream_bytes s = prefix_bytes @ packet_bytes p @ stream_bytes s' \<and> length prefix_bytes \<le> 5 \<and>
    decode_buf mem decode_VarI32 prefix_bytes = Inr (VarI32 v, rest) \<and>
    sint v = int (length (packet_bytes p)) \<and>
    0 < length (packet_bytes p) \<and> length (packet_bytes p) \<le> max_inbound_frame_bytes lims \<and>
    packet_limits p = decode_lims lims"
proof -
  obtain pre s1 where pre: "receive_prefix 5 [] s = (Inr pre, s1)"
    using assms by (auto simp: receive_def split: prod.splits sum.splits)
  obtain v rest where v: "decode_buf mem decode_VarI32 pre = Inr (VarI32 v, rest)"
    using assms pre by (auto simp: receive_def split: sum.splits prod.splits VarI32.splits)
  let ?len = "nat (sint v)"
  have pos: "\<not> sint v < 0" "v \<noteq> 0" and lim: "?len \<le> max_inbound_frame_bytes lims"
    and body: "receive_body ?len [] s1 = (Inr (packet_bytes p), s')"
    and "packet_limits p = decode_lims lims"
    using assms pre v by (auto simp: receive_def Let_def split: if_splits prod.splits sum.splits)
  moreover have "stream_bytes s = pre @ stream_bytes s1" "length pre \<le> 5"
    using receive_prefix_sound [OF pre] by auto
  moreover have "length (packet_bytes p) = ?len" "stream_bytes s1 = packet_bytes p @ stream_bytes s'"
    using receive_body_sound [OF body] by auto
  moreover have "sint v \<noteq> 0" using pos(2) by (metis signed_eq_0_iff)
  ultimately show ?thesis using v
    by (intro exI [of _ pre] exI [of _ v] exI [of _ rest]) simp
qed

lemma receive_sound_witness:
  "\<exists>prefix_bytes v rest.
    [2, 7, 8, 9] = prefix_bytes @ [7, 8] @ [9 :: u8] \<and> length prefix_bytes \<le> 5 \<and>
    decode_buf (\<lambda>_. True) decode_VarI32 prefix_bytes = Inr (VarI32 v, rest) \<and>
    sint v = 2 \<and> (2 :: nat) \<le> max_inbound_frame_bytes default_frame_limits"
proof -
  let ?s = "[Data [2, 7], Data [8, 9]] :: nat tcp"
  obtain s' where r: "receive (\<lambda>_. True) default_frame_limits ?s =
      (Inr \<lparr>packet_bytes = [7, 8], packet_limits = decode_lims default_frame_limits\<rparr>, s')"
    and s': "stream_bytes s' = [9]"
    using receive_ok [of ?s "[7, 8]" "[9]" default_frame_limits "\<lambda>_. True"]
    by (auto simp: default_frame_limits_def varint_bytes.simps)
  from receive_sound [OF r] s' show ?thesis by (simp add: numeral_2_eq_2)
qed

text \<open>C6: \<open>receive\<close> on a stream that announces a length, for every announced value and whatever
  follows it: negative and zero lengths, lengths above the limit and failed allocations are rejected
  with none of the body read, a body cut short by the peer is reported with the bytes that
  came, and otherwise the packet is returned and exactly its bytes are gone.\<close>

theorem receive_outcomes:
  assumes "stream_bytes s = varint_bytes (v :: u32) @ rest" and "\<forall>e. Fail e \<notin> set s"
  shows "\<exists>s'. receive mem lims s =
      ((if sint v < 0 then Inl (Frame (NegativeLength v))
        else if v = 0 then Inl (Frame EmptyFrame)
        else if max_inbound_frame_bytes lims < nat (sint v) then
          Inl (Frame (FrameTooLarge (nat (sint v)) (max_inbound_frame_bytes lims)))
        else if \<not> mem (nat (sint v)) then Inl (Frame (FrameAllocationFailed (nat (sint v))))
        else if length rest < nat (sint v) then
          Inl (Frame (TruncatedFrame (nat (sint v)) (length rest)))
        else Inr \<lparr>packet_bytes = take (nat (sint v)) rest, packet_limits = decode_lims lims\<rparr>), s') \<and>
    stream_bytes s' =
      (if sint v \<le> 0 \<or> max_inbound_frame_bytes lims < nat (sint v) \<or> \<not> mem (nat (sint v)) then rest
       else drop (nat (sint v)) rest)"
proof -
  let ?len = "nat (sint v)"
  obtain s1 where p: "receive_prefix 5 [] s = (Inr (varint_bytes v), s1)"
    and s1: "stream_bytes s1 = rest" and nofail: "\<forall>e. Fail e \<notin> set s1"
    using receive_announced [OF assms(1)] receive_prefix_tail assms(2) by metis
  have zero: "sint v = 0 \<longleftrightarrow> v = 0" by (rule signed_eq_0_iff)
  show ?thesis
  proof (cases "sint v \<le> 0 \<or> max_inbound_frame_bytes lims < ?len \<or> \<not> mem ?len")
    case True
    with p s1 zero show ?thesis
      by (intro exI [of _ s1]) (auto simp: receive_def decode_buf_varint32 Let_def)
  next
    case False
    then have pos: "\<not> sint v < 0" "v \<noteq> 0" using zero by auto
    show ?thesis
    proof (cases "length rest < ?len")
      case True
      then have "receive_body ?len [] s1 = (Inl (Frame (TruncatedFrame ?len (length rest))), [])"
        using receive_body_truncated [of "[]" s1 ?len] s1 nofail by simp
      with p False True pos show ?thesis by (simp add: receive_def decode_buf_varint32 Let_def)
    next
      case short: False
      then obtain s2 where "receive_body ?len [] s1 = (Inr (take ?len rest), s2)"
        and "stream_bytes s2 = drop ?len rest"
        using receive_body_ok [of "[]" ?len s1 "take ?len rest" "drop ?len rest"] s1 by auto
      with p False short pos show ?thesis by (simp add: receive_def decode_buf_varint32 Let_def)
    qed
  qed
qed

lemma receive_outcomes_witness:
  "fst (receive (\<lambda>_. True) default_frame_limits [Data [0x80, 0x80, 0x80], Data [0x80, 0x08, 9 :: u8]]) =
     (Inl (Frame (NegativeLength 0x80000000)) :: nat socket_error + packet) \<and>
   fst (receive (\<lambda>_. True) default_frame_limits [Data [3, 1], Data [2 :: u8]]) =
     (Inl (Frame (TruncatedFrame 3 2)) :: nat socket_error + packet)"
  using receive_outcomes [of "[Data [0x80, 0x80, 0x80], Data [0x80, 0x08, 9]] :: nat tcp" "0x80000000" "[9]"
      "\<lambda>_. True" default_frame_limits]
    receive_outcomes [of "[Data [3, 1], Data [2]] :: nat tcp" 3 "[1, 2]" "\<lambda>_. True" default_frame_limits]
  by (auto simp: varint_bytes.simps default_frame_limits_def)

section \<open>Sessions\<close>

text \<open>One side sends a list of packets, the other receives one packet after the other.\<close>

fun send_each ::
  "(u8 list \<Rightarrow> nat) \<Rightarrow> ('a \<Rightarrow> u8 list) \<Rightarrow> 'a list \<Rightarrow> 'io client_writer \<Rightarrow> 'io client_writer" where
  "send_each capacity encode [] w = w"
| "send_each capacity encode (p # ps) w = send_each capacity encode ps (snd (send capacity encode p w))"

fun receive_each ::
  "(nat \<Rightarrow> bool) \<Rightarrow> frame_limits \<Rightarrow> nat \<Rightarrow> 'io tcp \<Rightarrow> ('io socket_error + packet) list \<times> 'io tcp" where
  "receive_each mem lims 0 s = ([], s)"
| "receive_each mem lims (Suc n) s =
     (let (r, s') = receive mem lims s; (rs, s'') = receive_each mem lims n s' in (r # rs, s''))"

definition framed :: "u8 list \<Rightarrow> u8 list" where
  "framed body = varint_bytes (word_of_nat (length body) :: u32) @ body"

lemma send_each_wire:
  assumes "\<And>p. p \<in> set ps \<Longrightarrow> length (encode p) \<le> max_outbound_frame_bytes (writer_limits w)"
    and "\<And>p. p \<in> set ps \<Longrightarrow> length (encode p) < 2 ^ 31" and "broken w = None"
  shows "wire (send_each capacity encode ps w) = wire w @ concat (map (framed \<circ> encode) ps)"
  using assms
proof (induction ps arbitrary: w)
  case (Cons p ps)
  obtain w' where "send capacity encode p w = (Inr (), w')"
    and "wire w' = wire w @ framed (encode p)" and "broken w' = None"
    and "writer_limits w' = writer_limits w"
    using send_ok [of encode p w capacity] Cons.prems by (auto simp: framed_def)
  then show ?case using Cons.IH [of w'] Cons.prems by simp
qed simp

lemma receive_each_ok:
  assumes "stream_bytes s = concat (map framed bodies) @ tail"
    and "\<And>b. b \<in> set bodies \<Longrightarrow>
      b \<noteq> [] \<and> length b < 2 ^ 31 \<and> length b \<le> max_inbound_frame_bytes lims \<and> mem (length b)"
  shows "\<exists>s'. receive_each mem lims (length bodies) s =
      (map (\<lambda>b. Inr \<lparr>packet_bytes = b, packet_limits = decode_lims lims\<rparr>) bodies, s') \<and>
      stream_bytes s' = tail"
  using assms
proof (induction bodies arbitrary: s)
  case (Cons b bs)
  obtain s1 where "receive mem lims s = (Inr \<lparr>packet_bytes = b, packet_limits = decode_lims lims\<rparr>, s1)"
    and "stream_bytes s1 = concat (map framed bs) @ tail"
    using receive_ok [of s b "concat (map framed bs) @ tail" lims mem] Cons.prems
    by (auto simp: framed_def [of b])
  moreover have "\<exists>s'. receive_each mem lims (length bs) s1 =
      (map (\<lambda>b. Inr \<lparr>packet_bytes = b, packet_limits = decode_lims lims\<rparr>) bs, s') \<and>
      stream_bytes s' = tail"
    using calculation(2) Cons.prems(2) by (intro Cons.IH) auto
  ultimately show ?case by auto
qed simp

text \<open>C5: packets sent one after the other arrive complete, in order and unchanged, however TCP cuts
  the stream into segments: if the reader's stream delivers what the writer put on the wire, each
  \<open>receive\<close> returns the next packet's bytes.\<close>

theorem packets_arrive_in_order:
  assumes "wire w = []" and "broken w = None"
    and "\<And>p. p \<in> set ps \<Longrightarrow> encode p \<noteq> [] \<and> length (encode p) < 2 ^ 31 \<and>
      length (encode p) \<le> max_outbound_frame_bytes (writer_limits w) \<and>
      length (encode p) \<le> max_inbound_frame_bytes lims \<and> mem (length (encode p))"
    and "stream_bytes s = wire (send_each capacity encode ps w)"
  shows "fst (receive_each mem lims (length ps) s) =
    map (\<lambda>p. Inr \<lparr>packet_bytes = encode p, packet_limits = decode_lims lims\<rparr>) ps"
proof -
  have "stream_bytes s = concat (map framed (map encode ps)) @ []"
    using send_each_wire [of ps encode w capacity] assms by (simp add: o_def)
  then have "\<exists>s'. receive_each mem lims (length (map encode ps)) s =
      (map (\<lambda>b. Inr \<lparr>packet_bytes = b, packet_limits = decode_lims lims\<rparr>) (map encode ps), s') \<and>
      stream_bytes s' = []"
    by (rule receive_each_ok) (use assms(3) in auto)
  then show ?thesis by (auto simp: o_def)
qed

text \<open>Two packets, cut in the middle of the second body.\<close>

lemma packets_arrive_in_order_witness:
  "fst (receive_each (\<lambda>_. True) default_frame_limits 2
     [Data [2, 10], Data [11, 3, 1], Data [], Data [2, 3 :: u8]]) =
   [Inr \<lparr>packet_bytes = [10, 11], packet_limits = default_limits\<rparr>,
    Inr \<lparr>packet_bytes = [1, 2, 3], packet_limits = default_limits\<rparr>]"
proof -
  let ?w = "new_writer default_frame_limits"
  let ?ps = "[[10, 11], [1, 2, 3]] :: u8 list list"
  let ?s = "[Data [2, 10], Data [11, 3, 1], Data [], Data [2, 3 :: u8]]"
  have wire: "wire (send_each length id ?ps ?w) = [2, 10, 11, 3, 1, 2, 3]"
    by (subst send_each_wire)
      (auto simp: new_writer_def default_frame_limits_def framed_def varint_bytes.simps)
  have "stream_bytes ?s = wire (send_each length id ?ps ?w)"
    by (simp only: wire stream_bytes.simps append_Nil append_Cons append_Nil2)
  then have "fst (receive_each (\<lambda>_. True) default_frame_limits (length ?ps) ?s) =
    map (\<lambda>p. Inr \<lparr>packet_bytes = id p, packet_limits = decode_lims default_frame_limits\<rparr>) ?ps"
    by (rule packets_arrive_in_order [rotated 3])
      (auto simp: new_writer_def default_frame_limits_def)
  moreover have "decode_lims default_frame_limits = default_limits"
    by (simp add: default_frame_limits_def)
  moreover have "length ?ps = 2" by simp
  ultimately show ?thesis by (simp only: list.map id_apply)
qed

end
