(* ===== verification/Items.thy ===== *)
theory Items
  imports Slots
begin

text \<open>
  Item stacks (\<open>void/src/item.rs\<close>) and what the window engine asks of them
  (\<open>void/src/window.rs\<close>). The registry tables are generated at build time from the JSON assets
  of \<open>void-data\<close>: the item names and the maximum stack sizes are parameters.
\<close>

section \<open>Item stacks\<close>

type_synonym item_id = i32

abbreviation AIR :: item_id where "AIR \<equiv> 0"

record 'n item_stack =
  stack_item :: item_id
  stack_count :: u8
  stack_components :: "'n data_component list"

definition EMPTY_STACK :: "'n item_stack" where
  "EMPTY_STACK = \<lparr>stack_item = AIR, stack_count = 0, stack_components = []\<rparr>"

text \<open>\<open>ItemId::from_name\<close>; \<open>table\<close> is \<open>voidmc_data::item_id\<close>.\<close>

definition item_from_name :: "(string \<Rightarrow> item_id option) \<Rightarrow> string \<Rightarrow> item_id option" where
  "item_from_name table name =
     table (if CHR '':'' \<in> set name then name else ''minecraft:'' @ name)"

definition new_stack :: "item_id \<Rightarrow> u8 \<Rightarrow> 'n item_stack" where
  "new_stack item count = \<lparr>stack_item = item, stack_count = count, stack_components = []\<rparr>"

definition stack_of :: "(string \<Rightarrow> item_id option) \<Rightarrow> string \<Rightarrow> u8 \<Rightarrow> 'n item_stack option" where
  "stack_of table name count = map_option (\<lambda>item. new_stack item count) (item_from_name table name)"

definition stack_is_empty :: "'n item_stack \<Rightarrow> bool" where
  "stack_is_empty s \<longleftrightarrow> stack_count s = 0 \<or> stack_item s = AIR"

definition with_component :: "'n data_component \<Rightarrow> 'n item_stack \<Rightarrow> 'n item_stack" where
  "with_component component s = s\<lparr>stack_components := stack_components s @ [component]\<rparr>"

definition with_max_stack_size :: "i32 \<Rightarrow> 'n item_stack \<Rightarrow> 'n item_stack" where
  "with_max_stack_size max_size s = with_component (MaxStackSize max_size) s"

definition with_damage :: "i32 \<Rightarrow> 'n item_stack \<Rightarrow> 'n item_stack" where
  "with_damage damage s = with_component (Damage damage) s"

definition to_slot :: "'n item_stack \<Rightarrow> 'n slot" where
  "to_slot s =
     (if stack_is_empty s then EMPTY_SLOT
      else \<lparr>slot_count = ucast (stack_count s), slot_item_id = stack_item s,
        components_to_add = stack_components s, components_to_remove = []\<rparr>)"

text \<open>\<open>slot.count.clamp(0, u8::MAX as i32) as u8\<close>.\<close>

definition from_slot :: "'n slot \<Rightarrow> 'n item_stack" where
  "from_slot s =
     (if slot_is_empty s then EMPTY_STACK
      else \<lparr>stack_item = slot_item_id s,
        stack_count = word_of_int (max 0 (min 255 (sint (slot_count s)))),
        stack_components = components_to_add s\<rparr>)"

section \<open>Counting items\<close>

text \<open>
  Two stacks hold the same kind of item when item id and components agree. \<open>amount k s\<close> is how
  many items of kind \<open>k\<close> are in a stack.
\<close>

type_synonym 'n kind = "item_id \<times> 'n data_component list"

definition kind_of :: "'n item_stack \<Rightarrow> 'n kind" where
  "kind_of s = (stack_item s, stack_components s)"

definition amount :: "'n kind \<Rightarrow> 'n item_stack \<Rightarrow> nat" where
  "amount k s = (if stack_is_empty s \<or> kind_of s \<noteq> k then 0 else unat (stack_count s))"

definition amounts :: "'n kind \<Rightarrow> 'n item_stack list \<Rightarrow> nat" where
  "amounts k ss = sum_list (map (amount k) ss)"

lemma EMPTY_stack_is_empty [simp]: "stack_is_empty EMPTY_STACK"
  by (simp add: stack_is_empty_def EMPTY_STACK_def)

lemma amount_empty [simp]: "stack_is_empty s \<Longrightarrow> amount k s = 0"
  by (simp add: amount_def)

lemma amounts_simps [simp]:
  "amounts k [] = 0" "amounts k (s # ss) = amount k s + amounts k ss"
  "amounts k (ss @ ts) = amounts k ss + amounts k ts"
  by (simp_all add: amounts_def)

lemma amounts_update:
  "i < length ss \<Longrightarrow> amounts k (ss[i := s]) + amount k (ss ! i) = amounts k ss + amount k s"
  unfolding amounts_def by (rule sum_list_update_add)

lemma amount_le_amounts: "i < length ss \<Longrightarrow> amount k (ss ! i) \<le> amounts k ss"
  using amounts_update [of i ss k EMPTY_STACK] by simp

section \<open>Stacks and slots\<close>

lemma u8_less [simp]: "unat (c :: u8) < 256"
  using unsigned_less [of c] by simp

lemma u8_as_i32: "sint (ucast (c :: u8) :: i32) = int (unat c)"
proof -
  have "unat c < 2 ^ 31" by (rule less_trans [OF u8_less]) simp
  then have "sint (word_of_nat (unat c) :: i32) = int (unat c)" by (rule nat_sint_word_of_nat)
  moreover have "ucast c = (word_of_nat (unat c) :: i32)" by transfer simp
  ultimately show ?thesis by (simp only:)
qed

text \<open>
  What the wire form of a stack means for its amounts: a stack the server sends comes back with
  the same kind and count, and counts a slot claims beyond 255 are capped, never wrapped.
\<close>

lemma from_slot_to_slot: "\<not> stack_is_empty s \<Longrightarrow> from_slot (to_slot s) = s"
proof -
  assume s: "\<not> stack_is_empty s"
  then have "uint (stack_count s) \<noteq> 0" by (simp add: stack_is_empty_def uint_0_iff)
  then have pos: "0 < uint (stack_count s)" using uint_ge_0 [of "stack_count s"] by linarith
  have "uint (stack_count s) \<le> 255" using unsigned_less [of "stack_count s", where 'a = int] by simp
  then have "max 0 (min 255 (uint (stack_count s))) = uint (stack_count s)" using pos by simp
  then have "word_of_int (max 0 (min 255 (uint (stack_count s)))) = stack_count s" by simp
  with pos show ?thesis
    using s by (simp add: to_slot_def from_slot_def slot_is_empty_def u8_as_i32)
qed

lemma from_slot_count:
  assumes "\<not> slot_is_empty s"
  shows "unat (stack_count (from_slot s)) = min 255 (nat (sint (slot_count s)))"
proof -
  let ?c = "max 0 (min 255 (sint (slot_count s)))"
  have "0 \<le> ?c" "?c < 256" by auto
  then have "uint (word_of_int ?c :: u8) = ?c" by (simp add: uint_word_of_int_eq take_bit_int_eq_self)
  then have "unat (word_of_int ?c :: u8) = nat ?c" by (metis nat_uint_eq)
  then show ?thesis using assms by (simp add: from_slot_def) (auto simp: min_def max_def)
qed

text \<open>The two representations of items agree: a stack goes to its slot and back unchanged
  (an empty one as the empty stack), and a slot from the network becomes a stack with its item, its
  components and its count capped at 255.\<close>

theorem stack_slot_conversion:
  "from_slot (to_slot s) = (if stack_is_empty s then EMPTY_STACK else s) \<and>
   (if slot_is_empty sl then from_slot sl = EMPTY_STACK
    else kind_of (from_slot sl) = (slot_item_id sl, components_to_add sl) \<and>
      unat (stack_count (from_slot sl)) = min 255 (nat (sint (slot_count sl))))"
  using from_slot_to_slot [of s] from_slot_count [of sl]
  by (auto simp: to_slot_def from_slot_def kind_of_def slot_is_empty_def EMPTY_SLOT_def)

end
