(* ===== verification/Stack_Sizes.thy ===== *)
theory Stack_Sizes
  imports Void_Prelude
begin

text \<open>
  The maximum stack size of an item: the table of \<open>void-data/src/stack_sizes.rs\<close> and the lookup
  \<open>item_max_stack\<close> of \<open>void-data/src/lib.rs\<close>, with the binary search of the standard library it
  relies on.
\<close>

section \<open>Binary search\<close>

text \<open>
  \<open>slice.binary_search_by(|e| key(e).cmp(&k))\<close>: halving an index range. On a table sorted by
  distinct keys it finds the entry of a key exactly when there is one.
\<close>

function binary_search :: "('a \<times> 'b) list \<Rightarrow> ('a :: linorder) \<Rightarrow> nat \<Rightarrow> nat \<Rightarrow> nat option" where
  "binary_search table k lo hi =
     (if lo < hi then
        (let mid = (lo + hi) div 2 in
         if fst (table ! mid) = k then Some mid
         else if fst (table ! mid) < k then binary_search table k (mid + 1) hi
         else binary_search table k lo mid)
      else None)"
  by pat_completeness auto
termination
  by (relation "measure (\<lambda>(_, _, lo, hi). hi - lo)") auto

declare binary_search.simps [simp del]

lemma binary_search_Some:
  "binary_search table k lo hi = Some i \<Longrightarrow> lo \<le> i \<and> i < hi \<and> fst (table ! i) = k"
proof (induction table k lo hi rule: binary_search.induct)
  case (1 table k lo hi)
  from 1(3) have "lo < hi" by (subst (asm) binary_search.simps) (auto split: if_splits)
  with 1 show ?case
    by (subst (asm) (3) binary_search.simps) (fastforce simp: Let_def split: if_splits)
qed

lemma binary_search_None:
  assumes "binary_search table k lo hi = None" and "sorted_wrt (<) (map fst table)"
    and "hi \<le> length table" and "lo \<le> i" "i < hi"
  shows "fst (table ! i) \<noteq> k"
  using assms
proof (induction table k lo hi rule: binary_search.induct)
  case (1 table k lo hi)
  let ?mid = "(lo + hi) div 2"
  have less: "fst (table ! a) < fst (table ! b)" if "a < b" "b < length table" for a b
    using 1(4) that by (auto simp: sorted_wrt_iff_nth_less)
  have lh: "lo < hi" and mid: "lo \<le> ?mid" "?mid < hi" using 1(6,7) by auto
  have ne: "fst (table ! ?mid) \<noteq> k"
    using 1(3) lh by (subst (asm) binary_search.simps) (auto simp: Let_def)
  show ?case
  proof (cases "fst (table ! ?mid) < k")
    case True
    then have rest: "binary_search table k (?mid + 1) hi = None"
      using 1(3) lh ne by (subst (asm) binary_search.simps) (auto simp: Let_def)
    show ?thesis
    proof (cases "i \<le> ?mid")
      case True
      then have "fst (table ! i) \<le> fst (table ! ?mid)"
        using less [of i ?mid] mid 1(5) by (cases "i = ?mid") auto
      with \<open>fst (table ! ?mid) < k\<close> show ?thesis by auto
    next
      case False
      with 1(1) [OF lh refl ne True rest] 1(4-7) show ?thesis by simp
    qed
  next
    case False
    then have rest: "binary_search table k lo ?mid = None"
      using 1(3) lh ne by (subst (asm) binary_search.simps) (auto simp: Let_def)
    show ?thesis
    proof (cases "?mid \<le> i")
      case True
      then have "fst (table ! ?mid) \<le> fst (table ! i)"
        using less [of ?mid i] mid 1(5,7) by (cases "i = ?mid") auto
      with False ne show ?thesis by auto
    next
      case low: False
      with 1(2) [OF lh refl ne False rest] 1(4-7) mid show ?thesis by simp
    qed
  qed
qed

lemma binary_search_map_of:
  assumes "sorted_wrt (<) (map fst table)"
  shows "map_option (\<lambda>i. snd (table ! i)) (binary_search table k 0 (length table)) = map_of table k"
proof -
  have dist: "distinct (map fst table)" using assms by (auto simp: strict_sorted_iff)
  show ?thesis
  proof (cases "binary_search table k 0 (length table)")
    case None
    have ne: "fst (table ! i) \<noteq> k" if "i < length table" for i
      using binary_search_None [OF None assms order_refl _ that] by simp
    have "k \<notin> set (map fst table)"
    proof
      assume "k \<in> set (map fst table)"
      then obtain i where "i < length table" "map fst table ! i = k" by (auto simp: in_set_conv_nth)
      with ne show False by simp
    qed
    then have "map_of table k = None" by (simp add: map_of_eq_None_iff)
    with None show ?thesis by simp
  next
    case (Some i)
    then have "i < length table" "fst (table ! i) = k" using binary_search_Some by fastforce+
    then have "(k, snd (table ! i)) \<in> set table" by (metis nth_mem prod.collapse)
    then have "map_of table k = Some (snd (table ! i))" using dist by (simp add: map_of_is_SomeI)
    with Some show ?thesis by simp
  qed
qed

section \<open>The table and the lookup\<close>

definition ITEM_STACK_SIZES :: "(i32 \<times> u8) list" where
  "ITEM_STACK_SIZES = [
     (582, 1), (583, 1), (584, 1), (585, 1), (586, 1), (587, 1), (588, 1), (589, 1), (590, 1), (591, 1),
     (592, 1), (593, 1), (594, 1), (595, 1), (596, 1), (597, 1), (598, 1), (838, 1), (839, 1), (840, 1),
     (841, 1), (842, 1), (843, 1), (844, 1), (845, 1), (846, 1), (847, 1), (848, 1), (849, 1), (850, 1),
     (851, 1), (852, 1), (853, 1), (854, 1), (855, 1), (856, 1), (857, 1), (858, 1), (859, 1), (860, 1),
     (861, 1), (863, 1), (864, 1), (865, 1), (866, 1), (867, 1), (868, 1), (869, 1), (870, 1), (871, 1),
     (872, 1), (873, 1), (874, 1), (875, 1), (876, 1), (877, 1), (878, 1), (879, 1), (880, 1), (881, 1),
     (882, 1), (883, 1), (888, 1), (891, 1), (892, 1), (895, 1), (912, 1), (913, 1), (914, 1), (915, 1),
     (916, 1), (917, 1), (918, 1), (919, 1), (920, 1), (921, 1), (922, 1), (923, 1), (924, 1), (925, 1),
     (926, 1), (927, 1), (928, 1), (929, 1), (930, 1), (931, 1), (932, 1), (933, 1), (934, 1), (935, 1),
     (936, 1), (937, 1), (938, 1), (939, 1), (940, 1), (941, 1), (942, 1), (943, 1), (944, 1), (945, 1),
     (946, 1), (948, 1), (955, 1), (956, 1), (957, 1), (958, 1), (959, 1), (960, 1), (961, 1), (962, 1),
     (963, 1), (964, 1), (965, 1), (966, 1), (967, 1), (968, 1), (969, 1), (970, 1), (971, 1), (972, 1),
     (973, 1), (974, 1), (975, 1), (976, 1), (977, 1), (978, 1), (979, 1), (980, 1), (981, 1), (982, 1),
     (989, 16), (990, 16), (991, 16), (992, 16), (993, 16), (994, 16), (995, 16), (996, 16), (997, 16), (998, 16),
     (999, 16), (1000, 16), (1001, 16), (1002, 16), (1003, 16), (1004, 16), (1005, 16), (1006, 16), (1007, 16), (1008, 16),
     (1009, 16), (1010, 16), (1011, 16), (1012, 16), (1013, 16), (1014, 1), (1015, 1), (1016, 1), (1017, 16), (1019, 1),
     (1020, 1), (1021, 1), (1022, 1), (1023, 1), (1024, 1), (1025, 1), (1032, 16), (1033, 16), (1034, 16), (1037, 1),
     (1038, 1), (1039, 1), (1040, 1), (1041, 1), (1042, 1), (1043, 1), (1044, 1), (1045, 1), (1046, 1), (1047, 1),
     (1048, 1), (1049, 1), (1050, 1), (1051, 1), (1052, 1), (1053, 1), (1054, 1), (1056, 1), (1086, 1), (1087, 1),
     (1088, 1), (1089, 1), (1090, 1), (1091, 1), (1092, 1), (1093, 1), (1094, 1), (1095, 1), (1096, 1), (1097, 1),
     (1098, 1), (1099, 1), (1100, 1), (1101, 1), (1102, 1), (1106, 1), (1116, 16), (1122, 1), (1221, 1), (1222, 16),
     (1224, 1), (1245, 1), (1252, 1), (1255, 16), (1256, 1), (1257, 1), (1258, 1), (1259, 1), (1260, 1), (1261, 1),
     (1264, 1), (1267, 16), (1268, 16), (1269, 16), (1270, 16), (1271, 16), (1272, 16), (1273, 16), (1274, 16), (1275, 16),
     (1276, 16), (1277, 16), (1278, 16), (1279, 16), (1280, 16), (1281, 16), (1282, 16), (1290, 1), (1292, 1), (1295, 1),
     (1296, 1), (1297, 1), (1298, 1), (1299, 1), (1300, 1), (1301, 1), (1302, 1), (1303, 1), (1304, 1), (1308, 1),
     (1309, 1), (1310, 1), (1311, 1), (1312, 1), (1313, 1), (1314, 1), (1315, 1), (1316, 1), (1317, 1), (1318, 1),
     (1319, 1), (1320, 1), (1321, 1), (1322, 1), (1323, 1), (1324, 1), (1325, 1), (1326, 1), (1327, 1), (1328, 1),
     (1329, 1), (1330, 1), (1332, 1), (1334, 1), (1335, 1), (1336, 1), (1337, 1), (1338, 1), (1340, 1), (1341, 1),
     (1343, 1), (1344, 1), (1345, 1), (1346, 1), (1347, 1), (1348, 1), (1349, 1), (1350, 1), (1351, 1), (1352, 1),
     (1353, 1), (1382, 16), (1426, 1)]"

definition item_max_stack :: "i32 \<Rightarrow> u8" where
  "item_max_stack item =
     (case binary_search ITEM_STACK_SIZES item 0 (length ITEM_STACK_SIZES) of
        Some i \<Rightarrow> snd (ITEM_STACK_SIZES ! i)
      | None \<Rightarrow> 64)"

lemma ITEM_STACK_SIZES_ascending: "successively (<) (map fst ITEM_STACK_SIZES)"
  by (simp add: ITEM_STACK_SIZES_def)

lemma ITEM_STACK_SIZES_sorted: "sorted_wrt (<) (map fst ITEM_STACK_SIZES)"
  using ITEM_STACK_SIZES_ascending by (simp add: successively_conv_sorted_wrt)

lemma ITEM_STACK_SIZES_values: "list_all (\<lambda>e. snd e = 1 \<or> snd e = 16) ITEM_STACK_SIZES"
  by (simp add: ITEM_STACK_SIZES_def)

lemma item_max_stack_map_of:
  "item_max_stack item = (case map_of ITEM_STACK_SIZES item of Some n \<Rightarrow> n | None \<Rightarrow> 64)"
  unfolding item_max_stack_def binary_search_map_of [OF ITEM_STACK_SIZES_sorted, symmetric]
  by (auto split: option.splits)

lemma item_max_stack_values: "item_max_stack item = 1 \<or> item_max_stack item = 16 \<or> item_max_stack item = 64"
proof -
  have "n = 1 \<or> n = 16" if "map_of ITEM_STACK_SIZES item = Some n" for n
    using ITEM_STACK_SIZES_values map_of_SomeD [OF that] by (auto simp: list_all_iff)
  then show ?thesis by (auto simp: item_max_stack_map_of split: option.splits)
qed

lemma item_max_stack_pos: "item_max_stack item \<noteq> 0"
  using item_max_stack_values [of item] by auto

text \<open>Items before the first entry of the table.\<close>

lemma item_max_stack_common: "item < 582 \<Longrightarrow> item_max_stack item = 64"
proof -
  assume item: "item < 582"
  obtain ks where ks: "map fst ITEM_STACK_SIZES = 582 # ks" by (simp add: ITEM_STACK_SIZES_def)
  then have "\<forall>k \<in> set ks. 582 < k" using ITEM_STACK_SIZES_sorted by simp
  then have "item \<notin> set (map fst ITEM_STACK_SIZES)" unfolding ks using item by force
  then have "map_of ITEM_STACK_SIZES item = None" by (simp add: map_of_eq_None_iff)
  then show ?thesis by (simp add: item_max_stack_map_of)
qed

text \<open>The stack size of an item is its entry in the table, 64 where it has none, and so every
  item stacks to 1, 16 or 64: the binary search reaches every entry because the table is sorted.\<close>

theorem item_max_stack_table:
  "item_max_stack item = (case map_of ITEM_STACK_SIZES item of Some n \<Rightarrow> n | None \<Rightarrow> 64) \<and>
   item_max_stack item \<in> {1, 16, 64}"
  using item_max_stack_map_of item_max_stack_values by simp

end
