(* ===== verification/Window.thy ===== *)
theory Window
  imports Items Stack_Sizes
begin

text \<open>
  The click engine of \<open>void/src/window.rs\<close>, which the player's own inventory and every open menu
  share. A handler takes the window and returns it changed, with the stacks thrown into the world
  where the code returns them. Counts are \<open>u8\<close> and wrap as in a release build; that they never do
  is part of what is proved. \<open>ims\<close> is the table lookup \<open>voidmc_data::item_max_stack\<close>, of which the
  engine only needs that no item's maximum is zero; the interpretation at the end is for the
  table of the repository.
\<close>

section \<open>Layouts\<close>

text \<open>A \<open>Range<usize>\<close> is its two ends.\<close>

type_synonym range = "nat \<times> nat"

definition in_range :: "range \<Rightarrow> nat \<Rightarrow> bool" where
  "in_range r i \<longleftrightarrow> fst r \<le> i \<and> i < snd r"

definition range_list :: "range \<Rightarrow> nat list" where
  "range_list r = [fst r..<snd r]"

record layout =
  layout_size :: nat
  container :: range
  main :: range
  hotbar :: range
  offhand :: "nat option"
  crafting_output :: "nat option"

definition PLAYER :: layout where
  "PLAYER = \<lparr>layout_size = 46, container = (0, 9), main = (9, 36), hotbar = (36, 45),
     offhand = Some 45, crafting_output = Some 0\<rparr>"

definition menu_layout :: "nat \<Rightarrow> bool \<Rightarrow> layout" where
  "menu_layout n with_player_inventory =
     (let (m, h) =
        (if with_player_inventory then ((n, n + 27), (n + 27, n + 36)) else ((n, n), (n, n)))
      in \<lparr>layout_size = snd h, container = (0, n), main = m, hotbar = h,
        offhand = None, crafting_output = None\<rparr>)"

definition is_player_window :: "layout \<Rightarrow> bool" where
  "is_player_window l \<longleftrightarrow> l = PLAYER"

definition quick_move_targets :: "layout \<Rightarrow> nat \<Rightarrow> nat list" where
  "quick_move_targets l src =
     (if is_player_window l then
        (if in_range (hotbar l) src then range_list (main l)
         else if in_range (main l) src then range_list (hotbar l)
         else range_list (main l) @ range_list (hotbar l))
      else if in_range (container l) src then rev [fst (main l)..<snd (hotbar l)]
      else range_list (container l))"

definition swap_target :: "layout \<Rightarrow> i8 \<Rightarrow> nat option" where
  "swap_target l button =
     (if button = 40 then offhand l
      else if 0 \<le> sint button \<and> sint button \<le> 8 then
        (let index = fst (hotbar l) + nat (sint button) in
         if in_range (hotbar l) index then Some index else None)
      else None)"

section \<open>Stacks in a window\<close>

datatype drag_kind = LeftDrag | RightDrag | MiddleDrag

record drag_state =
  drag_kind :: drag_kind
  drag_slots :: "nat list"

definition max_stack :: "(item_id \<Rightarrow> u8) \<Rightarrow> 'n item_stack \<Rightarrow> u8" where
  "max_stack ims s = (if stack_is_empty s then 64 else ims (stack_item s))"

definition same_item :: "'n item_stack \<Rightarrow> 'n item_stack \<Rightarrow> bool" where
  "same_item a b \<longleftrightarrow>
     \<not> stack_is_empty a \<and> stack_item a = stack_item b \<and> stack_components a = stack_components b"

definition with_count :: "'n item_stack \<Rightarrow> u8 \<Rightarrow> 'n item_stack" where
  "with_count s c =
     (if c = 0 then EMPTY_STACK
      else \<lparr>stack_item = stack_item s, stack_count = c, stack_components = stack_components s\<rparr>)"

definition add_count :: "'n item_stack \<Rightarrow> u8 \<Rightarrow> 'n item_stack" where
  "add_count s n = s\<lparr>stack_count := stack_count s + n\<rparr>"

definition take_count :: "'n item_stack \<Rightarrow> u8 \<Rightarrow> 'n item_stack" where
  "take_count s n = s\<lparr>stack_count := stack_count s - n\<rparr>"

text \<open>
  The two loops of \<open>deposit\<close>. The early \<open>return\<close> of the first leaves nothing to do for the
  second, which starts with the same test.
\<close>

fun deposit_matching ::
  "u8 \<Rightarrow> nat list \<Rightarrow> 'n item_stack list \<Rightarrow> 'n item_stack \<Rightarrow> 'n item_stack list \<times> 'n item_stack" where
  "deposit_matching mx [] ss stack = (ss, stack)"
| "deposit_matching mx (i # is) ss stack =
     (if stack_count stack = 0 then (ss, stack)
      else if same_item (ss ! i) stack \<and> stack_count (ss ! i) < mx then
        (let moved = min (mx - stack_count (ss ! i)) (stack_count stack) in
         deposit_matching mx is (ss[i := add_count (ss ! i) moved]) (take_count stack moved))
      else deposit_matching mx is ss stack)"

fun deposit_empty ::
  "u8 \<Rightarrow> nat list \<Rightarrow> 'n item_stack list \<Rightarrow> 'n item_stack \<Rightarrow> 'n item_stack list \<times> 'n item_stack" where
  "deposit_empty mx [] ss stack = (ss, stack)"
| "deposit_empty mx (i # is) ss stack =
     (if stack_count stack = 0 then (ss, stack)
      else if stack_is_empty (ss ! i) then
        (let moved = min (stack_count stack) mx in
         deposit_empty mx is (ss[i := with_count stack moved]) (take_count stack moved))
      else deposit_empty mx is ss stack)"

definition deposit ::
  "(item_id \<Rightarrow> u8) \<Rightarrow> nat list \<Rightarrow> 'n item_stack list \<Rightarrow> 'n item_stack \<Rightarrow>
   'n item_stack list \<times> 'n item_stack" where
  "deposit ims indices ss stack =
     (let mx = max_stack ims stack; (ss', stack') = deposit_matching mx indices ss stack
      in deposit_empty mx indices ss' stack')"

section \<open>The handlers\<close>

record 'n window =
  slots :: "'n item_stack list"
  cursor :: "'n item_stack"
  drag :: "drag_state option"
  layout :: layout
  creative :: bool

definition saturating_sub8 :: "u8 \<Rightarrow> u8 \<Rightarrow> u8" where
  "saturating_sub8 a b = (if b \<le> a then a - b else 0)"

text \<open>\<open>u8::div_ceil(2)\<close>.\<close>

definition half_up :: "u8 \<Rightarrow> u8" where
  "half_up n = word_of_nat (div_ceil (unat n) 2)"

definition pickup :: "(item_id \<Rightarrow> u8) \<Rightarrow> nat \<Rightarrow> bool \<Rightarrow> 'n window \<Rightarrow> 'n window" where
  "pickup ims slot right w =
     (let cur = cursor w; target = slots w ! slot;
          put = (\<lambda>t c. w\<lparr>slots := (slots w)[slot := t], cursor := c\<rparr>) in
      if stack_is_empty cur then
        (if stack_is_empty target then w
         else if right then
           (let total = stack_count target; taken = half_up total in
            put (with_count target (total - taken)) (with_count target taken))
         else put EMPTY_STACK target)
      else if stack_is_empty target then
        (if right then put (with_count cur 1) (with_count cur (stack_count cur - 1))
         else put cur EMPTY_STACK)
      else if same_item target cur then
        (let space = saturating_sub8 (max_stack ims cur) (stack_count target) in
         if 0 < space then
           (let moved = min (if right then 1 else stack_count cur) space in
            put (add_count target moved) (with_count cur (stack_count cur - moved)))
         else w)
      else put cur target)"

definition quick_move :: "(item_id \<Rightarrow> u8) \<Rightarrow> nat \<Rightarrow> 'n window \<Rightarrow> 'n window" where
  "quick_move ims src w =
     (let stack = slots w ! src; ss = (slots w)[src := EMPTY_STACK] in
      if stack_is_empty stack then w\<lparr>slots := ss\<rparr>
      else
        (let (ss', stack') = deposit ims (quick_move_targets (layout w) src) ss stack in
         w\<lparr>slots := ss'[src := stack']\<rparr>))"

definition swap_slots :: "nat \<Rightarrow> i8 \<Rightarrow> 'n window \<Rightarrow> 'n window" where
  "swap_slots slot button w =
     (case swap_target (layout w) button of
        Some target \<Rightarrow>
          if target \<noteq> slot then
            w\<lparr>slots := (slots w)[slot := slots w ! target, target := slots w ! slot]\<rparr>
          else w
      | None \<Rightarrow> w)"

definition clone_stack :: "(item_id \<Rightarrow> u8) \<Rightarrow> nat \<Rightarrow> 'n window \<Rightarrow> 'n window" where
  "clone_stack ims slot w =
     (if creative w \<and> stack_is_empty (cursor w) \<and> \<not> stack_is_empty (slots w ! slot) then
        w\<lparr>cursor := with_count (slots w ! slot) (max_stack ims (slots w ! slot))\<rparr>
      else w)"

definition throw :: "nat \<Rightarrow> i8 \<Rightarrow> 'n window \<Rightarrow> 'n item_stack list \<times> 'n window" where
  "throw slot button w =
     (let target = slots w ! slot in
      if stack_is_empty target then ([], w)
      else if button = 1 then ([target], w\<lparr>slots := (slots w)[slot := EMPTY_STACK]\<rparr>)
      else ([with_count target 1],
        w\<lparr>slots := (slots w)[slot := with_count target (stack_count target - 1)]\<rparr>))"

definition drop_cursor :: "bool \<Rightarrow> 'n window \<Rightarrow> 'n item_stack list \<times> 'n window" where
  "drop_cursor single w =
     (if stack_is_empty (cursor w) then ([], w)
      else if single then
        ([with_count (cursor w) 1],
         w\<lparr>cursor := with_count (cursor w) (stack_count (cursor w) - 1)\<rparr>)
      else ([cursor w], w\<lparr>cursor := EMPTY_STACK\<rparr>))"

text \<open>The loop of \<open>pickup_all\<close> over the slots still to visit.\<close>

fun pickup_all_loop ::
  "u8 \<Rightarrow> nat option \<Rightarrow> nat list \<Rightarrow> 'n item_stack list \<Rightarrow> 'n item_stack \<Rightarrow>
   'n item_stack list \<times> 'n item_stack" where
  "pickup_all_loop mx output [] ss cur = (ss, cur)"
| "pickup_all_loop mx output (i # is) ss cur =
     (if mx \<le> stack_count cur then (ss, cur)
      else if output = Some i then pickup_all_loop mx output is ss cur
      else if same_item (ss ! i) cur then
        (let moved = min (mx - stack_count cur) (stack_count (ss ! i)) in
         pickup_all_loop mx output is
           (ss[i := with_count (ss ! i) (stack_count (ss ! i) - moved)]) (add_count cur moved))
      else pickup_all_loop mx output is ss cur)"

definition pickup_all :: "(item_id \<Rightarrow> u8) \<Rightarrow> 'n window \<Rightarrow> 'n window" where
  "pickup_all ims w =
     (if stack_is_empty (cursor w) then w
      else
        (let (ss, cur) = pickup_all_loop (max_stack ims (cursor w)) (crafting_output (layout w))
           [0..<layout_size (layout w)] (slots w) (cursor w)
         in w\<lparr>slots := ss, cursor := cur\<rparr>))"

definition add_to_slot ::
  "nat \<Rightarrow> item_id \<Rightarrow> 'n data_component list \<Rightarrow> u8 \<Rightarrow> 'n item_stack list \<Rightarrow> 'n item_stack list" where
  "add_to_slot i item comps n ss =
     (if stack_is_empty (ss ! i) then
        ss[i := \<lparr>stack_item = item, stack_count = n, stack_components = comps\<rparr>]
      else ss[i := add_count (ss ! i) n])"

fun drag_left ::
  "u8 \<Rightarrow> u8 \<Rightarrow> nat list \<Rightarrow> 'n item_stack list \<Rightarrow> 'n item_stack \<Rightarrow> 'n item_stack list \<times> 'n item_stack" where
  "drag_left mx each [] ss cur = (ss, cur)"
| "drag_left mx each (i # is) ss cur =
     (if stack_count cur = 0 \<or> each = 0 then (ss, cur)
      else
        (let moved = min (min each (mx - stack_count (ss ! i))) (stack_count cur) in
         if moved = 0 then drag_left mx each is ss cur
         else drag_left mx each is
           (add_to_slot i (stack_item cur) (stack_components cur) moved ss) (take_count cur moved)))"

fun drag_right ::
  "nat list \<Rightarrow> 'n item_stack list \<Rightarrow> 'n item_stack \<Rightarrow> 'n item_stack list \<times> 'n item_stack" where
  "drag_right [] ss cur = (ss, cur)"
| "drag_right (i # is) ss cur =
     (if stack_count cur = 0 then (ss, cur)
      else drag_right is (add_to_slot i (stack_item cur) (stack_components cur) 1 ss) (take_count cur 1))"

fun drag_middle :: "'n item_stack \<Rightarrow> nat list \<Rightarrow> 'n item_stack list \<Rightarrow> 'n item_stack list" where
  "drag_middle full [] ss = ss"
| "drag_middle full (i # is) ss = drag_middle full is (ss[i := full])"

definition eligible :: "u8 \<Rightarrow> 'n item_stack \<Rightarrow> 'n item_stack \<Rightarrow> bool" where
  "eligible mx cur s \<longleftrightarrow>
     stack_is_empty s \<or>
     (stack_item s = stack_item cur \<and> stack_components s = stack_components cur \<and> stack_count s < mx)"

definition apply_drag :: "(item_id \<Rightarrow> u8) \<Rightarrow> drag_state \<Rightarrow> 'n window \<Rightarrow> 'n window" where
  "apply_drag ims d w =
     (if stack_is_empty (cursor w) \<or> drag_slots d = [] then w
      else
        (let cur = cursor w; mx = max_stack ims cur;
             eligibles = filter (\<lambda>i. eligible mx cur (slots w ! i)) (drag_slots d) in
         if eligibles = [] then w
         else
           (let (ss, cur') =
              (case drag_kind d of
                 LeftDrag \<Rightarrow>
                   drag_left mx (stack_count cur div word_of_nat (length eligibles)) eligibles
                     (slots w) cur
               | RightDrag \<Rightarrow> drag_right eligibles (slots w) cur
               | MiddleDrag \<Rightarrow>
                   (drag_middle \<lparr>stack_item = stack_item cur, stack_count = mx,
                      stack_components = stack_components cur\<rparr> eligibles (slots w), cur))
            in w\<lparr>slots := ss, cursor := (if stack_count cur' = 0 then EMPTY_STACK else cur')\<rparr>)))"

definition quick_craft :: "(item_id \<Rightarrow> u8) \<Rightarrow> nat option \<Rightarrow> i8 \<Rightarrow> 'n window \<Rightarrow> 'n window" where
  "quick_craft ims slot button w =
     (if button = 8 \<and> \<not> creative w then w\<lparr>drag := None\<rparr>
      else if button = 0 \<or> button = 4 \<or> button = 8 then
        w\<lparr>drag := Some \<lparr>drag_kind =
            (if button = 0 then LeftDrag else if button = 4 then RightDrag else MiddleDrag),
            drag_slots = []\<rparr>\<rparr>
      else if button = 1 \<or> button = 5 \<or> button = 9 then
        (case (slot, drag w) of
           (Some idx, Some d) \<Rightarrow>
             if idx \<in> set (drag_slots d) then w
             else w\<lparr>drag := Some (d\<lparr>drag_slots := drag_slots d @ [idx]\<rparr>)\<rparr>
         | _ \<Rightarrow> w)
      else if button = 2 \<or> button = 6 \<or> button = 10 then
        (case drag w of
           Some d \<Rightarrow> apply_drag ims d (w\<lparr>drag := None\<rparr>)
         | None \<Rightarrow> w)
      else w\<lparr>drag := None\<rparr>)"

definition apply_click ::
  "(item_id \<Rightarrow> u8) \<Rightarrow> i16 \<Rightarrow> i8 \<Rightarrow> container_input \<Rightarrow> 'n window \<Rightarrow> 'n item_stack list \<times> 'n window" where
  "apply_click ims slot button inp w =
     (if sint slot < 0 \<and> slot \<noteq> SLOT_OUTSIDE then ([], w)
      else
        (let w1 = (if inp \<noteq> QuickCraft then w\<lparr>drag := None\<rparr> else w);
             valid = (if 0 \<le> sint slot \<and> nat (sint slot) < layout_size (layout w1)
                      then Some (nat (sint slot)) else None)
         in case inp of
           Pickup \<Rightarrow>
             (case valid of Some s \<Rightarrow> ([], pickup ims s (button = 1) w1) | None \<Rightarrow> drop_cursor (button = 1) w1)
         | QuickMove \<Rightarrow> ([], case valid of Some s \<Rightarrow> quick_move ims s w1 | None \<Rightarrow> w1)
         | Swap \<Rightarrow> ([], case valid of Some s \<Rightarrow> swap_slots s button w1 | None \<Rightarrow> w1)
         | Clone \<Rightarrow> ([], case valid of Some s \<Rightarrow> clone_stack ims s w1 | None \<Rightarrow> w1)
         | Throw \<Rightarrow> (case valid of Some s \<Rightarrow> throw s button w1 | None \<Rightarrow> ([], w1))
         | QuickCraft \<Rightarrow> ([], quick_craft ims valid button w1)
         | PickupAll \<Rightarrow> ([], case valid of Some _ \<Rightarrow> pickup_all ims w1 | None \<Rightarrow> w1)))"

section \<open>Moving items between stacks\<close>

lemma amount_alt:
  "amount k s = (if stack_item s = AIR \<or> kind_of s \<noteq> k then 0 else unat (stack_count s))"
  by (auto simp: amount_def stack_is_empty_def)

lemma u8_min: "unat (min a b :: u8) = min (unat a) (unat b)"
  by (simp add: min_def word_le_nat_alt)

lemma u8_add: "unat a + unat b < 256 \<Longrightarrow> unat (a + b :: u8) = unat a + unat b"
  by (simp add: unat_plus_if')

lemma u8_pos: "(0 :: u8) < a \<longleftrightarrow> a \<noteq> 0" "1 \<le> (a :: u8) \<longleftrightarrow> a \<noteq> 0"
  by (simp_all add: word_less_nat_alt word_le_nat_alt unat_gt_0 Suc_le_eq)

lemma kind_of_changes [simp]:
  "kind_of (add_count s n) = kind_of s" "kind_of (take_count s n) = kind_of s"
  "stack_item (add_count s n) = stack_item s" "stack_item (take_count s n) = stack_item s"
  "stack_components (add_count s n) = stack_components s"
  "stack_components (take_count s n) = stack_components s"
  "stack_count (add_count s n) = stack_count s + n" "stack_count (take_count s n) = stack_count s - n"
  by (simp_all add: kind_of_def add_count_def take_count_def)

lemma amount_with_count:
  "amount k (with_count s c) = (if stack_item s = AIR \<or> kind_of s \<noteq> k then 0 else unat c)"
  by (simp add: amount_alt with_count_def EMPTY_STACK_def kind_of_def)

lemma amount_with_count_sub: "amount k (with_count s (stack_count s - n)) = amount k (take_count s n)"
  by (simp add: amount_with_count amount_alt [of k "take_count s n"])

lemma amount_transfer:
  assumes "kind_of a = kind_of b" and "unat (stack_count a) + unat n < 256" and "n \<le> stack_count b"
  shows "amount k (add_count a n) + amount k (take_count b n) = amount k a + amount k b"
proof -
  have "unat (stack_count b - n) = unat (stack_count b) - unat n" "unat n \<le> unat (stack_count b)"
    using assms(3) by (simp_all add: unat_sub word_le_nat_alt)
  with assms show ?thesis by (simp add: amount_alt kind_of_def u8_add)
qed

lemma amount_split:
  assumes "n \<le> stack_count b"
  shows "amount k (with_count b n) + amount k (take_count b n) = amount k b"
proof -
  have "unat (stack_count b - n) = unat (stack_count b) - unat n" "unat n \<le> unat (stack_count b)"
    using assms by (simp_all add: unat_sub word_le_nat_alt)
  then show ?thesis
    by (simp add: amount_alt [of k b] amount_alt [of k "take_count b n"] amount_with_count)
qed

lemma same_item_kind: "same_item a b \<Longrightarrow> kind_of a = kind_of b"
  by (simp add: same_item_def kind_of_def)

lemma amount_put:
  assumes "i < length ss" and "amount k t + amount k c = amount k (ss ! i) + amount k cur"
  shows "amounts k (ss[i := t]) + amount k c = amounts k ss + amount k cur"
  using amounts_update [OF assms(1), of k t] assms(2) by simp

text \<open>Room below a maximum, in \<open>u8\<close>.\<close>

lemma fits_below:
  assumes "c \<le> mx" and "n \<le> mx - (c :: u8)"
  shows "unat c + unat n \<le> unat mx" and "unat c + unat n < 256"
proof -
  have "unat (mx - c) = unat mx - unat c" "unat c \<le> unat mx"
    using assms(1) by (simp_all add: unat_sub word_le_nat_alt)
  moreover have "unat n \<le> unat (mx - c)" using assms(2) by (simp add: word_le_nat_alt)
  ultimately show "unat c + unat n \<le> unat mx" by linarith
  then show "unat c + unat n < 256" using u8_less [of mx] by linarith
qed

section \<open>Deposits\<close>

lemma deposit_matching_amount:
  assumes "deposit_matching mx is ss stack = (ss', stack')" and "\<forall>i \<in> set is. i < length ss"
  shows "amounts k ss' + amount k stack' = amounts k ss + amount k stack"
    and "length ss' = length ss" and "kind_of stack' = kind_of stack"
  using assms
proof (induction mx "is" ss stack rule: deposit_matching.induct)
  case (2 mx i "is" ss stack)
  {
    case 1
    show ?case
    proof (cases "stack_count stack \<noteq> 0 \<and> same_item (ss ! i) stack \<and> stack_count (ss ! i) < mx")
      case True
      let ?m = "min (mx - stack_count (ss ! i)) (stack_count stack)"
      have "unat (stack_count (ss ! i)) + unat ?m < 256"
        using True by (intro fits_below(2) [of _ mx]) auto
      then have "amounts k (ss[i := add_count (ss ! i) ?m]) + amount k (take_count stack ?m) =
          amounts k ss + amount k stack"
        using 1(2) True by (intro amount_put amount_transfer) (auto dest: same_item_kind)
      with 2(1) 1 True show ?thesis by (simp add: Let_def)
    next
      case False
      with 2(4) 1 show ?thesis by (auto split: if_splits)
    qed
  next
    case 2
    with "2.IH" show ?case by (auto simp: Let_def split: if_splits)
  next
    case 3
    with "2.IH" show ?case by (auto simp: Let_def split: if_splits)
  }
qed auto

lemma deposit_empty_amount:
  assumes "deposit_empty mx is ss stack = (ss', stack')" and "\<forall>i \<in> set is. i < length ss"
  shows "amounts k ss' + amount k stack' = amounts k ss + amount k stack"
    and "length ss' = length ss" and "kind_of stack' = kind_of stack"
  using assms
proof (induction mx "is" ss stack rule: deposit_empty.induct)
  case (2 mx i "is" ss stack)
  {
    case 1
    show ?case
    proof (cases "stack_count stack \<noteq> 0 \<and> stack_is_empty (ss ! i)")
      case True
      let ?m = "min (stack_count stack) mx"
      have "amount k (with_count stack ?m) + amount k (take_count stack ?m) = amount k stack"
        by (rule amount_split) simp
      then have "amounts k (ss[i := with_count stack ?m]) + amount k (take_count stack ?m) =
          amounts k ss + amount k stack"
        using 1(2) True by (intro amount_put) auto
      with 2(1) 1 True show ?thesis by (simp add: Let_def)
    next
      case False
      with 2(4) 1 show ?thesis by (auto split: if_splits)
    qed
  next
    case 2
    with "2.IH" show ?case by (auto simp: Let_def split: if_splits)
  next
    case 3
    with "2.IH" show ?case by (auto simp: Let_def split: if_splits)
  }
qed auto

lemma deposit_amount:
  assumes "deposit ims is ss stack = (ss', stack')" and "\<forall>i \<in> set is. i < length ss"
  shows "amounts k ss' + amount k stack' = amounts k ss + amount k stack"
    and "length ss' = length ss" and "kind_of stack' = kind_of stack"
proof -
  obtain ss1 st1 where 1: "deposit_matching (max_stack ims stack) is ss stack = (ss1, st1)"
    and 2: "deposit_empty (max_stack ims stack) is ss1 st1 = (ss', stack')"
    using assms(1) by (auto simp: deposit_def Let_def split: prod.splits)
  note m = deposit_matching_amount [OF 1 assms(2)]
  then have "\<forall>i \<in> set is. i < length ss1" using assms(2) by simp
  note e = deposit_empty_amount [OF 2 this]
  show "amounts k ss' + amount k stack' = amounts k ss + amount k stack"
    using m(1) [of k] e(1) [of k] by simp
  show "length ss' = length ss" "kind_of stack' = kind_of stack" using m e by simp_all
qed

text \<open>What a deposit that leaves a rest has achieved: the targets are full.\<close>

lemma deposit_matching_grows:
  assumes "deposit_matching mx is ss stack = (ss', stack')" and "\<forall>i \<in> set is. i < length ss"
  shows "kind_of (ss' ! j) = kind_of (ss ! j) \<and> stack_count (ss ! j) \<le> stack_count (ss' ! j)"
  using assms
proof (induction mx "is" ss stack rule: deposit_matching.induct)
  case (2 mx i "is" ss stack)
  show ?case
  proof (cases "stack_count stack \<noteq> 0 \<and> same_item (ss ! i) stack \<and> stack_count (ss ! i) < mx")
    case True
    let ?n = "min (mx - stack_count (ss ! i)) (stack_count stack)"
    have "unat (stack_count (ss ! i)) + unat ?n < 256"
      using True by (intro fits_below(2) [of _ mx]) auto
    then have le: "stack_count (ss ! i) \<le> stack_count (ss ! i) + ?n"
      by (simp only: word_le_nat_alt u8_add)
    have "kind_of (ss' ! j) = kind_of (ss[i := add_count (ss ! i) ?n] ! j) \<and>
        stack_count (ss[i := add_count (ss ! i) ?n] ! j) \<le> stack_count (ss' ! j)"
      using 2(1) [OF _ _ refl] 2(3,4) True by (simp add: Let_def)
    then show ?thesis using le 2(4) by (cases "j = i") (auto intro: order_trans)
  next
    case False
    with 2 show ?thesis by (auto split: if_splits)
  qed
qed simp

lemma deposit_matching_empty:
  assumes "deposit_matching mx is ss stack = (ss', stack')" and "\<forall>i \<in> set is. i < length ss"
    and "stack_is_empty (ss ! j)"
  shows "ss' ! j = ss ! j"
  using assms
proof (induction mx "is" ss stack rule: deposit_matching.induct)
  case (2 mx i "is" ss stack)
  show ?case
  proof (cases "stack_count stack \<noteq> 0 \<and> same_item (ss ! i) stack \<and> stack_count (ss ! i) < mx")
    case True
    then have "j \<noteq> i" using 2(5) by (auto simp: same_item_def)
    with 2(1) [OF _ _ refl] 2(3-5) True show ?thesis by (simp add: Let_def)
  next
    case False
    with 2 show ?thesis by (auto split: if_splits)
  qed
qed simp

lemma deposit_matching_full:
  assumes "deposit_matching mx is ss stack = (ss', stack')" and "\<forall>i \<in> set is. i < length ss"
    and "stack_count stack' \<noteq> 0"
  shows "\<forall>i \<in> set is. same_item (ss' ! i) stack \<longrightarrow> mx \<le> stack_count (ss' ! i)"
  using assms
proof (induction mx "is" ss stack rule: deposit_matching.induct)
  case (2 mx i "is" ss stack)
  show ?case
  proof (cases "stack_count stack = 0")
    case True
    with 2(3,5) show ?thesis by simp
  next
    case nz: False
    show ?thesis
    proof (cases "same_item (ss ! i) stack \<and> stack_count (ss ! i) < mx")
      case True
      let ?n = "min (mx - stack_count (ss ! i)) (stack_count stack)"
      let ?ss = "ss[i := add_count (ss ! i) ?n]"
      have run: "deposit_matching mx is ?ss (take_count stack ?n) = (ss', stack')"
        using 2(3) nz True by (simp add: Let_def)
      have rest: "\<forall>i \<in> set is. same_item (ss' ! i) (take_count stack ?n) \<longrightarrow> mx \<le> stack_count (ss' ! i)"
        using 2(1) [OF nz True refl run] 2(4,5) by simp
      have "?n \<noteq> stack_count stack"
      proof
        assume "?n = stack_count stack"
        then have "stack_count (take_count stack ?n) = 0" by simp
        then have "stack' = take_count stack ?n" using run by (cases "is") auto
        with \<open>stack_count (take_count stack ?n) = 0\<close> 2(5) show False by simp
      qed
      then have "?n = mx - stack_count (ss ! i)" by (auto simp: min_def split: if_splits)
      then have "stack_count (?ss ! i) = mx" using 2(4) by simp
      then have "mx \<le> stack_count (ss' ! i)"
        using deposit_matching_grows [OF run, of i] 2(4) by simp
      with rest show ?thesis by (simp add: same_item_def)
    next
      case False
      then have run: "deposit_matching mx is ss stack = (ss', stack')" using 2(3) nz by auto
      have rest: "\<forall>i \<in> set is. same_item (ss' ! i) stack \<longrightarrow> mx \<le> stack_count (ss' ! i)"
        using 2(2) [OF nz False run] 2(4,5) by simp
      have rng: "\<forall>i \<in> set is. i < length ss" using 2(4) by simp
      have "kind_of (ss' ! i) = kind_of (ss ! i)" "stack_count (ss ! i) \<le> stack_count (ss' ! i)"
        using deposit_matching_grows [OF run rng, of i] by auto
      then have "same_item (ss' ! i) stack \<longrightarrow> mx \<le> stack_count (ss' ! i)"
      proof (intro impI)
        assume si: "same_item (ss' ! i) stack"
        show "mx \<le> stack_count (ss' ! i)"
        proof (rule ccontr)
          assume low: "\<not> mx \<le> stack_count (ss' ! i)"
          then have "\<not> same_item (ss ! i) stack"
            using False \<open>stack_count (ss ! i) \<le> stack_count (ss' ! i)\<close> by auto
          then have "stack_is_empty (ss ! i)"
            using si \<open>kind_of (ss' ! i) = kind_of (ss ! i)\<close> by (simp add: same_item_def kind_of_def)
          moreover have "ss' ! i = ss ! i"
            using deposit_matching_empty [OF run rng calculation] .
          ultimately show False using si by (simp add: same_item_def)
        qed
      qed
      with rest show ?thesis by simp
    qed
  qed
qed simp

lemma deposit_empty_kept:
  assumes "deposit_empty mx is ss stack = (ss', stack')" and "\<not> stack_is_empty (ss ! j)"
  shows "ss' ! j = ss ! j"
  using assms
proof (induction mx "is" ss stack rule: deposit_empty.induct)
  case (2 mx i "is" ss stack)
  show ?case
  proof (cases "stack_count stack \<noteq> 0 \<and> stack_is_empty (ss ! i)")
    case True
    then have "j \<noteq> i" using 2(4) by auto
    with 2(1) [OF _ _ refl] 2(3-4) True show ?thesis by (simp add: Let_def)
  next
    case False
    with 2 show ?thesis by (auto split: if_splits)
  qed
qed simp

lemma deposit_empty_full:
  assumes "deposit_empty mx is ss stack = (ss', stack')" and "\<forall>i \<in> set is. i < length ss"
    and "stack_count stack' \<noteq> 0" and "stack_item stack \<noteq> AIR" and "mx \<noteq> 0"
  shows "\<forall>i \<in> set is. \<not> stack_is_empty (ss' ! i) \<and>
    (ss' ! i = ss ! i \<or> stack_is_empty (ss ! i) \<and> mx \<le> stack_count (ss' ! i))"
  using assms
proof (induction mx "is" ss stack rule: deposit_empty.induct)
  case (2 mx i "is" ss stack)
  show ?case
  proof (cases "stack_count stack = 0")
    case True
    with 2(3,5) show ?thesis by simp
  next
    case nz: False
    show ?thesis
    proof (cases "stack_is_empty (ss ! i)")
      case True
      let ?n = "min (stack_count stack) mx"
      let ?ss = "ss[i := with_count stack ?n]"
      have run: "deposit_empty mx is ?ss (take_count stack ?n) = (ss', stack')"
        using 2(3) nz True by (simp add: Let_def)
      have rest: "\<forall>i \<in> set is. \<not> stack_is_empty (ss' ! i) \<and>
          (ss' ! i = ?ss ! i \<or> stack_is_empty (?ss ! i) \<and> mx \<le> stack_count (ss' ! i))"
        using 2(1) [OF nz True refl run] 2(4-7) by simp
      have "?n \<noteq> stack_count stack"
      proof
        assume "?n = stack_count stack"
        then have "stack_count (take_count stack ?n) = 0" by simp
        then have "stack' = take_count stack ?n" using run by (cases "is") auto
        with \<open>stack_count (take_count stack ?n) = 0\<close> 2(5) show False by simp
      qed
      then have n: "?n = mx" by (auto simp: min_def split: if_splits)
      then have new: "\<not> stack_is_empty (?ss ! i)" "stack_count (?ss ! i) = mx"
        using 2(4,6,7) by (simp_all add: with_count_def stack_is_empty_def)
      then have "ss' ! i = ?ss ! i" by (intro deposit_empty_kept [OF run])
      then have here: "\<not> stack_is_empty (ss' ! i) \<and> mx \<le> stack_count (ss' ! i)" using new by simp
      have "\<not> stack_is_empty (ss' ! j) \<and>
          (ss' ! j = ss ! j \<or> stack_is_empty (ss ! j) \<and> mx \<le> stack_count (ss' ! j))"
        if "j \<in> set (i # is)" for j
      proof (cases "j = i")
        case False
        with rest that show ?thesis by auto
      qed (use here True in simp)
      then show ?thesis by blast
    next
      case False
      then have run: "deposit_empty mx is ss stack = (ss', stack')" using 2(3) nz by simp
      have "ss' ! i = ss ! i" by (rule deposit_empty_kept [OF run False])
      with 2(2) [OF nz False run] 2(4-7) False show ?thesis by simp
    qed
  qed
qed simp

lemma deposit_full:
  assumes run: "deposit ims is ss stack = (ss', stack')" and rng: "\<forall>i \<in> set is. i < length ss"
    and "\<not> stack_is_empty stack" and left: "stack_count stack' \<noteq> 0" and "ims (stack_item stack) \<noteq> 0"
  shows "\<forall>i \<in> set is. \<not> stack_is_empty (ss' ! i) \<and>
    (kind_of (ss' ! i) = kind_of stack \<longrightarrow> ims (stack_item stack) \<le> stack_count (ss' ! i))"
proof
  fix i assume i: "i \<in> set is"
  let ?mx = "max_stack ims stack"
  have mx: "?mx = ims (stack_item stack)" using assms(3) by (simp add: max_stack_def)
  obtain ss1 st1 where 1: "deposit_matching ?mx is ss stack = (ss1, st1)"
    and 2: "deposit_empty ?mx is ss1 st1 = (ss', stack')"
    using run by (auto simp: deposit_def Let_def split: prod.splits)
  note amt = deposit_matching_amount(2,3) [OF 1 rng]
  then have rng1: "\<forall>i \<in> set is. i < length ss1" using rng by simp
  have item: "stack_item st1 \<noteq> AIR"
    using amt(2) assms(3) by (auto simp: kind_of_def stack_is_empty_def)
  have st1: "stack_count st1 \<noteq> 0"
  proof
    assume z: "stack_count st1 = 0"
    then have "stack' = st1" using 2 by (cases "is") auto
    with z left show False by simp
  qed
  from deposit_empty_full [OF 2 rng1 left item] assms(5) mx i
  have e: "\<not> stack_is_empty (ss' ! i)" "ss' ! i = ss1 ! i \<or> ?mx \<le> stack_count (ss' ! i)"
    by auto
  moreover have "same_item (ss1 ! i) stack \<longrightarrow> ?mx \<le> stack_count (ss1 ! i)"
    using deposit_matching_full [OF 1 rng st1] i by blast
  ultimately show "\<not> stack_is_empty (ss' ! i) \<and>
      (kind_of (ss' ! i) = kind_of stack \<longrightarrow> ims (stack_item stack) \<le> stack_count (ss' ! i))"
    using mx by (auto simp: same_item_def kind_of_def)
qed

text \<open>A slot that is not a target is not touched.\<close>

lemma deposit_matching_other: "deposit_matching mx is ss stack = (ss', st') \<Longrightarrow> j \<notin> set is \<Longrightarrow> ss' ! j = ss ! j"
  by (induction mx "is" ss stack rule: deposit_matching.induct) (auto simp: Let_def split: if_splits)

lemma deposit_empty_other: "deposit_empty mx is ss stack = (ss', st') \<Longrightarrow> j \<notin> set is \<Longrightarrow> ss' ! j = ss ! j"
  by (induction mx "is" ss stack rule: deposit_empty.induct) (auto simp: Let_def split: if_splits)

lemma deposit_other: "deposit ims is ss stack = (ss', st') \<Longrightarrow> j \<notin> set is \<Longrightarrow> ss' ! j = ss ! j"
  by (auto simp: deposit_def Let_def split: prod.splits
      dest!: deposit_matching_other [where j = j] deposit_empty_other [where j = j])

section \<open>The well-formed windows\<close>

definition layout_ok :: "layout \<Rightarrow> bool" where
  "layout_ok l \<longleftrightarrow> l = PLAYER \<or> (\<exists>n b. l = menu_layout n b)"

definition drag_ok :: "nat \<Rightarrow> drag_state option \<Rightarrow> bool" where
  "drag_ok n d \<longleftrightarrow> (case d of None \<Rightarrow> True
     | Some d \<Rightarrow> distinct (drag_slots d) \<and> (\<forall>i \<in> set (drag_slots d). i < n))"

definition window_ok :: "'n window \<Rightarrow> bool" where
  "window_ok w \<longleftrightarrow> layout_ok (layout w) \<and> length (slots w) = layout_size (layout w) \<and>
     drag_ok (layout_size (layout w)) (drag w)"

definition window_amount :: "'n kind \<Rightarrow> 'n window \<Rightarrow> nat" where
  "window_amount k w = amounts k (slots w) + amount k (cursor w)"

lemma menu_not_player: "menu_layout n b \<noteq> PLAYER"
  by (simp add: menu_layout_def PLAYER_def Let_def split: prod.splits)

lemma quick_move_targets_ok:
  assumes "layout_ok l" and "src < layout_size l"
  shows "\<forall>i \<in> set (quick_move_targets l src). i < layout_size l" and "src \<notin> set (quick_move_targets l src)"
proof -
  have "(\<forall>i \<in> set (quick_move_targets l src). i < layout_size l) \<and> src \<notin> set (quick_move_targets l src)"
  proof (cases "l = PLAYER")
    case True
    then show ?thesis
      by (auto simp: quick_move_targets_def is_player_window_def in_range_def range_list_def PLAYER_def)
  next
    case False
    then obtain n b where l: "l = menu_layout n b" using assms(1) by (auto simp: layout_ok_def)
    have parts: "container l = (0, n)" "fst (main l) = n" "snd (hotbar l) = layout_size l"
      "n \<le> layout_size l"
      by (auto simp: l menu_layout_def)
    then show ?thesis
      using False by (auto simp: quick_move_targets_def is_player_window_def in_range_def range_list_def)
  qed
  then show "\<forall>i \<in> set (quick_move_targets l src). i < layout_size l"
    and "src \<notin> set (quick_move_targets l src)" by blast+
qed

lemma swap_target_ok: "layout_ok l \<Longrightarrow> swap_target l b = Some t \<Longrightarrow> t < layout_size l"
  unfolding layout_ok_def
  by (elim disjE exE)
    (auto simp: swap_target_def in_range_def PLAYER_def menu_layout_def Let_def split: if_splits)

section \<open>No handler creates or destroys items\<close>

lemma half_up_le: "n \<noteq> 0 \<Longrightarrow> half_up n \<le> n"
proof -
  assume n: "n \<noteq> 0"
  then have pos: "0 < unat n" by (simp add: unat_gt_0)
  have le: "div_ceil (unat n) 2 \<le> unat n" using pos by (simp add: div_ceil_def)
  have "div_ceil (unat n) 2 < 2 ^ 8" by (rule le_less_trans [OF le]) simp
  then have "take_bit 8 (div_ceil (unat n) 2) = div_ceil (unat n) 2" by (rule take_bit_nat_eq_self)
  then have "unat (half_up n) = div_ceil (unat n) 2"
    by (simp add: half_up_def unsigned_of_nat)
  with le show ?thesis by (simp add: word_le_nat_alt)
qed

text \<open>A stack that is not above its item's maximum.\<close>

definition stack_ok :: "(item_id \<Rightarrow> u8) \<Rightarrow> 'n item_stack \<Rightarrow> bool" where
  "stack_ok ims s \<longleftrightarrow> stack_is_empty s \<or> stack_count s \<le> ims (stack_item s)"

lemma stack_ok_EMPTY [simp]: "stack_ok ims EMPTY_STACK"
  by (simp add: stack_ok_def)

lemma stack_ok_with_count: "c \<le> ims (stack_item s) \<Longrightarrow> stack_ok ims (with_count s c)"
  by (simp add: stack_ok_def with_count_def)

lemma stack_ok_less: "stack_ok ims s \<Longrightarrow> \<not> stack_is_empty s \<Longrightarrow> c \<le> stack_count s \<Longrightarrow> stack_ok ims (with_count s c)"
  by (rule stack_ok_with_count) (simp add: stack_ok_def)

lemma u8_minus_le: "n \<le> c \<Longrightarrow> (c :: u8) - n \<le> c"
  by (simp add: word_le_nat_alt unat_sub)

lemma pickup_spec:
  assumes t: "t0 = slots w ! slot" and c: "c0 = cursor w"
  shows "\<exists>t c. pickup ims slot right w = w\<lparr>slots := (slots w)[slot := t], cursor := c\<rparr> \<and>
    (\<forall>k. amount k t + amount k c = amount k t0 + amount k c0) \<and>
    ((\<forall>i. ims i \<noteq> 0) \<longrightarrow> stack_ok ims t0 \<longrightarrow> stack_ok ims c0 \<longrightarrow> stack_ok ims t \<and> stack_ok ims c)"
    (is "\<exists>t c. ?P t c \<and> ?A t c \<and> ?O t c")
proof -
  have same: "?P t0 c0" if "pickup ims slot right w = w"
    using that t c by simp
  consider (none) "stack_is_empty c0" "stack_is_empty t0"
    | (half) "stack_is_empty c0" "\<not> stack_is_empty t0" right
    | (full) "stack_is_empty c0" "\<not> stack_is_empty t0" "\<not> right"
    | (one) "\<not> stack_is_empty c0" "stack_is_empty t0" right
    | (lay) "\<not> stack_is_empty c0" "stack_is_empty t0" "\<not> right"
    | (merge) "\<not> stack_is_empty c0" "\<not> stack_is_empty t0" "same_item t0 c0"
        "0 < saturating_sub8 (max_stack ims c0) (stack_count t0)"
    | (stuck) "\<not> stack_is_empty c0" "\<not> stack_is_empty t0" "same_item t0 c0"
        "\<not> 0 < saturating_sub8 (max_stack ims c0) (stack_count t0)"
    | (swap) "\<not> stack_is_empty c0" "\<not> stack_is_empty t0" "\<not> same_item t0 c0"
    by blast
  then show ?thesis
  proof cases
    case none
    then show ?thesis using t c
      by (intro exI [of _ t0] exI [of _ c0]) (simp add: pickup_def Let_def)
  next
    case half
    let ?n = "half_up (stack_count t0)"
    have le: "?n \<le> stack_count t0" using half(2) by (intro half_up_le) (simp add: stack_is_empty_def)
    have "?P (with_count t0 (stack_count t0 - ?n)) (with_count t0 ?n)"
      using half t c by (simp add: pickup_def Let_def)
    moreover have "?A (with_count t0 (stack_count t0 - ?n)) (with_count t0 ?n)"
      using amount_split [OF le] half(1) by (simp add: amount_with_count_sub add.commute)
    moreover have "?O (with_count t0 (stack_count t0 - ?n)) (with_count t0 ?n)"
      using half(2) le u8_minus_le [OF le] by (simp add: stack_ok_less)
    ultimately show ?thesis by blast
  next
    case full
    then show ?thesis using t c
      by (intro exI [of _ EMPTY_STACK] exI [of _ t0]) (simp add: pickup_def Let_def)
  next
    case one
    have le: "1 \<le> stack_count c0" using one(1) by (simp add: stack_is_empty_def u8_pos)
    have "?P (with_count c0 1) (with_count c0 (stack_count c0 - 1))"
      using one t c by (simp add: pickup_def Let_def)
    moreover have "?A (with_count c0 1) (with_count c0 (stack_count c0 - 1))"
      using amount_split [OF le] one(2) by (simp add: amount_with_count_sub)
    moreover have "?O (with_count c0 1) (with_count c0 (stack_count c0 - 1))"
      using one(1) le u8_minus_le [OF le] by (simp add: stack_ok_less)
    ultimately show ?thesis by blast
  next
    case lay
    then show ?thesis using t c
      by (intro exI [of _ c0] exI [of _ EMPTY_STACK]) (simp add: pickup_def Let_def)
  next
    case merge
    let ?mx = "max_stack ims c0"
    let ?n = "min (if right then 1 else stack_count c0) (saturating_sub8 ?mx (stack_count t0))"
    have le: "?n \<le> stack_count c0" using merge(1) by (auto simp: stack_is_empty_def u8_pos min_le_iff_disj)
    have below: "stack_count t0 \<le> ?mx" "?n \<le> ?mx - stack_count t0"
      using merge(4) by (auto simp: saturating_sub8_def split: if_splits)
    have kind: "kind_of t0 = kind_of c0" "stack_item t0 = stack_item c0"
      using merge(3) by (simp_all add: same_item_def kind_of_def)
    have "?P (add_count t0 ?n) (with_count c0 (stack_count c0 - ?n))"
      using merge t c by (simp add: pickup_def Let_def)
    moreover have "?A (add_count t0 ?n) (with_count c0 (stack_count c0 - ?n))"
      using amount_transfer [OF kind(1) fits_below(2) [OF below] le] by (simp add: amount_with_count_sub)
    moreover have "stack_ok ims (add_count t0 ?n)"
      using fits_below [OF below] merge(1) kind(2)
      by (simp add: stack_ok_def max_stack_def word_le_nat_alt u8_add)
    moreover have "stack_ok ims c0 \<longrightarrow> stack_ok ims (with_count c0 (stack_count c0 - ?n))"
      using merge(1) u8_minus_le [OF le] by (simp add: stack_ok_less)
    ultimately show ?thesis by blast
  next
    case stuck
    then show ?thesis using t c
      by (intro exI [of _ t0] exI [of _ c0]) (simp add: pickup_def Let_def)
  next
    case swap
    then show ?thesis using t c
      by (intro exI [of _ c0] exI [of _ t0]) (simp add: pickup_def Let_def)
  qed
qed

lemma pickup_amount:
  assumes "slot < length (slots w)"
  shows "window_amount k (pickup ims slot right w) = window_amount k w"
proof -
  obtain t c where "pickup ims slot right w = w\<lparr>slots := (slots w)[slot := t], cursor := c\<rparr>"
    and "amount k t + amount k c = amount k (slots w ! slot) + amount k (cursor w)"
    using pickup_spec [OF refl refl, of ims slot right w] by blast
  then show ?thesis using amount_put [OF assms] by (simp add: window_amount_def)
qed

lemma quick_move_amount:
  assumes "window_ok w" and "slot < layout_size (layout w)"
  shows "window_amount k (quick_move ims slot w) = window_amount k w"
proof (cases "stack_is_empty (slots w ! slot)")
  case True
  then show ?thesis
    using assms amounts_update [of slot "slots w" k EMPTY_STACK]
    by (simp add: quick_move_def window_amount_def window_ok_def)
next
  case False
  let ?ss = "(slots w)[slot := EMPTY_STACK]"
  let ?is = "quick_move_targets (layout w) slot"
  obtain ss st where d: "deposit ims ?is ?ss (slots w ! slot) = (ss, st)" by fastforce
  have len: "slot < length (slots w)" using assms by (simp add: window_ok_def)
  have rng: "\<forall>i \<in> set ?is. i < length ?ss" and "slot \<notin> set ?is"
    using quick_move_targets_ok [of "layout w" slot] assms by (auto simp: window_ok_def)
  then have "ss ! slot = EMPTY_STACK" using deposit_other [OF d] len by simp
  moreover have "length ss = length (slots w)" using deposit_amount(2) [OF d rng] by simp
  ultimately have "amounts k (ss[slot := st]) = amounts k ss + amount k st"
    using amounts_update [of slot ss k st] len by simp
  moreover have "amounts k ss + amount k st = amounts k ?ss + amount k (slots w ! slot)"
    by (rule deposit_amount(1) [OF d rng])
  moreover have "amounts k ?ss + amount k (slots w ! slot) = amounts k (slots w)"
    using amounts_update [OF len, of k EMPTY_STACK] by simp
  ultimately show ?thesis using False d by (simp add: quick_move_def window_amount_def)
qed

lemma swap_slots_amount:
  assumes "window_ok w" and "slot < layout_size (layout w)"
  shows "window_amount k (swap_slots slot b w) = window_amount k w"
proof (cases "swap_target (layout w) b")
  case (Some t)
  then have t: "t < length (slots w)" and s: "slot < length (slots w)"
    using swap_target_ok assms by (auto simp: window_ok_def)
  show ?thesis
  proof (cases "t = slot")
    case False
    let ?ss = "(slots w)[slot := slots w ! t]"
    have "amounts k (?ss[t := slots w ! slot]) + amount k (?ss ! t) = amounts k ?ss + amount k (slots w ! slot)"
      using t by (intro amounts_update) simp
    moreover have "amounts k ?ss + amount k (slots w ! slot) = amounts k (slots w) + amount k (slots w ! t)"
      by (rule amounts_update [OF s])
    ultimately show ?thesis using Some False by (simp add: swap_slots_def window_amount_def)
  qed (simp add: swap_slots_def Some)
qed (simp add: swap_slots_def)

lemma throw_amount:
  assumes "slot < length (slots w)" and "throw slot b w = (out, w')"
  shows "window_amount k w' + amounts k out = window_amount k w"
proof -
  let ?t = "slots w ! slot"
  have "amount k (with_count ?t 1) + amount k (with_count ?t (stack_count ?t - 1)) = amount k ?t"
    if "\<not> stack_is_empty ?t"
    using amount_split [of 1 ?t k] that by (simp add: amount_with_count_sub stack_is_empty_def u8_pos)
  then show ?thesis
    using assms(2) amounts_update [OF assms(1), of k EMPTY_STACK]
      amounts_update [OF assms(1), of k "with_count ?t (stack_count ?t - 1)"]
    by (auto simp: throw_def Let_def window_amount_def split: if_splits)
qed

lemma drop_cursor_amount:
  assumes "drop_cursor single w = (out, w')"
  shows "window_amount k w' + amounts k out = window_amount k w"
proof -
  let ?c = "cursor w"
  have "amount k (with_count ?c 1) + amount k (with_count ?c (stack_count ?c - 1)) = amount k ?c"
    if "\<not> stack_is_empty ?c"
    using amount_split [of 1 ?c k] that by (simp add: amount_with_count_sub stack_is_empty_def u8_pos)
  then show ?thesis
    using assms by (auto simp: drop_cursor_def window_amount_def split: if_splits)
qed

lemma pickup_all_loop_amount:
  assumes "pickup_all_loop mx output is ss cur = (ss', cur')" and "\<forall>i \<in> set is. i < length ss"
  shows "amounts k ss' + amount k cur' = amounts k ss + amount k cur \<and> length ss' = length ss"
  using assms
proof (induction mx "output" "is" ss cur rule: pickup_all_loop.induct)
  case (2 mx outp i "is" ss cur)
  show ?case
  proof (cases "\<not> mx \<le> stack_count cur \<and> outp \<noteq> Some i \<and> same_item (ss ! i) cur")
    case True
    let ?s = "ss ! i"
    let ?n = "min (mx - stack_count cur) (stack_count ?s)"
    have "unat (stack_count cur) + unat ?n < 256" using True by (intro fits_below(2) [of _ mx]) auto
    then have "amount k (add_count cur ?n) + amount k (take_count ?s ?n) = amount k cur + amount k ?s"
      using True by (intro amount_transfer) (auto dest: same_item_kind)
    then have "amounts k (ss[i := with_count ?s (stack_count ?s - ?n)]) + amount k (add_count cur ?n) =
        amounts k ss + amount k cur"
      using 2(5) by (intro amount_put) (auto simp: amount_with_count_sub)
    with 2(2) [OF _ _ _ refl] 2(4,5) True show ?thesis by (simp add: Let_def)
  next
    case False
    with 2 show ?thesis by (auto split: if_splits)
  qed
qed simp

lemma pickup_all_amount:
  assumes "window_ok w"
  shows "window_amount k (pickup_all ims w) = window_amount k w"
  using assms pickup_all_loop_amount [of "max_stack ims (cursor w)" "crafting_output (layout w)"
      "[0..<layout_size (layout w)]" "slots w" "cursor w"]
  by (auto simp: pickup_all_def window_amount_def window_ok_def split: prod.splits)

section \<open>Drags\<close>

lemma add_to_slot_amount:
  assumes i: "i < length ss" and n: "n \<le> stack_count cur"
    and kind: "stack_is_empty (ss ! i) \<or>
      kind_of (ss ! i) = kind_of cur \<and> unat (stack_count (ss ! i)) + unat n < 256"
  shows "amounts k (add_to_slot i (stack_item cur) (stack_components cur) n ss) +
    amount k (take_count cur n) = amounts k ss + amount k cur"
proof (cases "stack_is_empty (ss ! i)")
  case True
  let ?s = "\<lparr>stack_item = stack_item cur, stack_count = n, stack_components = stack_components cur\<rparr>"
  have "amount k ?s = amount k (with_count cur n)"
    by (simp add: amount_with_count amount_alt [of k ?s] kind_of_def)
  then have "amount k ?s + amount k (take_count cur n) = amount k (ss ! i) + amount k cur"
    using amount_split [OF n] True by simp
  then show ?thesis using True amount_put [OF i] by (simp add: add_to_slot_def)
next
  case False
  then show ?thesis
    using amount_put [OF i amount_transfer [OF _ _ n]] kind by (simp add: add_to_slot_def)
qed

lemma add_to_slot_nth:
  "length (add_to_slot i item comps n ss) = length ss"
  "j \<noteq> i \<Longrightarrow> add_to_slot i item comps n ss ! j = ss ! j"
  by (simp_all add: add_to_slot_def)

definition stacks_ok :: "(item_id \<Rightarrow> u8) \<Rightarrow> 'n item_stack list \<Rightarrow> bool" where
  "stacks_ok ims ss \<longleftrightarrow> (\<forall>s \<in> set ss. stack_ok ims s)"

lemma stacks_ok_update: "stacks_ok ims ss \<Longrightarrow> stack_ok ims s \<Longrightarrow> stacks_ok ims (ss[i := s])"
  using set_update_subset_insert [of ss i s] by (auto simp: stacks_ok_def)

lemma stacks_ok_nth: "stacks_ok ims ss \<Longrightarrow> i < length ss \<Longrightarrow> stack_ok ims (ss ! i)"
  by (simp add: stacks_ok_def)

lemma stack_ok_take: "n \<le> stack_count s \<Longrightarrow> stack_ok ims s \<Longrightarrow> stack_ok ims (take_count s n)"
  by (auto simp: stack_ok_def stack_is_empty_def word_le_nat_alt unat_sub)

lemma stack_ok_add:
  assumes "stack_count s \<le> mx" "n \<le> mx - stack_count s" "mx \<le> ims (stack_item s)"
  shows "stack_ok ims (add_count s n)"
  using fits_below [OF assms(1,2)] assms(3) by (simp add: stack_ok_def word_le_nat_alt u8_add)

text \<open>What makes a slot a target of a drag.\<close>

definition drag_target :: "u8 \<Rightarrow> 'n item_stack list \<Rightarrow> 'n item_stack \<Rightarrow> nat \<Rightarrow> bool" where
  "drag_target mx ss cur i \<longleftrightarrow> i < length ss \<and>
     (stack_is_empty (ss ! i) \<or> kind_of (ss ! i) = kind_of cur \<and> stack_count (ss ! i) < mx)"

lemma drag_target_step:
  assumes "distinct (i # is)" and "\<forall>j \<in> set (i # is). drag_target mx ss cur j"
  shows "\<forall>j \<in> set is. drag_target mx (add_to_slot i (stack_item cur) (stack_components cur) n ss)
    (take_count cur n) j"
proof
  fix j
  assume j: "j \<in> set is"
  then have "j \<noteq> i" using assms(1) by auto
  moreover have "drag_target mx ss cur j" using assms(2) j by simp
  ultimately show "drag_target mx (add_to_slot i (stack_item cur) (stack_components cur) n ss)
      (take_count cur n) j"
    by (simp add: drag_target_def add_to_slot_nth)
qed

lemma add_to_slot_ok:
  assumes "drag_target mx ss cur i" and "n \<le> mx - stack_count (ss ! i)" "n \<le> stack_count cur"
    and "mx = ims (stack_item cur)" and "stacks_ok ims ss" "stack_ok ims cur" "\<not> stack_is_empty cur"
  shows "stacks_ok ims (add_to_slot i (stack_item cur) (stack_components cur) n ss)"
proof (cases "stack_is_empty (ss ! i)")
  case True
  have "n \<le> ims (stack_item cur)" using assms(3,6,7) by (auto simp: stack_ok_def)
  with True assms(5) show ?thesis
    by (simp add: add_to_slot_def stacks_ok_update stack_ok_def)
next
  case False
  then have "stack_count (ss ! i) \<le> mx" "stack_item (ss ! i) = stack_item cur"
    using assms(1) by (auto simp: drag_target_def kind_of_def)
  with False assms(2,4,5) show ?thesis
    by (simp add: add_to_slot_def stacks_ok_update stack_ok_add)
qed

lemma drag_target_add:
  assumes "drag_target mx ss cur i" and "n \<le> mx - stack_count (ss ! i)"
  shows "stack_is_empty (ss ! i) \<or>
    kind_of (ss ! i) = kind_of cur \<and> unat (stack_count (ss ! i)) + unat n < 256"
  using assms fits_below(2) [of "stack_count (ss ! i)" mx n] by (auto simp: drag_target_def)

lemma drag_left_spec:
  assumes "drag_left mx each is ss cur = (ss', cur')" and "distinct is"
    and "\<forall>i \<in> set is. drag_target mx ss cur i"
  shows "amounts k ss' + amount k cur' = amounts k ss + amount k cur \<and> length ss' = length ss \<and>
    (mx = ims (stack_item cur) \<longrightarrow> stacks_ok ims ss \<longrightarrow> stack_ok ims cur \<longrightarrow> stack_item cur \<noteq> AIR \<longrightarrow>
      stacks_ok ims ss' \<and> stack_ok ims cur')"
  using assms
proof (induction mx each "is" ss cur rule: drag_left.induct)
  case (2 mx each i "is" ss cur)
  let ?n = "min (min each (mx - stack_count (ss ! i))) (stack_count cur)"
  let ?ss = "add_to_slot i (stack_item cur) (stack_components cur) ?n ss"
  show ?case
  proof (cases "stack_count cur = 0 \<or> each = 0 \<or> ?n = 0")
    case True
    with 2 show ?thesis by (auto simp: Let_def split: if_splits)
  next
    case False
    have t: "drag_target mx ss cur i" using 2(5) by simp
    have rest: "drag_left mx each is ?ss (take_count cur ?n) = (ss', cur')"
      using 2(3) False by (simp add: Let_def)
    have le: "?n \<le> stack_count cur" "?n \<le> mx - stack_count (ss ! i)"
      by (auto simp: min_le_iff_disj)
    have step: "amounts k ?ss + amount k (take_count cur ?n) = amounts k ss + amount k cur"
      using t drag_target_add [OF t le(2)] le(1) by (intro add_to_slot_amount) (auto simp: drag_target_def)
    have ok: "stacks_ok ims ?ss \<and> stack_ok ims (take_count cur ?n)"
      if "mx = ims (stack_item cur)" "stacks_ok ims ss" "stack_ok ims cur" "stack_item cur \<noteq> AIR"
      using that False add_to_slot_ok [OF t le(2,1)] stack_ok_take [OF le(1)]
      by (simp add: stack_is_empty_def)
    have "amounts k ss' + amount k cur' = amounts k ?ss + amount k (take_count cur ?n) \<and>
      length ss' = length ?ss \<and> (mx = ims (stack_item cur) \<longrightarrow> stacks_ok ims ?ss \<longrightarrow>
        stack_ok ims (take_count cur ?n) \<longrightarrow> stack_item cur \<noteq> AIR \<longrightarrow> stacks_ok ims ss' \<and> stack_ok ims cur')"
      using 2(2) [OF _ refl _ rest] False 2(4) drag_target_step [OF 2(4,5)] by simp
    then show ?thesis using step ok by (simp add: add_to_slot_nth)
  qed
qed simp

lemma drag_right_spec:
  assumes "drag_right is ss cur = (ss', cur')" and "distinct is"
    and "\<forall>i \<in> set is. drag_target mx ss cur i" and "mx \<noteq> 0"
  shows "amounts k ss' + amount k cur' = amounts k ss + amount k cur \<and> length ss' = length ss \<and>
    (mx = ims (stack_item cur) \<longrightarrow> stacks_ok ims ss \<longrightarrow> stack_ok ims cur \<longrightarrow> stack_item cur \<noteq> AIR \<longrightarrow>
      stacks_ok ims ss' \<and> stack_ok ims cur')"
  using assms
proof (induction "is" ss cur rule: drag_right.induct)
  case (2 i "is" ss cur)
  let ?ss = "add_to_slot i (stack_item cur) (stack_components cur) 1 ss"
  show ?case
  proof (cases "stack_count cur = 0")
    case True
    with 2 show ?thesis by auto
  next
    case False
    have t: "drag_target mx ss cur i" using 2(4) by simp
    have rest: "drag_right is ?ss (take_count cur 1) = (ss', cur')" using 2(2) False by simp
    have le: "1 \<le> stack_count cur" using False by (simp add: u8_pos)
    have below: "1 \<le> mx - stack_count (ss ! i)" if "stack_count (ss ! i) < mx"
      using that by (simp add: u8_pos)
    have kind: "stack_is_empty (ss ! i) \<or>
        kind_of (ss ! i) = kind_of cur \<and> unat (stack_count (ss ! i)) + unat (1 :: u8) < 256"
      using t drag_target_add [OF t below] by (auto simp: drag_target_def)
    have step: "amounts k ?ss + amount k (take_count cur 1) = amounts k ss + amount k cur"
      using t kind le by (intro add_to_slot_amount) (auto simp: drag_target_def)
    have ok: "stacks_ok ims ?ss \<and> stack_ok ims (take_count cur 1)"
      if "mx = ims (stack_item cur)" "stacks_ok ims ss" "stack_ok ims cur" "stack_item cur \<noteq> AIR"
    proof (cases "stack_is_empty (ss ! i)")
      case True
      have "1 \<le> ims (stack_item cur)" using 2(5) that(1) by (simp add: u8_pos)
      with True that stack_ok_take [OF le] show ?thesis
        by (simp add: add_to_slot_def stacks_ok_update stack_ok_def)
    next
      case empty: False
      then have "stack_count (ss ! i) < mx" using t by (simp add: drag_target_def)
      then show ?thesis
        using that False add_to_slot_ok [OF t below le] stack_ok_take [OF le]
        by (simp add: stack_is_empty_def)
    qed
    have "amounts k ss' + amount k cur' = amounts k ?ss + amount k (take_count cur 1) \<and>
      length ss' = length ?ss \<and> (mx = ims (stack_item cur) \<longrightarrow> stacks_ok ims ?ss \<longrightarrow>
        stack_ok ims (take_count cur 1) \<longrightarrow> stack_item cur \<noteq> AIR \<longrightarrow> stacks_ok ims ss' \<and> stack_ok ims cur')"
      using 2(1) [OF False rest] 2(3,5) drag_target_step [OF 2(3,4)] by simp
    then show ?thesis using step ok by (simp add: add_to_slot_nth)
  qed
qed simp

text \<open>A middle drag fills its targets from nothing: amounts only grow.\<close>

lemma drag_middle_spec:
  assumes "distinct is" and "\<forall>i \<in> set is. drag_target mx ss cur i"
    and "kind_of full = kind_of cur" and "stack_count full = mx"
  shows "amounts k ss \<le> amounts k (drag_middle full is ss) \<and>
    length (drag_middle full is ss) = length ss \<and>
    (stack_ok ims full \<longrightarrow> stacks_ok ims ss \<longrightarrow> stacks_ok ims (drag_middle full is ss))"
  using assms
proof (induction full "is" ss rule: drag_middle.induct)
  case (2 full i "is" ss)
  have t: "drag_target mx ss cur i" using 2(3) by simp
  then consider "stack_is_empty (ss ! i)" | "kind_of (ss ! i) = kind_of full" "stack_count (ss ! i) < mx"
    using 2(4) by (auto simp: drag_target_def)
  then have "amount k (ss ! i) \<le> amount k full"
  proof cases
    case 2
    then have "stack_item (ss ! i) = stack_item full" by (simp add: kind_of_def)
    then show ?thesis using 2 "2.prems"(4) by (simp add: amount_alt word_less_nat_alt)
  qed simp
  then have le: "amounts k ss \<le> amounts k (ss[i := full])"
    using amounts_update [of i ss k full] t by (simp add: drag_target_def)
  moreover have "\<forall>j \<in> set is. drag_target mx (ss[i := full]) cur j"
  proof
    fix j
    assume "j \<in> set is"
    then have "j \<noteq> i" "drag_target mx ss cur j" using 2(2,3) by auto
    then show "drag_target mx (ss[i := full]) cur j" by (simp add: drag_target_def)
  qed
  ultimately have "amounts k (ss[i := full]) \<le> amounts k (drag_middle full is (ss[i := full])) \<and>
      length (drag_middle full is (ss[i := full])) = length (ss[i := full]) \<and>
      (stack_ok ims full \<longrightarrow> stacks_ok ims (ss[i := full]) \<longrightarrow>
        stacks_ok ims (drag_middle full is (ss[i := full])))"
    using 2(1,2,4,5) by simp
  then show ?case using le stacks_ok_update [of ims ss full i] by auto
qed simp

definition window_stacks_ok :: "(item_id \<Rightarrow> u8) \<Rightarrow> 'n window \<Rightarrow> bool" where
  "window_stacks_ok ims w \<longleftrightarrow> stacks_ok ims (slots w) \<and> stack_ok ims (cursor w)"

lemma apply_drag_spec:
  assumes w: "window_ok w" and d: "drag_ok (layout_size (layout w)) (Some d)"
    and pos: "\<And>i. ims i \<noteq> 0"
  shows "window_amount k w \<le> window_amount k (apply_drag ims d w)"
    and "drag_kind d \<noteq> MiddleDrag \<Longrightarrow> window_amount k (apply_drag ims d w) = window_amount k w"
    and "window_stacks_ok ims w \<Longrightarrow> window_stacks_ok ims (apply_drag ims d w)"
    and "length (slots (apply_drag ims d w)) = length (slots w)"
proof -
  let ?cur = "cursor w" and ?mx = "max_stack ims (cursor w)"
  let ?is = "filter (\<lambda>i. eligible ?mx ?cur (slots w ! i)) (drag_slots d)"
  let ?full = "\<lparr>stack_item = stack_item ?cur, stack_count = ?mx, stack_components = stack_components ?cur\<rparr>"
  let ?w = "apply_drag ims d w"
  have "window_amount k w \<le> window_amount k ?w \<and>
    (drag_kind d \<noteq> MiddleDrag \<longrightarrow> window_amount k ?w = window_amount k w) \<and>
    (window_stacks_ok ims w \<longrightarrow> window_stacks_ok ims ?w) \<and> length (slots ?w) = length (slots w)"
  proof (cases "stack_is_empty ?cur \<or> drag_slots d = [] \<or> ?is = []")
    case True
    then have "?w = w" by (auto simp: apply_drag_def Let_def)
    then show ?thesis by simp
  next
    case False
    have item: "stack_item ?cur \<noteq> AIR" and mx: "?mx = ims (stack_item ?cur)" and nz: "?mx \<noteq> 0"
      using False pos by (auto simp: stack_is_empty_def max_stack_def)
    have dist: "distinct ?is" using d by (simp add: drag_ok_def)
    have targets: "\<forall>i \<in> set ?is. drag_target ?mx (slots w) ?cur i"
      using d w by (auto simp: drag_target_def drag_ok_def eligible_def window_ok_def kind_of_def)
    define each where "each = stack_count ?cur div word_of_nat (length ?is)"
    let ?run = "case drag_kind d of
         LeftDrag \<Rightarrow> drag_left ?mx each ?is (slots w) ?cur
       | RightDrag \<Rightarrow> drag_right ?is (slots w) ?cur
       | MiddleDrag \<Rightarrow> (drag_middle ?full ?is (slots w), ?cur)"
    obtain ss cur where run: "?run = (ss, cur)" by fastforce
    have "?w = (case ?run of (ss, cur) \<Rightarrow>
        w\<lparr>slots := ss, cursor := (if stack_count cur = 0 then EMPTY_STACK else cur)\<rparr>)"
      using False unfolding each_def by (simp add: apply_drag_def Let_def)
    then have w': "?w = w\<lparr>slots := ss, cursor := (if stack_count cur = 0 then EMPTY_STACK else cur)\<rparr>"
      by (simp only: run prod.case)
    have "amount k (if stack_count cur = 0 then EMPTY_STACK else cur) = amount k cur"
      by (simp add: amount_alt EMPTY_STACK_def)
    moreover have "stack_ok ims cur \<Longrightarrow> stack_ok ims (if stack_count cur = 0 then EMPTY_STACK else cur)"
      by simp
    moreover have "amounts k (slots w) + amount k ?cur \<le> amounts k ss + amount k cur \<and>
      (drag_kind d \<noteq> MiddleDrag \<longrightarrow> amounts k ss + amount k cur = amounts k (slots w) + amount k ?cur) \<and>
      (window_stacks_ok ims w \<longrightarrow> stacks_ok ims ss \<and> stack_ok ims cur) \<and> length ss = length (slots w)"
    proof (cases "drag_kind d")
      case LeftDrag
      with run drag_left_spec [OF _ dist targets, of each ss cur k ims] item mx show ?thesis
        by (auto simp: window_stacks_ok_def)
    next
      case RightDrag
      with run drag_right_spec [OF _ dist targets nz, of ss cur k ims] item mx show ?thesis
        by (auto simp: window_stacks_ok_def)
    next
      case MiddleDrag
      moreover have "stack_ok ims ?full" using mx by (simp add: stack_ok_def)
      moreover have "kind_of ?full = kind_of ?cur" by (simp add: kind_of_def)
      ultimately show ?thesis
        using run drag_middle_spec [OF dist targets, of ?full k ims] by (auto simp: window_stacks_ok_def)
    qed
    ultimately show ?thesis unfolding w' by (simp add: window_amount_def window_stacks_ok_def)
  qed
  then show "window_amount k w \<le> window_amount k ?w"
    and "drag_kind d \<noteq> MiddleDrag \<Longrightarrow> window_amount k ?w = window_amount k w"
    and "window_stacks_ok ims w \<Longrightarrow> window_stacks_ok ims ?w"
    and "length (slots ?w) = length (slots w)" by blast+
qed

text \<open>\<open>survival w\<close>: the player is not in creative and drags no stacks out of nothing.\<close>

definition survival :: "'n window \<Rightarrow> bool" where
  "survival w \<longleftrightarrow> \<not> creative w \<and> (\<forall>d. drag w = Some d \<longrightarrow> drag_kind d \<noteq> MiddleDrag)"

lemma apply_drag_frame [simp]:
  "layout (apply_drag ims d w) = layout w" "creative (apply_drag ims d w) = creative w"
  "drag (apply_drag ims d w) = drag w"
  by (simp_all add: apply_drag_def Let_def split: prod.splits)

lemma window_drag [simp]:
  "window_amount k (w\<lparr>drag := d\<rparr>) = window_amount k w"
  "window_stacks_ok ims (w\<lparr>drag := d\<rparr>) = window_stacks_ok ims w"
  by (simp_all add: window_amount_def window_stacks_ok_def)

lemma quick_craft_end:
  "b = 2 \<or> b = 6 \<or> b = 10 \<Longrightarrow> drag w = Some d \<Longrightarrow>
   quick_craft ims slot b w = apply_drag ims d (w\<lparr>drag := None\<rparr>)"
  by (elim disjE) (simp_all add: quick_craft_def)

lemma quick_craft_spec:
  assumes w: "window_ok w" and slot: "\<And>s. slot = Some s \<Longrightarrow> s < layout_size (layout w)"
    and pos: "\<And>i. ims i \<noteq> 0"
  shows "window_amount k w \<le> window_amount k (quick_craft ims slot b w)"
    and "survival w \<Longrightarrow> window_amount k (quick_craft ims slot b w) = window_amount k w"
    and "window_stacks_ok ims w \<Longrightarrow> window_stacks_ok ims (quick_craft ims slot b w)"
    and "window_ok (quick_craft ims slot b w)"
    and "survival w \<Longrightarrow> survival (quick_craft ims slot b w)"
    and "layout (quick_craft ims slot b w) = layout w" "creative (quick_craft ims slot b w) = creative w"
proof -
  let ?w = "quick_craft ims slot b w"
  have "window_amount k w \<le> window_amount k ?w \<and>
    (survival w \<longrightarrow> window_amount k ?w = window_amount k w) \<and>
    (window_stacks_ok ims w \<longrightarrow> window_stacks_ok ims ?w) \<and> window_ok ?w \<and>
    (survival w \<longrightarrow> survival ?w) \<and> layout ?w = layout w \<and> creative ?w = creative w"
  proof (cases "(b = 2 \<or> b = 6 \<or> b = 10) \<and> drag w \<noteq> None")
    case True
    then obtain d where d: "drag w = Some d" by auto
    let ?clear = "w\<lparr>drag := None\<rparr>"
    from True have "b = 2 \<or> b = 6 \<or> b = 10" by blast
    then have q: "?w = apply_drag ims d ?clear" using d by (rule quick_craft_end)
    have w0: "window_ok ?clear" using w by (simp add: window_ok_def drag_ok_def)
    have dok: "drag_ok (layout_size (layout ?clear)) (Some d)" using w d by (simp add: window_ok_def)
    note spec = apply_drag_spec [OF w0 dok pos]
    have "window_ok ?w" using w0 spec(4) by (simp add: q window_ok_def drag_ok_def)
    then show ?thesis using spec(1-3) d by (simp add: q survival_def)
  next
    case False
    have "window_ok ?w"
      using w slot False
      by (auto simp: quick_craft_def window_ok_def drag_ok_def split: option.splits)
    moreover have "survival w \<longrightarrow> survival ?w"
      using False by (auto simp: quick_craft_def survival_def split: option.splits)
    moreover have frame: "?w = w\<lparr>drag := drag ?w\<rparr>"
      using False by (auto simp: quick_craft_def split: option.splits)
    obtain d where d: "?w = w\<lparr>drag := d\<rparr>" by (rule that [OF frame])
    ultimately show ?thesis by (simp add: d)
  qed
  then show "window_amount k w \<le> window_amount k ?w"
    and "survival w \<Longrightarrow> window_amount k ?w = window_amount k w"
    and "window_stacks_ok ims w \<Longrightarrow> window_stacks_ok ims ?w" and "window_ok ?w"
    and "survival w \<Longrightarrow> survival ?w" and "layout ?w = layout w" "creative ?w = creative w"
    by blast+
qed

section \<open>No stack grows above its maximum\<close>

lemma deposit_matching_ok:
  assumes "deposit_matching mx is ss stack = (ss', stack')" and "mx \<le> ims (stack_item stack)"
    and "stacks_ok ims ss" and "stack_ok ims stack"
  shows "stacks_ok ims ss' \<and> stack_ok ims stack'"
  using assms
proof (induction mx "is" ss stack rule: deposit_matching.induct)
  case (2 mx i "is" ss stack)
  show ?case
  proof (cases "stack_count stack \<noteq> 0 \<and> same_item (ss ! i) stack \<and> stack_count (ss ! i) < mx")
    case True
    let ?n = "min (mx - stack_count (ss ! i)) (stack_count stack)"
    have "stack_ok ims (add_count (ss ! i) ?n)"
      using True 2(4) by (intro stack_ok_add [of _ mx]) (auto simp: same_item_def)
    with 2(1) [OF _ _ refl] 2(3-) True show ?thesis
      by (simp add: Let_def stacks_ok_update stack_ok_take)
  next
    case False
    with 2 show ?thesis by (auto split: if_splits)
  qed
qed simp

lemma deposit_empty_ok:
  assumes "deposit_empty mx is ss stack = (ss', stack')" and "mx \<le> ims (stack_item stack)"
    and "stacks_ok ims ss" and "stack_ok ims stack"
  shows "stacks_ok ims ss' \<and> stack_ok ims stack'"
  using assms
proof (induction mx "is" ss stack rule: deposit_empty.induct)
  case (2 mx i "is" ss stack)
  show ?case
  proof (cases "stack_count stack \<noteq> 0 \<and> stack_is_empty (ss ! i)")
    case True
    let ?n = "min (stack_count stack) mx"
    have "stack_ok ims (with_count stack ?n)"
      using 2(4) by (intro stack_ok_with_count) (simp add: min_le_iff_disj)
    with 2(1) [OF _ _ refl] 2(3-) True show ?thesis
      by (simp add: Let_def stacks_ok_update stack_ok_take)
  next
    case False
    with 2 show ?thesis by (auto split: if_splits)
  qed
qed simp

lemma deposit_ok:
  assumes "deposit ims is ss stack = (ss', stack')" and "\<forall>i \<in> set is. i < length ss"
    and "\<not> stack_is_empty stack" and "stacks_ok ims ss" and "stack_ok ims stack"
  shows "stacks_ok ims ss' \<and> stack_ok ims stack'"
proof -
  have mx: "max_stack ims stack = ims (stack_item stack)" using assms(3) by (simp add: max_stack_def)
  obtain ss1 st1 where 1: "deposit_matching (max_stack ims stack) is ss stack = (ss1, st1)"
    and 2: "deposit_empty (max_stack ims stack) is ss1 st1 = (ss', stack')"
    using assms(1) by (auto simp: deposit_def Let_def split: prod.splits)
  have "stacks_ok ims ss1 \<and> stack_ok ims st1" using deposit_matching_ok [OF 1] assms mx by simp
  moreover have "stack_item st1 = stack_item stack"
    using deposit_matching_amount(3) [OF 1 assms(2)] by (simp add: kind_of_def)
  ultimately show ?thesis using deposit_empty_ok [OF 2] mx by simp
qed

lemma pickup_all_loop_ok:
  assumes "pickup_all_loop mx output is ss cur = (ss', cur')" and "mx = ims (stack_item cur)"
    and "stacks_ok ims ss" and "stack_ok ims cur" and "\<forall>i \<in> set is. i < length ss"
  shows "stacks_ok ims ss' \<and> stack_ok ims cur'"
  using assms
proof (induction mx "output" "is" ss cur rule: pickup_all_loop.induct)
  case (2 mx outp i "is" ss cur)
  show ?case
  proof (cases "\<not> mx \<le> stack_count cur \<and> outp \<noteq> Some i \<and> same_item (ss ! i) cur")
    case True
    let ?s = "ss ! i"
    let ?n = "min (mx - stack_count cur) (stack_count ?s)"
    have "stack_ok ims (add_count cur ?n)"
      using True 2(5) by (intro stack_ok_add [of _ mx]) auto
    moreover have "stack_ok ims ?s" using 2(6,8) by (intro stacks_ok_nth) auto
    then have "stack_ok ims (with_count ?s (stack_count ?s - ?n))"
      using True by (intro stack_ok_less u8_minus_le) (auto simp: same_item_def)
    ultimately show ?thesis using 2(2) [OF _ _ _ refl] 2(4-) True by (simp add: Let_def stacks_ok_update)
  next
    case False
    with 2 show ?thesis by (auto split: if_splits)
  qed
qed simp

section \<open>Every handler\<close>

text \<open>
  \<open>keeps_window ims slack w out w'\<close>: what a handler that threw \<open>out\<close> and left \<open>w'\<close> may have done:
  amounts are conserved (only added to where \<open>slack\<close>), the window stays well formed, stacks stay
  within their maxima.
\<close>

definition keeps_window ::
  "(item_id \<Rightarrow> u8) \<Rightarrow> bool \<Rightarrow> 'n window \<Rightarrow> 'n item_stack list \<Rightarrow> 'n window \<Rightarrow> bool" where
  "keeps_window ims slack w out w' \<longleftrightarrow>
     (\<forall>k. window_amount k w \<le> window_amount k w' + amounts k out) \<and>
     (\<not> slack \<longrightarrow> (\<forall>k. window_amount k w' + amounts k out = window_amount k w)) \<and>
     window_ok w' \<and> layout w' = layout w \<and> creative w' = creative w \<and>
     (\<not> slack \<longrightarrow> survival w \<longrightarrow> survival w') \<and>
     (window_stacks_ok ims w \<longrightarrow> window_stacks_ok ims w' \<and> stacks_ok ims out)"

lemma keeps_windowI:
  assumes "\<And>k. window_amount k w' + amounts k out = window_amount k w"
    and "length (slots w') = length (slots w)" "layout w' = layout w" "creative w' = creative w"
      "drag w' = drag w" and "window_ok w"
    and "window_stacks_ok ims w \<Longrightarrow> window_stacks_ok ims w' \<and> stacks_ok ims out"
  shows "keeps_window ims slack w out w'"
  using assms by (simp add: keeps_window_def window_ok_def survival_def)

lemma keeps_windowD:
  assumes "keeps_window ims slack w out w'"
  shows "window_amount k w \<le> window_amount k w' + amounts k out"
    and "\<not> slack \<Longrightarrow> window_amount k w' + amounts k out = window_amount k w"
    and "window_ok w'" and "layout w' = layout w" and "creative w' = creative w"
    and "\<not> slack \<Longrightarrow> survival w \<Longrightarrow> survival w'"
    and "window_stacks_ok ims w \<Longrightarrow> window_stacks_ok ims w'"
    and "window_stacks_ok ims w \<Longrightarrow> stacks_ok ims out"
  using assms unfolding keeps_window_def by blast+

lemma stacks_ok_simps [simp]: "stacks_ok ims []" "stacks_ok ims (s # ss) \<longleftrightarrow> stack_ok ims s \<and> stacks_ok ims ss"
  by (auto simp: stacks_ok_def)

lemma keeps_nothing: "window_ok w \<Longrightarrow> keeps_window ims slack w [] w"
  by (rule keeps_windowI) simp_all

lemma keeps_pickup:
  assumes w: "window_ok w" "slot < layout_size (layout w)" and pos: "\<And>i. ims i \<noteq> 0"
  shows "keeps_window ims slack w [] (pickup ims slot right w)"
proof -
  have len: "slot < length (slots w)" using w by (simp add: window_ok_def)
  obtain t c where eq: "pickup ims slot right w = w\<lparr>slots := (slots w)[slot := t], cursor := c\<rparr>"
    and amt: "\<forall>k. amount k t + amount k c = amount k (slots w ! slot) + amount k (cursor w)"
    and ok: "stack_ok ims (slots w ! slot) \<Longrightarrow> stack_ok ims (cursor w) \<Longrightarrow> stack_ok ims t \<and> stack_ok ims c"
    using pickup_spec [OF refl refl, of ims slot right w] pos by blast
  show ?thesis
  proof (rule keeps_windowI)
    show "window_amount k (pickup ims slot right w) + amounts k [] = window_amount k w" for k
      using pickup_amount [OF len] by simp
    assume "window_stacks_ok ims w"
    then show "window_stacks_ok ims (pickup ims slot right w) \<and> stacks_ok ims []"
      using ok len by (simp add: eq window_stacks_ok_def stacks_ok_update stacks_ok_nth)
  qed (use w in \<open>simp_all add: eq\<close>)
qed

lemma keeps_quick_move:
  assumes w: "window_ok w" "slot < layout_size (layout w)"
  shows "keeps_window ims slack w [] (quick_move ims slot w)"
proof -
  let ?ss = "(slots w)[slot := EMPTY_STACK]" and ?is = "quick_move_targets (layout w) slot"
  have len: "slot < length (slots w)" using w by (simp add: window_ok_def)
  have rng: "\<forall>i \<in> set ?is. i < length ?ss"
    using quick_move_targets_ok [of "layout w" slot] w by (auto simp: window_ok_def)
  obtain ss st where d: "deposit ims ?is ?ss (slots w ! slot) = (ss, st)" by fastforce
  have l: "length ss = length (slots w)" using deposit_amount(2) [OF d rng] by simp
  show ?thesis
  proof (rule keeps_windowI)
    show "window_amount k (quick_move ims slot w) + amounts k [] = window_amount k w" for k
      using quick_move_amount [OF w] by simp
    assume ok: "window_stacks_ok ims w"
    then have "stack_ok ims (slots w ! slot)" "stacks_ok ims ?ss"
      using len by (auto simp: window_stacks_ok_def stacks_ok_nth stacks_ok_update)
    then have "stacks_ok ims ss \<and> stack_ok ims st" if "\<not> stack_is_empty (slots w ! slot)"
      using deposit_ok [OF d rng that] by simp
    then show "window_stacks_ok ims (quick_move ims slot w) \<and> stacks_ok ims []"
      using ok d by (auto simp: quick_move_def window_stacks_ok_def stacks_ok_update Let_def)
  qed (use w l d in \<open>auto simp: quick_move_def Let_def\<close>)
qed

lemma keeps_swap:
  assumes w: "window_ok w" "slot < layout_size (layout w)"
  shows "keeps_window ims slack w [] (swap_slots slot b w)"
proof (rule keeps_windowI)
  show "window_amount k (swap_slots slot b w) + amounts k [] = window_amount k w" for k
    using swap_slots_amount [OF w] by simp
  show "window_stacks_ok ims w \<Longrightarrow> window_stacks_ok ims (swap_slots slot b w) \<and> stacks_ok ims []"
    using w swap_target_ok [of "layout w" b]
    by (auto simp: swap_slots_def window_stacks_ok_def window_ok_def split: option.splits
        intro!: stacks_ok_update stacks_ok_nth)
qed (use w in \<open>auto simp: swap_slots_def split: option.splits\<close>)

lemma keeps_throw:
  assumes w: "window_ok w" "slot < layout_size (layout w)" and t: "throw slot b w = (out, w')"
  shows "keeps_window ims slack w out w'"
proof (rule keeps_windowI)
  let ?s = "slots w ! slot"
  have len: "slot < length (slots w)" using w by (simp add: window_ok_def)
  show "window_amount k w' + amounts k out = window_amount k w" for k by (rule throw_amount [OF len t])
  assume ok: "window_stacks_ok ims w"
  then have "stack_ok ims ?s" using len by (simp add: window_stacks_ok_def stacks_ok_nth)
  then have "stack_ok ims (with_count ?s 1) \<and> stack_ok ims (with_count ?s (stack_count ?s - 1))"
    if "\<not> stack_is_empty ?s"
    using that by (auto intro!: stack_ok_less u8_minus_le simp: stack_is_empty_def u8_pos)
  then show "window_stacks_ok ims w' \<and> stacks_ok ims out"
    using t ok \<open>stack_ok ims ?s\<close>
    by (auto simp: throw_def Let_def window_stacks_ok_def split: if_splits intro!: stacks_ok_update)
qed (use w t in \<open>auto simp: throw_def Let_def split: if_splits\<close>)

lemma keeps_drop_cursor:
  assumes w: "window_ok w" and t: "drop_cursor single w = (out, w')"
  shows "keeps_window ims slack w out w'"
proof (rule keeps_windowI)
  let ?s = "cursor w"
  show "window_amount k w' + amounts k out = window_amount k w" for k by (rule drop_cursor_amount [OF t])
  assume ok: "window_stacks_ok ims w"
  then have "stack_ok ims ?s" by (simp add: window_stacks_ok_def)
  then have "stack_ok ims (with_count ?s 1) \<and> stack_ok ims (with_count ?s (stack_count ?s - 1))"
    if "\<not> stack_is_empty ?s"
    using that by (auto intro!: stack_ok_less u8_minus_le simp: stack_is_empty_def u8_pos)
  then show "window_stacks_ok ims w' \<and> stacks_ok ims out"
    using t ok by (auto simp: drop_cursor_def window_stacks_ok_def split: if_splits)
qed (use w t in \<open>auto simp: drop_cursor_def split: if_splits\<close>)

lemma keeps_pickup_all:
  assumes w: "window_ok w"
  shows "keeps_window ims slack w [] (pickup_all ims w)"
proof -
  let ?mx = "max_stack ims (cursor w)" and ?is = "[0..<layout_size (layout w)]"
  obtain ss cur where l: "pickup_all_loop ?mx (crafting_output (layout w)) ?is (slots w) (cursor w) = (ss, cur)"
    by fastforce
  have rng: "\<forall>i \<in> set ?is. i < length (slots w)" using w by (simp add: window_ok_def)
  show ?thesis
  proof (rule keeps_windowI)
    show "window_amount k (pickup_all ims w) + amounts k [] = window_amount k w" for k
      using pickup_all_amount [OF w] by simp
    assume ok: "window_stacks_ok ims w"
    show "window_stacks_ok ims (pickup_all ims w) \<and> stacks_ok ims []"
    proof (cases "stack_is_empty (cursor w)")
      case False
      then have "?mx = ims (stack_item (cursor w))" by (simp add: max_stack_def)
      with pickup_all_loop_ok [OF l _ _ _ rng] ok False l show ?thesis
        by (simp add: pickup_all_def window_stacks_ok_def)
    qed (use ok in \<open>simp add: pickup_all_def\<close>)
  qed (use w l pickup_all_loop_amount [OF l rng] in \<open>auto simp: pickup_all_def\<close>)
qed

lemma keeps_clone:
  assumes w: "window_ok w" "slot < layout_size (layout w)"
  shows "keeps_window ims (\<not> survival w) w [] (clone_stack ims slot w)"
proof (cases "creative w \<and> stack_is_empty (cursor w) \<and> \<not> stack_is_empty (slots w ! slot)")
  case True
  let ?s = "slots w ! slot"
  have "max_stack ims ?s = ims (stack_item ?s)" using True by (simp add: max_stack_def)
  then have "stack_ok ims (with_count ?s (max_stack ims ?s))" by (simp add: stack_ok_with_count)
  with True w show ?thesis
    by (auto simp: keeps_window_def clone_stack_def window_amount_def window_ok_def survival_def
        window_stacks_ok_def)
next
  case False
  then have "clone_stack ims slot w = w" by (auto simp: clone_stack_def)
  with w show ?thesis by (simp add: keeps_nothing)
qed

lemma keeps_quick_craft:
  assumes w: "window_ok w" and slot: "\<And>s. slot = Some s \<Longrightarrow> s < layout_size (layout w)"
    and pos: "\<And>i. ims i \<noteq> 0"
  shows "keeps_window ims (\<not> survival w) w [] (quick_craft ims slot b w)"
  using quick_craft_spec [OF w slot pos] by (auto simp: keeps_window_def)

lemma keeps_clear_drag:
  assumes "keeps_window ims slack (w\<lparr>drag := None\<rparr>) out w'"
  shows "keeps_window ims slack w out w'"
  using assms by (auto simp: keeps_window_def survival_def)

lemma keeps_clear_drag_survival:
  assumes "keeps_window ims (\<not> survival (w\<lparr>drag := None\<rparr>)) (w\<lparr>drag := None\<rparr>) out w'"
  shows "keeps_window ims (\<not> survival w) w out w'"
proof -
  have "survival w \<Longrightarrow> survival (w\<lparr>drag := None\<rparr>)" by (simp add: survival_def)
  with keeps_clear_drag [OF assms] show ?thesis by (auto simp: keeps_window_def)
qed

lemma apply_click_keeps:
  assumes w: "window_ok w" and pos: "\<And>i. ims i \<noteq> 0"
    and click: "apply_click ims slot button inp w = (out, w')"
  shows "keeps_window ims (\<not> survival w) w out w'"
proof (cases "sint slot < 0 \<and> slot \<noteq> SLOT_OUTSIDE")
  case True
  with click w show ?thesis by (simp add: apply_click_def keeps_nothing)
next
  case False
  define valid where "valid = (if 0 \<le> sint slot \<and> nat (sint slot) < layout_size (layout w)
    then Some (nat (sint slot)) else None)"
  have v: "s < layout_size (layout w)" if "valid = Some s" for s
    using that by (auto simp: valid_def split: if_splits)
  let ?v = "w\<lparr>drag := None\<rparr>"
  have ok: "window_ok ?v" using w by (simp add: window_ok_def drag_ok_def)
  have vv: "s < layout_size (layout ?v)" if "valid = Some s" for s using v [OF that] by simp
  note run = click [unfolded apply_click_def if_not_P [OF False] Let_def, folded valid_def]
  show ?thesis
  proof (cases "inp = QuickCraft")
    case True
    then have "out = []" "w' = quick_craft ims valid button w"
      using run by (auto simp: valid_def)
    with keeps_quick_craft [OF w v pos] show ?thesis by simp
  next
    case qc: False
    have "keeps_window ims (\<not> survival ?v) ?v out w'"
    proof (cases valid)
      case None
      then have "out = [] \<and> w' = ?v \<or> inp = Pickup \<and> drop_cursor (button = 1) ?v = (out, w')"
        using run qc unfolding valid_def by (cases inp) auto
      then show ?thesis using keeps_nothing [OF ok] keeps_drop_cursor [OF ok] by auto
    next
      case (Some s)
      note s = vv [OF Some]
      have "out = [] \<and> (w' = pickup ims s (button = 1) ?v \<or> w' = quick_move ims s ?v \<or>
          w' = swap_slots s button ?v \<or> w' = clone_stack ims s ?v \<or> w' = pickup_all ims ?v) \<or>
        throw s button ?v = (out, w')"
        using run qc Some unfolding valid_def by (cases inp) auto
      then show ?thesis
        using keeps_pickup [OF ok s pos] keeps_quick_move [OF ok s] keeps_swap [OF ok s]
          keeps_clone [OF ok s] keeps_pickup_all [OF ok] keeps_throw [OF ok s] by auto
    qed
    then show ?thesis by (rule keeps_clear_drag_survival)
  qed
qed

section \<open>The contract the inventory and the menus rely on\<close>

type_synonym click = "i16 \<times> i8 \<times> container_input"

fun run_clicks ::
  "(i16 \<Rightarrow> i8 \<Rightarrow> container_input \<Rightarrow> 'n window \<Rightarrow> 'n item_stack list \<times> 'n window) \<Rightarrow>
   click list \<Rightarrow> 'n window \<Rightarrow> 'n item_stack list \<times> 'n window" where
  "run_clicks engine [] w = ([], w)"
| "run_clicks engine ((slot, button, inp) # cs) w =
     (let (out, w') = engine slot button inp w; (out', w'') = run_clicks engine cs w'
      in (out @ out', w''))"

lemma stacks_ok_append [simp]: "stacks_ok ims (ss @ ts) \<longleftrightarrow> stacks_ok ims ss \<and> stacks_ok ims ts"
  by (auto simp: stacks_ok_def)

lemma keeps_window_trans:
  assumes a: "keeps_window ims (\<not> survival w) w out w1" and b: "keeps_window ims (\<not> survival w1) w1 out' w2"
  shows "keeps_window ims (\<not> survival w) w (out @ out') w2"
proof -
  have grow: "window_amount k w \<le> window_amount k w2 + amounts k (out @ out')" for k
    using keeps_windowD(1) [OF a, of k] keeps_windowD(1) [OF b, of k] by simp
  have same: "window_amount k w2 + amounts k (out @ out') = window_amount k w" "survival w2"
    if "survival w" for k
  proof -
    have "survival w1" using keeps_windowD(6) [OF a] that by simp
    then show "window_amount k w2 + amounts k (out @ out') = window_amount k w" "survival w2"
      using keeps_windowD(2) [OF a, of k] keeps_windowD(2) [OF b, of k] keeps_windowD(6) [OF b] that
      by simp_all
  qed
  show ?thesis
    unfolding keeps_window_def
    using grow same keeps_windowD(3-5,7,8) [OF a] keeps_windowD(3-5,7,8) [OF b] stacks_ok_append
    by (intro conjI allI impI) simp_all
qed

locale click_engine =
  fixes ims :: "item_id \<Rightarrow> u8"
    and engine :: "i16 \<Rightarrow> i8 \<Rightarrow> container_input \<Rightarrow> 'n window \<Rightarrow> 'n item_stack list \<times> 'n window"
  assumes keeps: "window_ok w \<Longrightarrow> engine slot button inp w = (out, w') \<Longrightarrow>
    keeps_window ims (\<not> survival w) w out w'"
begin

lemma session_keeps:
  "window_ok w \<Longrightarrow> run_clicks engine cs w = (out, w') \<Longrightarrow> keeps_window ims (\<not> survival w) w out w'"
proof (induction cs arbitrary: w out)
  case Nil
  then show ?case by (simp add: keeps_nothing)
next
  case (Cons c cs)
  obtain slot button inp where c: "c = (slot, button, inp)" by (cases c)
  obtain out1 w1 where e: "engine slot button inp w = (out1, w1)" by fastforce
  obtain out2 where r: "run_clicks engine cs w1 = (out2, w')" and out: "out = out1 @ out2"
    using Cons.prems(2) c e by (auto split: prod.splits)
  have k: "keeps_window ims (\<not> survival w) w out1 w1" by (rule keeps [OF Cons.prems(1) e])
  then have "window_ok w1" by (rule keeps_windowD(3))
  from keeps_window_trans [OF k Cons.IH [OF this r]] show ?case unfolding out .
qed

lemma session_conserves:
  assumes "window_ok w" "survival w" "run_clicks engine cs w = (out, w')"
  shows "window_amount k w' + amounts k out = window_amount k w"
  using keeps_windowD(2) [OF session_keeps [OF assms(1,3)]] assms(2) by simp

lemma session_bounded:
  assumes "window_ok w" "window_stacks_ok ims w" "run_clicks engine cs w = (out, w')"
  shows "window_ok w' \<and> window_stacks_ok ims w' \<and> stacks_ok ims out"
  using keeps_windowD(3,7,8) [OF session_keeps [OF assms(1,3)]] assms(2) by simp

end

interpretation vanilla: click_engine item_max_stack "apply_click item_max_stack"
  by unfold_locales (rule apply_click_keeps [OF _ item_max_stack_pos])

section \<open>Properties of the click engine\<close>

text \<open>C1: no sequence of clicks creates or destroys an item: whatever a survival player sends,
  in the player's window or in a menu, for every kind of item the amount in the slots, on the cursor
  and thrown into the world together is what was there before. In particular no \<open>u8\<close> count wraps.\<close>

theorem clicks_conserve_items:
  assumes "window_ok w" and "survival w"
    and "run_clicks (apply_click item_max_stack) cs w = (thrown, w')"
  shows "window_amount k w' + amounts k thrown = window_amount k w"
  using assms by (rule vanilla.session_conserves)

text \<open>A menu of three slots: halve a stack, lay one down, drag, collect, throw.\<close>

lemma clicks_conserve_items_witness:
  "let w = \<lparr>slots = [new_stack 5 33, EMPTY_STACK, new_stack 7 2], cursor = EMPTY_STACK, drag = None,
        layout = menu_layout 3 False, creative = False\<rparr> :: u8 list window;
      r = run_clicks (apply_click item_max_stack)
        [(0, 1, Pickup), (1, 1, Pickup), (- 999, 0, QuickCraft), (0, 1, QuickCraft),
         (- 999, 2, QuickCraft), (1, 0, PickupAll), (2, 1, Throw), (- 999, 0, Pickup)] w
   in window_amount (5, []) (snd r) + amounts (5, []) (fst r) = 33"
proof -
  let ?w = "\<lparr>slots = [new_stack 5 33, EMPTY_STACK, new_stack 7 2], cursor = EMPTY_STACK, drag = None,
      layout = menu_layout 3 False, creative = False\<rparr> :: u8 list window"
  let ?cs = "[(0, 1, Pickup), (1, 1, Pickup), (- 999, 0, QuickCraft), (0, 1, QuickCraft),
      (- 999, 2, QuickCraft), (1, 0, PickupAll), (2, 1, Throw), (- 999, 0, Pickup)] :: click list"
  have "window_ok ?w" and "survival ?w"
    by (auto simp: window_ok_def layout_ok_def drag_ok_def survival_def menu_layout_def)
  moreover have "window_amount (5, []) ?w = 33"
    by (simp add: window_amount_def amount_alt new_stack_def kind_of_def EMPTY_STACK_def)
  ultimately show ?thesis
    using clicks_conserve_items [of ?w ?cs _ _ "(5, [])", OF _ _ prod.collapse [symmetric]]
    by (simp only: Let_def)
qed

text \<open>C39: every sequence of clicks, in creative too, keeps the window in shape: as many slots as
  its layout has, a drag that names distinct slots of the window, and every stack in the slots, on
  the cursor and thrown out at most its item's maximum stack size.\<close>

theorem clicks_keep_window:
  assumes "window_ok w" and "window_stacks_ok item_max_stack w"
    and "run_clicks (apply_click item_max_stack) cs w = (thrown, w')"
  shows "window_ok w' \<and> window_stacks_ok item_max_stack w' \<and> stacks_ok item_max_stack thrown"
  using assms by (rule vanilla.session_bounded)

lemma clicks_keep_window_witness:
  "let w = \<lparr>slots = [new_stack 5 33, EMPTY_STACK, new_stack 7 2], cursor = EMPTY_STACK, drag = None,
        layout = menu_layout 3 False, creative = True\<rparr> :: u8 list window;
      r = run_clicks (apply_click item_max_stack) [(0, 2, Clone), (1, 0, Pickup), (0, 0, QuickMove)] w
   in window_stacks_ok item_max_stack (snd r)"
proof -
  let ?w = "\<lparr>slots = [new_stack 5 33, EMPTY_STACK, new_stack 7 2], cursor = EMPTY_STACK, drag = None,
      layout = menu_layout 3 False, creative = True\<rparr> :: u8 list window"
  have "window_ok ?w"
    by (auto simp: window_ok_def layout_ok_def drag_ok_def survival_def menu_layout_def)
  moreover have "item_max_stack 5 = 64" "item_max_stack 7 = 64"
    by (simp_all add: item_max_stack_common)
  then have "window_stacks_ok item_max_stack ?w"
    by (simp add: window_stacks_ok_def stack_ok_def new_stack_def)
  ultimately show ?thesis
    using clicks_keep_window [of ?w _, OF _ _ prod.collapse [symmetric]] by (simp only: Let_def)
qed

end
