(* ===== verification/Inventory.thy ===== *)
theory Inventory
  imports Window
begin

text \<open>
  The player's inventory, \<open>void/src/inventory.rs\<close>: 46 slots, the cursor stack, the selected
  hotbar key, and the record of what changed since the client was last told. The lemmas show that
  the record misses no change, which is what the synchronisation of \<open>Container_Sync\<close> rests on.
\<close>

section \<open>What the client has to be told\<close>

record dirty =
  dirty_slots :: u64
  dirty_full :: bool
  dirty_cursor :: bool
  dirty_held :: bool

definition clean :: dirty where
  "clean = \<lparr>dirty_slots = 0, dirty_full = False, dirty_cursor = False, dirty_held = False\<rparr>"

text \<open>\<open>1 << index\<close> on a \<open>u64\<close> mask.\<close>

definition mask_bit :: "nat \<Rightarrow> u64" where
  "mask_bit i = push_bit i 1"

definition mask_indices :: "u64 \<Rightarrow> nat list" where
  "mask_indices m = filter (\<lambda>i. m AND mask_bit i \<noteq> 0) [0..<64]"

definition slot_indices :: "dirty \<Rightarrow> nat list" where
  "slot_indices d = mask_indices (dirty_slots d)"

text \<open>\<open>count_ones\<close>.\<close>

definition dirty_slot_count :: "dirty \<Rightarrow> nat" where
  "dirty_slot_count d = length (filter (bit (dirty_slots d)) [0..<64])"

section \<open>The inventory\<close>

record 'n inventory =
  inv_slots :: "'n item_stack list"
  inv_cursor :: "'n item_stack"
  selected_hotbar :: u8
  inv_drag :: "drag_state option"
  inv_state_id :: i32
  inv_dirty :: dirty

abbreviation MAIN_START :: nat where "MAIN_START \<equiv> 9"
abbreviation HOTBAR_START :: nat where "HOTBAR_START \<equiv> 36"
abbreviation OFFHAND :: nat where "OFFHAND \<equiv> 45"
abbreviation SIZE :: nat where "SIZE \<equiv> 46"

definition new_inventory :: "'n inventory" where
  "new_inventory = \<lparr>inv_slots = replicate SIZE EMPTY_STACK, inv_cursor = EMPTY_STACK,
     selected_hotbar = 0, inv_drag = None, inv_state_id = 0, inv_dirty = clean\<rparr>"

definition hotbar_slot_index :: "u8 \<Rightarrow> nat" where
  "hotbar_slot_index h = HOTBAR_START + unat (min h 8)"

definition inv_get :: "nat \<Rightarrow> 'n inventory \<Rightarrow> 'n item_stack" where
  "inv_get i iv = (case slice_get (inv_slots iv) i of Some s \<Rightarrow> s | None \<Rightarrow> EMPTY_STACK)"

definition mark_slot :: "nat \<Rightarrow> 'n inventory \<Rightarrow> 'n inventory" where
  "mark_slot i iv =
     iv\<lparr>inv_dirty := (inv_dirty iv)\<lparr>dirty_slots := dirty_slots (inv_dirty iv) OR mask_bit i\<rparr>\<rparr>"

definition mark_cursor :: "'n inventory \<Rightarrow> 'n inventory" where
  "mark_cursor iv = iv\<lparr>inv_dirty := (inv_dirty iv)\<lparr>dirty_cursor := True\<rparr>\<rparr>"

definition mark_full :: "'n inventory \<Rightarrow> 'n inventory" where
  "mark_full iv = iv\<lparr>inv_dirty := (inv_dirty iv)\<lparr>dirty_full := True\<rparr>\<rparr>"

definition inv_set :: "nat \<Rightarrow> 'n item_stack \<Rightarrow> 'n inventory \<Rightarrow> 'n inventory" where
  "inv_set i s iv =
     (case slice_get (inv_slots iv) i of
        Some old \<Rightarrow> if old \<noteq> s then mark_slot i (iv\<lparr>inv_slots := (inv_slots iv)[i := s]\<rparr>) else iv
      | None \<Rightarrow> iv)"

definition set_cursor :: "'n item_stack \<Rightarrow> 'n inventory \<Rightarrow> 'n inventory" where
  "set_cursor s iv = (if inv_cursor iv \<noteq> s then mark_cursor (iv\<lparr>inv_cursor := s\<rparr>) else iv)"

definition set_selected_hotbar :: "u8 \<Rightarrow> 'n inventory \<Rightarrow> 'n inventory" where
  "set_selected_hotbar h iv =
     (let h' = min h 8 in
      if selected_hotbar iv \<noteq> h' then
        iv\<lparr>selected_hotbar := h', inv_dirty := (inv_dirty iv)\<lparr>dirty_held := True\<rparr>\<rparr>
      else iv)"

definition accept_selected_hotbar :: "u8 \<Rightarrow> 'n inventory \<Rightarrow> 'n inventory" where
  "accept_selected_hotbar h iv = iv\<lparr>selected_hotbar := min h 8\<rparr>"

definition held :: "'n inventory \<Rightarrow> 'n item_stack" where
  "held iv = inv_slots iv ! hotbar_slot_index (selected_hotbar iv)"

definition clear :: "'n inventory \<Rightarrow> 'n inventory" where
  "clear iv = iv\<lparr>inv_slots := replicate (length (inv_slots iv)) EMPTY_STACK,
     inv_cursor := EMPTY_STACK,
     inv_dirty := (inv_dirty iv)\<lparr>dirty_full := True, dirty_cursor := True\<rparr>\<rparr>"

definition storage_order :: "nat list" where
  "storage_order = [HOTBAR_START..<OFFHAND] @ [MAIN_START..<HOTBAR_START]"

text \<open>The loop of \<open>mark_changed_since\<close> over the pairs of old and new slots, from index \<open>i\<close> on.\<close>

fun changed_mask :: "nat \<Rightarrow> ('n item_stack \<times> 'n item_stack) list \<Rightarrow> u64 \<Rightarrow> u64" where
  "changed_mask i [] m = m"
| "changed_mask i ((old, new) # ps) m =
     changed_mask (Suc i) ps (if old \<noteq> new then m OR mask_bit i else m)"

definition mark_changed_since :: "'n item_stack list \<Rightarrow> 'n inventory \<Rightarrow> 'n inventory" where
  "mark_changed_since before iv =
     iv\<lparr>inv_dirty := (inv_dirty iv)\<lparr>dirty_slots :=
       changed_mask 0 (zip before (inv_slots iv)) (dirty_slots (inv_dirty iv))\<rparr>\<rparr>"

definition give :: "'n item_stack \<Rightarrow> 'n inventory \<Rightarrow> 'n item_stack \<times> 'n inventory" where
  "give stack iv =
     (if stack_is_empty stack then (EMPTY_STACK, iv)
      else
        (let before = inv_slots iv;
             (ss, rest) = deposit item_max_stack storage_order before stack
         in (rest, mark_changed_since before (iv\<lparr>inv_slots := ss\<rparr>))))"

definition to_slots :: "'n inventory \<Rightarrow> 'n slot list" where
  "to_slots iv = map to_slot (inv_slots iv)"

definition player_window :: "bool \<Rightarrow> 'n inventory \<Rightarrow> 'n window" where
  "player_window cr iv = \<lparr>slots = inv_slots iv, cursor = inv_cursor iv, drag = inv_drag iv,
     layout = PLAYER, creative = cr\<rparr>"

definition inv_apply_click ::
  "i16 \<Rightarrow> i8 \<Rightarrow> container_input \<Rightarrow> bool \<Rightarrow> 'n inventory \<Rightarrow> 'n item_stack list \<times> 'n inventory" where
  "inv_apply_click slot button inp cr iv =
     (let before = inv_slots iv; cursor_before = inv_cursor iv;
          (dropped, w) = apply_click item_max_stack slot button inp (player_window cr iv);
          inv1 = mark_changed_since before
            (iv\<lparr>inv_slots := slots w, inv_cursor := cursor w, inv_drag := drag w\<rparr>)
      in (dropped, if inv_cursor inv1 \<noteq> cursor_before then mark_cursor inv1 else inv1))"

definition inv_next_state_id :: "'n inventory \<Rightarrow> i32 \<times> 'n inventory" where
  "inv_next_state_id iv =
     (let s = (inv_state_id iv + 1) AND 32767 in (s, iv\<lparr>inv_state_id := s\<rparr>))"

definition take_dirty :: "'n inventory \<Rightarrow> dirty \<times> 'n inventory" where
  "take_dirty iv = (inv_dirty iv, iv\<lparr>inv_dirty := clean\<rparr>)"

definition retain_dirty :: "u64 \<Rightarrow> 'n inventory \<Rightarrow> 'n inventory" where
  "retain_dirty m iv =
     iv\<lparr>inv_dirty := (inv_dirty iv)\<lparr>dirty_slots := dirty_slots (inv_dirty iv) OR m\<rparr>\<rparr>"

section \<open>Cooldowns\<close>

record cooldown =
  cooldown_group :: "string option"
  cooldown_ticks :: i32

text \<open>\<open>name_of\<close> is \<open>voidmc_data::item_name\<close>.\<close>

definition cooldown_item :: "(item_id \<Rightarrow> string option) \<Rightarrow> item_id \<Rightarrow> cooldown" where
  "cooldown_item name_of item = \<lparr>cooldown_group = name_of item, cooldown_ticks = 0\<rparr>"

definition cooldown_of_group :: "string \<Rightarrow> cooldown" where
  "cooldown_of_group name = \<lparr>cooldown_group =
     Some (if CHR '':'' \<in> set name then name else ''minecraft:'' @ name), cooldown_ticks = 0\<rparr>"

definition set_cooldown_ticks :: "u32 \<Rightarrow> cooldown \<Rightarrow> cooldown" where
  "set_cooldown_ticks n c = c\<lparr>cooldown_ticks := min n 0x7FFFFFFF\<rparr>"

definition cooldown_packet :: "cooldown \<Rightarrow> (string \<times> i32) option" where
  "cooldown_packet c = map_option (\<lambda>g. (g, cooldown_ticks c)) (cooldown_group c)"

section \<open>Masks\<close>

lemma bit_mask_bit: "bit (mask_bit i) j \<longleftrightarrow> i = j \<and> j < 64"
  by (auto simp: mask_bit_def bit_simps)

lemma and_mask_bit: "(m AND mask_bit i \<noteq> 0) \<longleftrightarrow> bit m i"
proof
  assume "bit m i"
  then have "bit (m AND mask_bit i) i"
    using bit_imp_le_length [of m i] by (simp add: bit_and_iff bit_mask_bit)
  then show "m AND mask_bit i \<noteq> 0" by auto
next
  assume "m AND mask_bit i \<noteq> 0"
  then obtain j where "bit (m AND mask_bit i) j" by (auto simp: bit_eq_iff)
  then show "bit m i" by (simp add: bit_and_iff bit_mask_bit)
qed

lemma set_mask_indices: "set (mask_indices m) = {i. bit m i}"
  using bit_imp_le_length [of m] by (auto simp: mask_indices_def and_mask_bit)

lemma bit_changed_mask:
  "bit (changed_mask i ps m) j \<longleftrightarrow>
     bit m j \<or> (i \<le> j \<and> j < i + length ps \<and> j < 64 \<and> fst (ps ! (j - i)) \<noteq> snd (ps ! (j - i)))"
proof (induction i ps m rule: changed_mask.induct)
  case (2 i old new ps m)
  show ?case
  proof (cases "j = i")
    case True
    then show ?thesis using 2 by (auto simp: bit_or_iff bit_mask_bit)
  next
    case False
    then have "bit (if old \<noteq> new then m OR mask_bit i else m) j = bit m j"
      by (auto simp: bit_or_iff bit_mask_bit)
    moreover have "i \<le> j \<longleftrightarrow> Suc i \<le> j" using False by auto
    moreover have "((old, new) # ps) ! (j - i) = ps ! (j - Suc i)" if "Suc i \<le> j"
      using that by (simp add: nth_Cons')
    ultimately show ?thesis using 2 by auto
  qed
qed auto

lemma mark_changed_since_frame [simp]:
  "inv_slots (mark_changed_since before iv) = inv_slots iv"
  "inv_cursor (mark_changed_since before iv) = inv_cursor iv"
  "inv_drag (mark_changed_since before iv) = inv_drag iv"
  "selected_hotbar (mark_changed_since before iv) = selected_hotbar iv"
  by (simp_all add: mark_changed_since_def)

section \<open>Every change is recorded\<close>

definition inv_ok :: "'n inventory \<Rightarrow> bool" where
  "inv_ok iv \<longleftrightarrow> length (inv_slots iv) = SIZE \<and> drag_ok SIZE (inv_drag iv) \<and> selected_hotbar iv \<le> 8"

text \<open>
  What a client shows that has applied every packet so far: the slots of window 0, the cursor
  and the selected key. \<open>tracks iv v\<close>: where the inventory's record says nothing changed, the
  client shows what the inventory holds.
\<close>

record 'n client_view =
  view_slots :: "'n slot list"
  view_cursor :: "'n slot"
  view_held :: i32

definition tracks :: "'n inventory \<Rightarrow> 'n client_view \<Rightarrow> bool" where
  "tracks iv v \<longleftrightarrow> length (view_slots v) = SIZE \<and>
     (\<forall>i < SIZE. \<not> dirty_full (inv_dirty iv) \<longrightarrow> \<not> bit (dirty_slots (inv_dirty iv)) i \<longrightarrow>
        view_slots v ! i = to_slot (inv_slots iv ! i)) \<and>
     (\<not> dirty_cursor (inv_dirty iv) \<longrightarrow> view_cursor v = to_slot (inv_cursor iv)) \<and>
     (\<not> dirty_held (inv_dirty iv) \<longrightarrow> view_held v = ucast (selected_hotbar iv))"

text \<open>The contract of everything that changes an inventory.\<close>

locale inventory_op =
  fixes op :: "'n inventory \<Rightarrow> 'n inventory"
  assumes keeps_ok: "inv_ok iv \<Longrightarrow> inv_ok (op iv)"
    and records: "inv_ok iv \<Longrightarrow> tracks iv v \<Longrightarrow> tracks (op iv) v"
begin

lemma iterate_ok: "inv_ok iv \<Longrightarrow> inv_ok ((op ^^ n) iv)"
  by (induction n) (auto intro: keeps_ok)

lemma iterate_records: "inv_ok iv \<Longrightarrow> tracks iv v \<Longrightarrow> tracks ((op ^^ n) iv) v"
  by (induction n) (auto intro: records iterate_ok)

end

lemma dirty_slots_mark: "bit (dirty_slots (inv_dirty (mark_slot i iv))) j \<longleftrightarrow>
    bit (dirty_slots (inv_dirty iv)) j \<or> i = j \<and> j < 64"
  by (simp add: mark_slot_def bit_or_iff bit_mask_bit)

interpretation marked_slot: inventory_op "mark_slot i" for i
  by unfold_locales
    (auto simp: inv_ok_def tracks_def mark_slot_def bit_or_iff)

interpretation marked_cursor: inventory_op mark_cursor
  by unfold_locales (auto simp: inv_ok_def tracks_def mark_cursor_def)

interpretation marked_full: inventory_op mark_full
  by unfold_locales (auto simp: inv_ok_def tracks_def mark_full_def)

interpretation retained: inventory_op "retain_dirty m" for m
  by unfold_locales (auto simp: inv_ok_def tracks_def retain_dirty_def bit_or_iff)

interpretation cursor_set: inventory_op "set_cursor s" for s
  by unfold_locales (auto simp: inv_ok_def tracks_def set_cursor_def mark_cursor_def)

interpretation slot_set: inventory_op "inv_set i s" for i s
proof
  fix iv :: "'a inventory" and v
  assume ok: "inv_ok iv"
  then show "inv_ok (inv_set i s iv)"
    by (auto simp: inv_ok_def inv_set_def mark_slot_def split: option.splits)
  assume "tracks iv v"
  then show "tracks (inv_set i s iv) v"
    using ok by (auto simp: tracks_def inv_set_def mark_slot_def inv_ok_def bit_or_iff bit_mask_bit
        nth_list_update split: option.splits)
qed

interpretation hotbar_set: inventory_op "set_selected_hotbar h" for h
  by unfold_locales (auto simp: inv_ok_def tracks_def set_selected_hotbar_def Let_def)

interpretation cleared: inventory_op clear
  by unfold_locales (auto simp: inv_ok_def tracks_def clear_def)

lemma mark_changed_since_ok:
  assumes "length before = SIZE" "length (inv_slots iv) = SIZE"
    and "tracks (iv\<lparr>inv_slots := before\<rparr>) v"
  shows "tracks (mark_changed_since before iv) v"
proof -
  let ?m = "changed_mask 0 (zip before (inv_slots iv)) (dirty_slots (inv_dirty iv))"
  have "view_slots v ! i = to_slot (inv_slots iv ! i)"
    if i: "i < SIZE" and "\<not> dirty_full (inv_dirty iv)" and clear_bit: "\<not> bit ?m i" for i
  proof -
    have "before ! i = inv_slots iv ! i" and "\<not> bit (dirty_slots (inv_dirty iv)) i"
      using clear_bit i assms(1,2) by (auto simp: bit_changed_mask)
    moreover from this have "view_slots v ! i = to_slot (before ! i)"
      using assms(3) that by (simp add: tracks_def)
    ultimately show ?thesis by simp
  qed
  then show ?thesis using assms(3) unfolding tracks_def mark_changed_since_def by simp
qed

lemma storage_order_range: "\<forall>i \<in> set storage_order. i < SIZE"
  by (simp add: storage_order_def)

interpretation given: inventory_op "\<lambda>iv. snd (give stack iv)" for stack
proof
  fix iv :: "'a inventory" and v
  assume ok: "inv_ok iv"
  obtain ss rest where d: "deposit item_max_stack storage_order (inv_slots iv) stack = (ss, rest)"
    by fastforce
  have len: "length ss = length (inv_slots iv)"
    using deposit_amount(2) [OF d] storage_order_range ok by (simp add: inv_ok_def)
  show "inv_ok (snd (give stack iv))"
    using ok len by (simp add: give_def d inv_ok_def mark_changed_since_def)
  assume t: "tracks iv v"
  have "tracks (mark_changed_since (inv_slots iv) (iv\<lparr>inv_slots := ss\<rparr>)) v"
    using t ok len by (intro mark_changed_since_ok) (auto simp: inv_ok_def)
  then show "tracks (snd (give stack iv)) v" using t by (simp add: give_def d)
qed

lemma player_window_ok: "inv_ok iv \<Longrightarrow> window_ok (player_window cr iv)"
  by (simp add: window_ok_def player_window_def layout_ok_def inv_ok_def PLAYER_def)

lemma inv_apply_click_window:
  assumes "inv_ok iv" and "inv_apply_click slot button inp cr iv = (out, iv')"
  obtains w where "apply_click item_max_stack slot button inp (player_window cr iv) = (out, w)"
    and "keeps_window item_max_stack (\<not> survival (player_window cr iv)) (player_window cr iv) out w"
    and "inv_slots iv' = slots w" "inv_cursor iv' = cursor w" "inv_drag iv' = drag w"
    and "selected_hotbar iv' = selected_hotbar iv"
proof -
  obtain w where w: "apply_click item_max_stack slot button inp (player_window cr iv) = (out, w)"
    using assms(2) by (auto simp: inv_apply_click_def Let_def split: prod.splits)
  have "inv_slots iv' = slots w" "inv_cursor iv' = cursor w" "inv_drag iv' = drag w"
    "selected_hotbar iv' = selected_hotbar iv"
    using assms(2) w
    by (auto simp: inv_apply_click_def Let_def mark_changed_since_def mark_cursor_def)
  then show thesis using that [OF w vanilla.keeps [OF player_window_ok [OF assms(1)] w]] by blast
qed

interpretation clicked: inventory_op "\<lambda>iv. snd (inv_apply_click slot button inp cr iv)"
  for slot button inp cr
proof
  fix iv :: "'a inventory" and v
  assume ok: "inv_ok iv"
  obtain out iv' where run: "inv_apply_click slot button inp cr iv = (out, iv')" by fastforce
  obtain w where w: "apply_click item_max_stack slot button inp (player_window cr iv) = (out, w)"
    and keeps: "keeps_window item_max_stack (\<not> survival (player_window cr iv)) (player_window cr iv) out w"
    and iv': "inv_slots iv' = slots w" "inv_cursor iv' = cursor w" "inv_drag iv' = drag w"
      "selected_hotbar iv' = selected_hotbar iv"
    using inv_apply_click_window [OF ok run] by metis
  have "window_ok w" "layout w = PLAYER"
    using keeps_windowD(3,4) [OF keeps] by (auto simp: player_window_def)
  then have shape: "length (slots w) = SIZE" "drag_ok SIZE (drag w)"
    by (auto simp: window_ok_def PLAYER_def)
  then show "inv_ok (snd (inv_apply_click slot button inp cr iv))"
    using ok iv' by (simp add: run inv_ok_def)
  assume t: "tracks iv v"
  let ?iv = "iv\<lparr>inv_slots := slots w, inv_cursor := cursor w, inv_drag := drag w\<rparr>"
  let ?marked = "mark_changed_since (inv_slots iv)
    (iv\<lparr>inv_slots := slots w, inv_cursor := inv_cursor iv, inv_drag := drag w\<rparr>)"
  have "tracks ?marked v"
    using t ok shape by (intro mark_changed_since_ok) (auto simp: inv_ok_def tracks_def)
  then have "tracks (if cursor w \<noteq> inv_cursor iv then mark_cursor (mark_changed_since (inv_slots iv) ?iv)
      else mark_changed_since (inv_slots iv) ?iv) v"
    by (auto simp: tracks_def mark_changed_since_def mark_cursor_def)
  then show "tracks (snd (inv_apply_click slot button inp cr iv)) v"
    using w by (simp add: inv_apply_click_def Let_def)
qed

section \<open>Giving a stack\<close>

text \<open>C36: \<open>give\<close> loses nothing, touches only the hotbar and the main rows, and returns a rest
  only when those are full: then none of their slots is empty and every slot of that kind holds the
  maximum.\<close>

theorem give_fills_the_inventory:
  assumes "inv_ok iv" and "\<not> stack_is_empty stack" and "give stack iv = (rest, iv')"
  shows "amounts k (inv_slots iv') + amount k rest = amounts k (inv_slots iv) + amount k stack \<and>
    (\<forall>i. i < MAIN_START \<or> i = OFFHAND \<longrightarrow> inv_slots iv' ! i = inv_slots iv ! i) \<and>
    (stack_count rest \<noteq> 0 \<longrightarrow>
      (\<forall>i. MAIN_START \<le> i \<and> i < OFFHAND \<longrightarrow> \<not> stack_is_empty (inv_slots iv' ! i) \<and>
        (kind_of (inv_slots iv' ! i) = kind_of stack \<longrightarrow>
          item_max_stack (stack_item stack) \<le> stack_count (inv_slots iv' ! i))))"
proof -
  have d: "deposit item_max_stack storage_order (inv_slots iv) stack = (inv_slots iv', rest)"
    using assms(2,3) by (auto simp: give_def Let_def split: prod.splits)
  have rng: "\<forall>i \<in> set storage_order. i < length (inv_slots iv)"
    using storage_order_range assms(1) by (simp add: inv_ok_def)
  have order: "i \<in> set storage_order \<longleftrightarrow> MAIN_START \<le> i \<and> i < OFFHAND" for i
    by (simp only: storage_order_def set_append set_upt) auto
  show ?thesis
    using deposit_amount(1) [OF d rng, of k] deposit_other [OF d]
      deposit_full [OF d rng assms(2) _ item_max_stack_pos] order
    by auto
qed

lemma give_fills_the_inventory_witness:
  "let r = give (new_stack 5 200) (new_inventory :: u8 list inventory)
   in amounts (5, []) (inv_slots (snd r)) + amount (5, []) (fst r) = 200 \<and>
     inv_slots (snd r) ! 3 = EMPTY_STACK"
proof -
  let ?iv = "new_inventory :: u8 list inventory" and ?s = "new_stack 5 200 :: u8 list item_stack"
  have ok: "inv_ok ?iv" by (simp add: inv_ok_def new_inventory_def drag_ok_def)
  have ne: "\<not> stack_is_empty ?s" by (simp add: stack_is_empty_def new_stack_def)
  have "amounts (5, []) (inv_slots ?iv) + amount (5, []) ?s = 200"
    by (simp add: new_inventory_def amounts_def sum_list_replicate amount_alt new_stack_def
        kind_of_def EMPTY_STACK_def)
  moreover have "inv_slots ?iv ! 3 = EMPTY_STACK" by (simp add: new_inventory_def)
  ultimately show ?thesis
    using give_fills_the_inventory [OF ok ne prod.collapse [symmetric], of "(5, [])"]
    by (simp add: Let_def)
qed

end
