(* ===== verification/Menu.thy ===== *)
theory Menu
  imports Inventory "HOL-Library.Signed_Division"
begin

text \<open>
  Menus (\<open>void/src/menu.rs\<close>): the window types with their slot counts, a menu's contents and
  what of it changed, the container ids, and the translation of window slots. The closure a menu
  is built with is the parameter \<open>'h\<close>.
\<close>

section \<open>Menu types\<close>

datatype menu_type =
    Generic9x1 | Generic9x2 | Generic9x3 | Generic9x4 | Generic9x5 | Generic9x6
  | Generic3x3 | Crafter3x3 | Anvil | Beacon | BlastFurnace | BrewingStand | Crafting
  | Enchantment | Furnace | Grindstone | Hopper | Lectern | Loom | Merchant | ShulkerBox
  | Smithing | Smoker | CartographyTable | Stonecutter

definition ALL_MENUS :: "menu_type list" where
  "ALL_MENUS = [
     Generic9x1, Generic9x2, Generic9x3, Generic9x4, Generic9x5, Generic9x6,
     Generic3x3, Crafter3x3, Anvil, Beacon, BlastFurnace, BrewingStand, Crafting,
     Enchantment, Furnace, Grindstone, Hopper, Lectern, Loom, Merchant, ShulkerBox,
     Smithing, Smoker, CartographyTable, Stonecutter]"

definition chest :: "u8 \<Rightarrow> menu_type option" where
  "chest rows =
     (if rows = 1 then Some Generic9x1 else if rows = 2 then Some Generic9x2
      else if rows = 3 then Some Generic9x3 else if rows = 4 then Some Generic9x4
      else if rows = 5 then Some Generic9x5 else if rows = 6 then Some Generic9x6
      else None)"

fun menu_name :: "menu_type \<Rightarrow> string" where
  "menu_name Generic9x1 = ''minecraft:generic_9x1''"
| "menu_name Generic9x2 = ''minecraft:generic_9x2''"
| "menu_name Generic9x3 = ''minecraft:generic_9x3''"
| "menu_name Generic9x4 = ''minecraft:generic_9x4''"
| "menu_name Generic9x5 = ''minecraft:generic_9x5''"
| "menu_name Generic9x6 = ''minecraft:generic_9x6''"
| "menu_name Generic3x3 = ''minecraft:generic_3x3''"
| "menu_name Crafter3x3 = ''minecraft:crafter_3x3''"
| "menu_name Anvil = ''minecraft:anvil''"
| "menu_name Beacon = ''minecraft:beacon''"
| "menu_name BlastFurnace = ''minecraft:blast_furnace''"
| "menu_name BrewingStand = ''minecraft:brewing_stand''"
| "menu_name Crafting = ''minecraft:crafting''"
| "menu_name Enchantment = ''minecraft:enchantment''"
| "menu_name Furnace = ''minecraft:furnace''"
| "menu_name Grindstone = ''minecraft:grindstone''"
| "menu_name Hopper = ''minecraft:hopper''"
| "menu_name Lectern = ''minecraft:lectern''"
| "menu_name Loom = ''minecraft:loom''"
| "menu_name Merchant = ''minecraft:merchant''"
| "menu_name ShulkerBox = ''minecraft:shulker_box''"
| "menu_name Smithing = ''minecraft:smithing''"
| "menu_name Smoker = ''minecraft:smoker''"
| "menu_name CartographyTable = ''minecraft:cartography_table''"
| "menu_name Stonecutter = ''minecraft:stonecutter''"

definition menu_slot_count :: "menu_type \<Rightarrow> nat" where
  "menu_slot_count k =
     (case k of
        Generic9x1 \<Rightarrow> 9 | Generic9x2 \<Rightarrow> 18 | Generic9x3 \<Rightarrow> 27 | ShulkerBox \<Rightarrow> 27
      | Generic9x4 \<Rightarrow> 36 | Generic9x5 \<Rightarrow> 45 | Generic9x6 \<Rightarrow> 54
      | Generic3x3 \<Rightarrow> 9 | Crafter3x3 \<Rightarrow> 9
      | Anvil \<Rightarrow> 3 | BlastFurnace \<Rightarrow> 3 | Furnace \<Rightarrow> 3 | Smoker \<Rightarrow> 3 | Grindstone \<Rightarrow> 3
      | Merchant \<Rightarrow> 3 | CartographyTable \<Rightarrow> 3
      | Beacon \<Rightarrow> 1 | Lectern \<Rightarrow> 1
      | BrewingStand \<Rightarrow> 5 | Hopper \<Rightarrow> 5
      | Crafting \<Rightarrow> 10
      | Enchantment \<Rightarrow> 2 | Stonecutter \<Rightarrow> 2
      | Loom \<Rightarrow> 4 | Smithing \<Rightarrow> 4)"

definition shows_player_inventory :: "menu_type \<Rightarrow> bool" where
  "shows_player_inventory k \<longleftrightarrow> k \<noteq> Lectern"

text \<open>\<open>registry_id\<close>; the lookup \<open>voidmc_data::menu_id\<close> is a parameter, None the panic.\<close>

definition menu_registry_id :: "(string \<Rightarrow> i32 option) \<Rightarrow> menu_type \<Rightarrow> i32 option" where
  "menu_registry_id menu_id k = menu_id (menu_name k)"

definition type_layout :: "menu_type \<Rightarrow> layout" where
  "type_layout k = menu_layout (menu_slot_count k) (shows_player_inventory k)"

section \<open>Menus\<close>

record ('n, 'h) menu =
  menu_kind :: menu_type
  menu_title :: string
  menu_slots :: "'n item_stack list"
  editable :: bool
  handler :: "'h option"
  menu_dirty :: u64
  title_dirty :: bool

definition new_menu :: "menu_type \<Rightarrow> string \<Rightarrow> ('n, 'h) menu" where
  "new_menu k t = \<lparr>menu_kind = k, menu_title = t,
     menu_slots = replicate (menu_slot_count k) EMPTY_STACK, editable = False, handler = None,
     menu_dirty = 0, title_dirty = False\<rparr>"

text \<open>\<open>rows.clamp(1, 6)\<close> is always a chest, so the \<open>unwrap\<close> never panics.\<close>

definition chest_menu :: "u8 \<Rightarrow> string \<Rightarrow> ('n, 'h) menu" where
  "chest_menu rows t = new_menu (the (chest (max 1 (min 6 rows)))) t"

definition menu_mark_slot :: "nat \<Rightarrow> ('n, 'h) menu \<Rightarrow> ('n, 'h) menu" where
  "menu_mark_slot i m = m\<lparr>menu_dirty := menu_dirty m OR mask_bit i\<rparr>"

definition set_slot :: "nat \<Rightarrow> 'n item_stack \<Rightarrow> ('n, 'h) menu \<Rightarrow> ('n, 'h) menu" where
  "set_slot i s m =
     (case slice_get (menu_slots m) i of
        Some old \<Rightarrow>
          if old \<noteq> s then menu_mark_slot i (m\<lparr>menu_slots := (menu_slots m)[i := s]\<rparr>) else m
      | None \<Rightarrow> m)"

text \<open>The loop of \<open>fill\<close> over the slot indices.\<close>

definition fill :: "'n item_stack \<Rightarrow> ('n, 'h) menu \<Rightarrow> ('n, 'h) menu" where
  "fill s m = fold (\<lambda>i. set_slot i s) [0..<length (menu_slots m)] m"

definition on_click :: "'h \<Rightarrow> ('n, 'h) menu \<Rightarrow> ('n, 'h) menu" where
  "on_click h m = m\<lparr>handler := Some h\<rparr>"

definition set_editable :: "('n, 'h) menu \<Rightarrow> ('n, 'h) menu" where
  "set_editable m = m\<lparr>editable := True\<rparr>"

definition set_title :: "string \<Rightarrow> ('n, 'h) menu \<Rightarrow> ('n, 'h) menu" where
  "set_title t m = (if menu_title m \<noteq> t then m\<lparr>menu_title := t, title_dirty := True\<rparr> else m)"

definition menu_get :: "nat \<Rightarrow> ('n, 'h) menu \<Rightarrow> 'n item_stack" where
  "menu_get i m = (case slice_get (menu_slots m) i of Some s \<Rightarrow> s | None \<Rightarrow> EMPTY_STACK)"

definition menu_take_dirty :: "('n, 'h) menu \<Rightarrow> (u64 \<times> bool) \<times> ('n, 'h) menu" where
  "menu_take_dirty m = ((menu_dirty m, title_dirty m), m\<lparr>menu_dirty := 0, title_dirty := False\<rparr>)"

definition layout_of :: "('n, 'h) menu \<Rightarrow> layout" where
  "layout_of m = type_layout (menu_kind m)"

section \<open>Open menus\<close>

datatype close_reason = ByClient | ByServer | Replaced | Disconnect

text \<open>The counter behind container ids; Rust's \<open>%\<close> is the signed remainder.\<close>

record container_ids =
  last_id :: i32

definition allocate :: "container_ids \<Rightarrow> i32 \<times> container_ids" where
  "allocate ids =
     (let n = word_of_int (sint (last_id ids) smod 100) + 1 in (n, ids\<lparr>last_id := n\<rparr>))"

record ('n, 'h) open_menu =
  om_menu :: "('n, 'h) menu"
  container_id :: "i32 option"
  om_state_id :: i32
  om_drag :: "drag_state option"
  full_resync :: bool
  closing :: "close_reason option"

definition new_open_menu :: "('n, 'h) menu \<Rightarrow> ('n, 'h) open_menu" where
  "new_open_menu m = \<lparr>om_menu = m, container_id = None, om_state_id = 0, om_drag = None,
     full_resync = True, closing = None\<rparr>"

definition om_next_state_id :: "('n, 'h) open_menu \<Rightarrow> i32 \<times> ('n, 'h) open_menu" where
  "om_next_state_id om =
     (let s = (om_state_id om + 1) AND 32767 in (s, om\<lparr>om_state_id := s\<rparr>))"

text \<open>\<open>DerefMut\<close>: an operation of the menu on the open menu.\<close>

definition on_menu :: "(('n, 'h) menu \<Rightarrow> ('n, 'h) menu) \<Rightarrow> ('n, 'h) open_menu \<Rightarrow> ('n, 'h) open_menu" where
  "on_menu f om = om\<lparr>om_menu := f (om_menu om)\<rparr>"

section \<open>Window slots\<close>

datatype menu_slot = InMenu nat | InInventory nat | Outside

definition from_window :: "layout \<Rightarrow> i16 \<Rightarrow> menu_slot option" where
  "from_window l window_slot =
     (if window_slot = SLOT_OUTSIDE then Some Outside
      else if sint window_slot < 0 then None
      else
        (let index = nat (sint window_slot) in
         if in_range (container l) index then Some (InMenu index)
         else if in_range (fst (main l), snd (hotbar l)) index then
           Some (InInventory (MAIN_START + index - fst (main l)))
         else None))"

definition menu_index :: "menu_slot \<Rightarrow> nat option" where
  "menu_index s = (case s of InMenu i \<Rightarrow> Some i | _ \<Rightarrow> None)"

record 'n menu_click =
  mc_player :: nat
  mc_container_id :: i32
  mc_slot :: menu_slot
  mc_button :: i8
  mc_input :: container_input
  mc_item :: "'n item_stack"

section \<open>Facts about the menu types\<close>

lemma ALL_MENUS_all: "k \<in> set ALL_MENUS" and ALL_MENUS_distinct: "distinct ALL_MENUS"
  by (cases k; simp add: ALL_MENUS_def) (simp add: ALL_MENUS_def)

lemma menu_slot_count_bounds: "0 < menu_slot_count k" "menu_slot_count k \<le> 54"
  by (cases k; simp add: menu_slot_count_def)+

lemma type_layout_parts:
  "container (type_layout k) = (0, menu_slot_count k)" "fst (main (type_layout k)) = menu_slot_count k"
  "snd (hotbar (type_layout k)) = layout_size (type_layout k)"
  "layout_size (type_layout k) = menu_slot_count k + (if k = Lectern then 0 else 36)"
  by (simp_all add: type_layout_def menu_layout_def shows_player_inventory_def)

lemma type_layout_ok: "layout_ok (type_layout k)"
  by (auto simp: type_layout_def layout_ok_def)

text \<open>
  The window of a menu and the inventory behind it: every window slot is a slot of the menu or
  one of the 36 the inventory shows, and no two window slots are the same.
\<close>

lemma from_window_cases:
  assumes "from_window (type_layout k) ws = Some s"
  obtains (outside) "ws = SLOT_OUTSIDE" "s = Outside"
  | (menu) i where "nat (sint ws) = i" "0 \<le> sint ws" "i < menu_slot_count k" "s = InMenu i"
  | (inventory) i where "0 \<le> sint ws" "menu_slot_count k \<le> nat (sint ws)"
      "nat (sint ws) < layout_size (type_layout k)" "s = InInventory (MAIN_START + nat (sint ws) - menu_slot_count k)"
  using assms
  by (auto simp: from_window_def in_range_def type_layout_parts Let_def split: if_splits)

text \<open>Container ids run through 1 to 100 and start over: none is ever 0, the id of the player's
  own window, and the next id always differs from the last, so a packet for the menu that was just
  replaced cannot be taken for the new one.\<close>

theorem allocate_cycles:
  assumes "0 \<le> sint (last_id ids)" and "sint (last_id ids) \<le> 100"
  shows "sint (fst (allocate ids)) = (if sint (last_id ids) = 100 then 1 else sint (last_id ids) + 1) \<and>
    fst (allocate ids) \<noteq> 0 \<and> fst (allocate ids) \<noteq> last_id ids \<and>
    last_id (snd (allocate ids)) = fst (allocate ids)"
proof -
  let ?l = "sint (last_id ids)"
  have rem: "?l smod 100 = (if ?l = 100 then 0 else ?l)"
    using assms by (simp add: signed_modulo_int_def signed_divide_int_def sgn_if)
  have n: "fst (allocate ids) = word_of_int (?l smod 100) + 1" by (simp add: allocate_def Let_def)
  then have w: "fst (allocate ids) = word_of_int (?l smod 100 + 1)" by simp
  have s: "sint (fst (allocate ids)) = ?l smod 100 + 1"
    unfolding w using assms rem
    by (intro trans [OF sint_sbintrunc'] signed_take_bit_int_eq_self) auto
  then have "fst (allocate ids) \<noteq> 0" using assms rem by (auto split: if_splits)
  moreover have "fst (allocate ids) \<noteq> last_id ids" using s rem by (auto split: if_splits)
  ultimately show ?thesis using s rem by (simp add: allocate_def Let_def)
qed

lemma allocate_cycles_witness:
  "sint (fst (allocate \<lparr>last_id = 100\<rparr>)) = 1 \<and> sint (fst (allocate \<lparr>last_id = 7\<rparr>)) = 8"
  using allocate_cycles [of "\<lparr>last_id = 100\<rparr>"] allocate_cycles [of "\<lparr>last_id = 7\<rparr>"] by simp

end
