(* ===== verification/Container_Sync.thy ===== *)
theory Container_Sync
  imports Menu
begin

text \<open>
  The container windows of a player, \<open>void/src/plugins/inventory.rs\<close> with the opening and closing of
  \<open>void/src/menu.rs\<close>: clicks, closes, and the tick that sends the client what changed. The
  functions take one player's components; packets and events are the lists of what they sent and
  triggered. Entities are naturals. The ECS applies removals that were queued as commands before
  the next system runs; here they happen at once.
\<close>

section \<open>Packets, events, components\<close>

datatype 'n container_packet =
    SetContainerContent i32 i32 "'n slot list" "'n slot"
  | SetContainerSlot i32 i32 i16 "'n slot"
  | SetCursorItem "'n slot"
  | SetHeldSlot i32
  | OpenScreen i32 i32 string
  | CloseContainer i32

datatype 'n player_event =
    ItemDrop nat "'n item_stack"
  | MenuClosed nat i32 close_reason

record ('n, 'h) player =
  p_inventory :: "'n inventory option"
  p_open :: "('n, 'h) open_menu option"
  p_ids :: container_ids

abbreviation PLAYER_WINDOW_ID :: i32 where "PLAYER_WINDOW_ID \<equiv> 0"
abbreviation CREATIVE_GAME_MODE :: u8 where "CREATIVE_GAME_MODE \<equiv> 1"

section \<open>Becoming ready, selecting a slot\<close>

definition sync_inventory_on_ready :: "'n inventory \<Rightarrow> 'n container_packet list \<times> 'n inventory" where
  "sync_inventory_on_ready iv =
     (let (_, iv1) = take_dirty iv; (state_id, iv2) = inv_next_state_id iv1
      in ([SetContainerContent PLAYER_WINDOW_ID state_id (to_slots iv2) (to_slot (inv_cursor iv2)),
           SetHeldSlot (ucast (selected_hotbar iv2))], iv2))"

definition track_selected_slot :: "i16 \<Rightarrow> 'n inventory \<Rightarrow> 'n inventory" where
  "track_selected_slot slot iv =
     accept_selected_hotbar (word_of_int (max 0 (min 8 (sint slot)))) iv"

section \<open>Clicks\<close>

text \<open>\<open>visible_inventory\<close>: the inventory indices a menu window shows after its own slots.\<close>

definition visible_inventory :: "layout \<Rightarrow> range" where
  "visible_inventory l = (MAIN_START, MAIN_START + snd (hotbar l) - fst (main l))"

text \<open>The write-back loop of \<open>apply_menu_click\<close> over the enumerated pairs, from \<open>index\<close> on.\<close>

fun write_back ::
  "layout \<Rightarrow> nat \<Rightarrow> ('n item_stack \<times> 'n item_stack) list \<Rightarrow> ('n, 'h) open_menu \<Rightarrow> 'n inventory \<Rightarrow>
   ('n, 'h) open_menu \<times> 'n inventory" where
  "write_back l index [] om iv = (om, iv)"
| "write_back l index ((old, new) # ps) om iv =
     (if old = new then write_back l (Suc index) ps om iv
      else if in_range (container l) index then
        write_back l (Suc index) ps (on_menu (set_slot index new) om) iv
      else write_back l (Suc index) ps om (inv_set (MAIN_START + index - fst (main l)) new iv))"

definition menu_window :: "bool \<Rightarrow> layout \<Rightarrow> 'n inventory \<Rightarrow> ('n, 'h) open_menu \<Rightarrow> 'n window" where
  "menu_window cr l iv om =
     \<lparr>slots = menu_slots (om_menu om) @
        take (snd (visible_inventory l) - fst (visible_inventory l))
          (drop (fst (visible_inventory l)) (inv_slots iv)),
      cursor = inv_cursor iv, drag = om_drag om, layout = l, creative = cr\<rparr>"

definition apply_menu_click ::
  "layout \<Rightarrow> click_container \<Rightarrow> bool \<Rightarrow> 'n inventory \<Rightarrow> ('n, 'h) open_menu \<Rightarrow>
   'n item_stack list \<times> ('n, 'h) open_menu \<times> 'n inventory" where
  "apply_menu_click l packet cr iv om =
     (let before = slots (menu_window cr l iv om);
          (dropped, w) = apply_click item_max_stack (click_slot packet) (click_button packet)
            (click_input packet) (menu_window cr l iv om);
          (om', iv') = write_back l 0 (zip before (slots w)) (om\<lparr>om_drag := drag w\<rparr>) iv
      in (dropped, om', set_cursor (cursor w) iv'))"

text \<open>The loop that marks what the client changed on its own in a read-only menu.\<close>

fun mark_changed ::
  "layout \<Rightarrow> changed_slot list \<Rightarrow> ('n, 'h) open_menu \<Rightarrow> 'n inventory \<Rightarrow>
   ('n, 'h) open_menu \<times> 'n inventory" where
  "mark_changed l [] om iv = (om, iv)"
| "mark_changed l (c # cs) om iv =
     (case from_window l (changed_index c) of
        Some (InMenu index) \<Rightarrow> mark_changed l cs (on_menu (menu_mark_slot index) om) iv
      | Some (InInventory index) \<Rightarrow> mark_changed l cs om (mark_slot index iv)
      | _ \<Rightarrow> mark_changed l cs om iv)"

definition menu_slot_item :: "menu_slot \<Rightarrow> ('n, 'h) open_menu \<Rightarrow> 'n inventory \<Rightarrow> 'n item_stack" where
  "menu_slot_item s om iv =
     (case s of
        InMenu index \<Rightarrow> menu_get index (om_menu om)
      | InInventory index \<Rightarrow> inv_get index iv
      | Outside \<Rightarrow> EMPTY_STACK)"

definition handle_container_click ::
  "u8 option \<Rightarrow> nat \<Rightarrow> click_container \<Rightarrow> ('n, 'h) player \<Rightarrow>
   'n player_event list \<times> 'n menu_click list \<times> ('n, 'h) player" where
  "handle_container_click game_mode entity packet p =
     (let cr = (game_mode = Some CREATIVE_GAME_MODE) in
      case p_inventory p of
        None \<Rightarrow> ([], [], p)
      | Some iv \<Rightarrow>
        if sint (click_slot packet) < - 1 \<and> click_slot packet \<noteq> SLOT_OUTSIDE then ([], [], p)
        else if click_container_id packet = PLAYER_WINDOW_ID then
          (if p_open p \<noteq> None then ([], [], p)
           else
             (let iv1 = (if click_state_id packet \<noteq> inv_state_id iv then mark_full iv else iv);
                  (dropped, iv2) = inv_apply_click (click_slot packet) (click_button packet)
                    (click_input packet) cr iv1
              in (map (ItemDrop entity) dropped, [], p\<lparr>p_inventory := Some iv2\<rparr>)))
        else
          (case p_open p of
             None \<Rightarrow> ([], [], p)
           | Some om \<Rightarrow>
               if container_id om \<noteq> Some (click_container_id packet) then ([], [], p)
               else
                 (let l = layout_of (om_menu om) in
                  case from_window l (click_slot packet) of
                    None \<Rightarrow> ([], [], p)
                  | Some s \<Rightarrow>
                      (let item = menu_slot_item s om iv;
                           stale = (click_state_id packet \<noteq> om_state_id om);
                           (dropped, om1, iv1) =
                             (if editable (om_menu om) then apply_menu_click l packet cr iv om
                              else
                                (let (om', iv') = mark_changed l (changed_slots packet) om iv
                                 in ([], om', mark_cursor iv')));
                           om2 = (if stale then om1\<lparr>full_resync := True\<rparr> else om1)
                       in (map (ItemDrop entity) dropped,
                           [\<lparr>mc_player = entity, mc_container_id = click_container_id packet,
                             mc_slot = s, mc_button = click_button packet,
                             mc_input = click_input packet, mc_item = item\<rparr>],
                           p\<lparr>p_inventory := Some iv1, p_open := Some om2\<rparr>)))))"

section \<open>Opening and closing\<close>

definition on_menu_removed ::
  "nat \<Rightarrow> ('n, 'h) open_menu \<Rightarrow> 'n inventory \<Rightarrow>
   'n container_packet list \<times> 'n player_event list \<times> 'n inventory" where
  "on_menu_removed entity om iv =
     (case container_id om of
        None \<Rightarrow> ([], [], iv)
      | Some cid \<Rightarrow>
          (let reason = (case closing om of Some r \<Rightarrow> r | None \<Rightarrow> ByServer);
               packets = (if reason \<noteq> ByClient \<and> reason \<noteq> Disconnect then [CloseContainer cid] else []);
               carried = inv_cursor iv;
               iv1 = mark_cursor (iv\<lparr>inv_cursor := EMPTY_STACK\<rparr>);
               (leftover, iv2) = give carried iv1
           in (packets,
               (if stack_is_empty leftover then [] else [ItemDrop entity leftover]) @
                 [MenuClosed entity cid reason],
               mark_full iv2)))"

text \<open>Removing the \<open>OpenMenu\<close> component runs \<open>on_menu_removed\<close>.\<close>

definition remove_open_menu ::
  "nat \<Rightarrow> ('n, 'h) player \<Rightarrow> 'n container_packet list \<times> 'n player_event list \<times> ('n, 'h) player" where
  "remove_open_menu entity p =
     (case (p_open p, p_inventory p) of
        (Some om, Some iv) \<Rightarrow>
          (let (packets, events, iv') = on_menu_removed entity om iv
           in (packets, events, p\<lparr>p_inventory := Some iv', p_open := None\<rparr>))
      | _ \<Rightarrow> ([], [], p\<lparr>p_open := None\<rparr>))"

definition set_closing :: "close_reason \<Rightarrow> ('n, 'h) player \<Rightarrow> ('n, 'h) player" where
  "set_closing r p = p\<lparr>p_open := map_option (\<lambda>om. om\<lparr>closing := Some r\<rparr>) (p_open p)\<rparr>"

definition handle_close_container ::
  "nat \<Rightarrow> i32 \<Rightarrow> ('n, 'h) player \<Rightarrow>
   'n container_packet list \<times> 'n player_event list \<times> ('n, 'h) player" where
  "handle_close_container entity cid p =
     (case p_open p of
        None \<Rightarrow> ([], [], p)
      | Some om \<Rightarrow>
          if container_id om \<noteq> Some cid then ([], [], p)
          else remove_open_menu entity (set_closing ByClient p))"

definition mark_menu_closed_on_quit :: "('n, 'h) player \<Rightarrow> ('n, 'h) player" where
  "mark_menu_closed_on_quit p = set_closing Disconnect p"

text \<open>\<open>None\<close> for the player: the entity no longer exists.\<close>

definition open_in_world ::
  "nat \<Rightarrow> ('n, 'h) menu \<Rightarrow> ('n, 'h) player option \<Rightarrow>
   bool \<times> 'n container_packet list \<times> 'n player_event list \<times> ('n, 'h) player option" where
  "open_in_world entity m entry =
     (case entry of
        None \<Rightarrow> (False, [], [], None)
      | Some p \<Rightarrow>
          if p_inventory p = None then (False, [], [], Some p)
          else
            (let (packets, events, p1) =
               (if p_open p \<noteq> None then remove_open_menu entity (set_closing Replaced p)
                else ([], [], p))
             in (True, packets, events, Some (p1\<lparr>p_open := Some (new_open_menu m)\<rparr>))))"

definition close_in_world ::
  "nat \<Rightarrow> ('n, 'h) player option \<Rightarrow>
   bool \<times> 'n container_packet list \<times> 'n player_event list \<times> ('n, 'h) player option" where
  "close_in_world entity entry =
     (case entry of
        None \<Rightarrow> (False, [], [], None)
      | Some p \<Rightarrow>
          if p_open p = None then (False, [], [], Some p)
          else
            (let (packets, events, p1) = remove_open_menu entity (set_closing ByServer p)
             in (True, packets, events, Some p1)))"

section \<open>The tick\<close>

definition range_mask :: "range \<Rightarrow> u64" where
  "range_mask r = fold (\<lambda>i m. m OR mask_bit i) (range_list r) 0"

definition window_slots :: "'n inventory \<Rightarrow> ('n, 'h) open_menu \<Rightarrow> layout \<Rightarrow> 'n slot list" where
  "window_slots iv om l =
     map to_slot (menu_slots (om_menu om)) @
     map (\<lambda>i. to_slot (inv_get i iv)) (range_list (visible_inventory l))"

definition open_screen :: "(menu_type \<Rightarrow> i32) \<Rightarrow> i32 \<Rightarrow> ('n, 'h) menu \<Rightarrow> 'n container_packet" where
  "open_screen registry cid m = OpenScreen cid (registry (menu_kind m)) (menu_title m)"

text \<open>One Set Container Slot per entry, each under the next state id.\<close>

fun send_menu_slots ::
  "i32 \<Rightarrow> (nat \<times> 'n slot) list \<Rightarrow> ('n, 'h) open_menu \<Rightarrow> 'n container_packet list \<times> ('n, 'h) open_menu" where
  "send_menu_slots cid [] om = ([], om)"
| "send_menu_slots cid ((index, data) # ds) om =
     (let (state_id, om1) = om_next_state_id om; (ps, om2) = send_menu_slots cid ds om1
      in (SetContainerSlot cid state_id (word_of_nat index) data # ps, om2))"

fun send_inventory_slots ::
  "(nat \<times> 'n slot) list \<Rightarrow> 'n inventory \<Rightarrow> 'n container_packet list \<times> 'n inventory" where
  "send_inventory_slots [] iv = ([], iv)"
| "send_inventory_slots ((index, data) # ds) iv =
     (let (state_id, iv1) = inv_next_state_id iv; (ps, iv2) = send_inventory_slots ds iv1
      in (SetContainerSlot PLAYER_WINDOW_ID state_id (word_of_nat index) data # ps, iv2))"

text \<open>The first half of the menu branch: the id, and the Open Screen packet where one is due.\<close>

definition screen_step ::
  "(menu_type \<Rightarrow> i32) \<Rightarrow> bool \<Rightarrow> ('n, 'h) open_menu \<Rightarrow> container_ids \<Rightarrow>
   i32 \<times> 'n container_packet list \<times> ('n, 'h) open_menu \<times> container_ids" where
  "screen_step registry t_dirty om1 ids =
     (case container_id om1 of
        Some cid \<Rightarrow>
          if t_dirty then
            (cid, [open_screen registry cid (om_menu om1)], om1\<lparr>full_resync := True\<rparr>, ids)
          else (cid, [], om1, ids)
      | None \<Rightarrow>
          (let (cid, ids1) = allocate ids;
               om2 = om1\<lparr>container_id := Some cid, full_resync := True\<rparr>
           in (cid, [open_screen registry cid (om_menu om2)], om2, ids1)))"

text \<open>The second half: everything, or slot by slot what is marked.\<close>

definition menu_packets ::
  "i32 \<Rightarrow> u64 \<Rightarrow> dirty \<Rightarrow> layout \<Rightarrow> 'n inventory \<Rightarrow> ('n, 'h) open_menu \<Rightarrow>
   'n container_packet list \<times> ('n, 'h) open_menu" where
  "menu_packets cid m_dirty d l iv om =
     (let resync = full_resync om; om1 = om\<lparr>full_resync := False\<rparr> in
      if resync \<or> dirty_full d then
        (let (state_id, om2) = om_next_state_id om1
         in ([SetContainerContent cid state_id (window_slots iv om2 l) (to_slot (inv_cursor iv))], om2))
      else
        (let (ps, om2) = send_menu_slots cid
               (map (\<lambda>i. (i, to_slot (menu_get i (om_menu om1))))
                 (filter (\<lambda>i. m_dirty AND mask_bit i \<noteq> 0) [0..<length (menu_slots (om_menu om1))])) om1;
             (qs, om3) = send_menu_slots cid
               (map (\<lambda>i. (fst (main l) + i - MAIN_START, to_slot (inv_get i iv)))
                 (filter (in_range (visible_inventory l)) (slot_indices d))) om2
         in (ps @ qs @ (if dirty_cursor d then [SetCursorItem (to_slot (inv_cursor iv))] else []), om3)))"

definition hidden_slots :: "layout \<Rightarrow> u64" where
  "hidden_slots l = range_mask (0, SIZE) AND NOT (range_mask (visible_inventory l))"

definition sync_with_menu ::
  "(menu_type \<Rightarrow> i32) \<Rightarrow> dirty \<Rightarrow> 'n inventory \<Rightarrow> ('n, 'h) open_menu \<Rightarrow> container_ids \<Rightarrow>
   'n container_packet list \<times> 'n inventory \<times> ('n, 'h) open_menu \<times> container_ids" where
  "sync_with_menu registry d iv om ids =
     (let ((m_dirty, t_dirty), m1) = menu_take_dirty (om_menu om);
          (cid, screen, om2, ids1) = screen_step registry t_dirty (om\<lparr>om_menu := m1\<rparr>) ids;
          l = layout_of (om_menu om2);
          iv1 = retain_dirty (if dirty_full d then hidden_slots l else dirty_slots d AND hidden_slots l) iv;
          (packets, om3) = menu_packets cid m_dirty d l iv1 om2
      in (screen @ packets, iv1, om3, ids1))"

definition sync_without_menu :: "dirty \<Rightarrow> 'n inventory \<Rightarrow> 'n container_packet list \<times> 'n inventory" where
  "sync_without_menu d iv =
     (if dirty_full d \<or> SIZE div 2 < dirty_slot_count d then
        (let (state_id, iv1) = inv_next_state_id iv
         in ([SetContainerContent PLAYER_WINDOW_ID state_id (to_slots iv1) (to_slot (inv_cursor iv1))], iv1))
      else
        (let (ps, iv1) = send_inventory_slots
               (map (\<lambda>i. (i, to_slot (inv_get i iv))) (slot_indices d)) iv
         in (ps @ (if dirty_cursor d then [SetCursorItem (to_slot (inv_cursor iv1))] else []), iv1)))"

text \<open>
  \<open>sync_containers\<close> for one player whose inventory or menu changed. \<open>registry\<close> is
  \<open>MenuType::registry_id\<close>, see \<open>menu_registry_id\<close>.
\<close>

definition sync_containers ::
  "(menu_type \<Rightarrow> i32) \<Rightarrow> ('n, 'h) player \<Rightarrow> 'n container_packet list \<times> ('n, 'h) player" where
  "sync_containers registry p =
     (case p_inventory p of
        None \<Rightarrow> ([], p)
      | Some iv \<Rightarrow>
          (let (d, iv1) = take_dirty iv;
               (packets, iv2, om2, ids2) =
                 (case p_open p of
                    Some om \<Rightarrow>
                      (let (packets, iv2, om2, ids2) = sync_with_menu registry d iv1 om (p_ids p)
                       in (packets, iv2, Some om2, ids2))
                  | None \<Rightarrow>
                      (let (packets, iv2) = sync_without_menu d iv1
                       in (packets, iv2, None, p_ids p)))
           in (packets @ (if dirty_held d then [SetHeldSlot (ucast (selected_hotbar iv2))] else []),
               p\<lparr>p_inventory := Some iv2, p_open := om2, p_ids := ids2\<rparr>)))"

section \<open>The client\<close>

text \<open>
  What the packets do to the client that receives them: its view of window 0, and the open menu
  window with the items it shows.
\<close>

record 'n client =
  c_view :: "'n client_view"
  c_window :: i32
  c_items :: "'n slot list"

fun apply_packet :: "'n container_packet \<Rightarrow> 'n client \<Rightarrow> 'n client" where
  "apply_packet (SetContainerContent cid _ items carried) c =
     (let c1 = c\<lparr>c_view := (c_view c)\<lparr>view_cursor := carried\<rparr>\<rparr> in
      if cid = PLAYER_WINDOW_ID then c1\<lparr>c_view := (c_view c1)\<lparr>view_slots := items\<rparr>\<rparr>
      else if cid = c_window c then c1\<lparr>c_items := items\<rparr> else c)"
| "apply_packet (SetContainerSlot cid _ index data) c =
     (if cid = PLAYER_WINDOW_ID then
        c\<lparr>c_view := (c_view c)\<lparr>view_slots := (view_slots (c_view c))[nat (sint index) := data]\<rparr>\<rparr>
      else if cid = c_window c then c\<lparr>c_items := (c_items c)[nat (sint index) := data]\<rparr> else c)"
| "apply_packet (SetCursorItem carried) c = c\<lparr>c_view := (c_view c)\<lparr>view_cursor := carried\<rparr>\<rparr>"
| "apply_packet (SetHeldSlot h) c = c\<lparr>c_view := (c_view c)\<lparr>view_held := h\<rparr>\<rparr>"
| "apply_packet (OpenScreen cid _ _) c = c\<lparr>c_window := cid, c_items := []\<rparr>"
| "apply_packet (CloseContainer _) c = c\<lparr>c_window := PLAYER_WINDOW_ID, c_items := []\<rparr>"

abbreviation apply_packets :: "'n container_packet list \<Rightarrow> 'n client \<Rightarrow> 'n client" where
  "apply_packets ps c \<equiv> fold apply_packet ps c"

definition exact_view :: "'n inventory \<Rightarrow> 'n client_view" where
  "exact_view iv = \<lparr>view_slots = to_slots iv, view_cursor = to_slot (inv_cursor iv),
     view_held = ucast (selected_hotbar iv)\<rparr>"

definition update_all :: "(nat \<times> 'a) list \<Rightarrow> 'a list \<Rightarrow> 'a list" where
  "update_all ds xs = fold (\<lambda>(i, x) xs. xs[i := x]) ds xs"

lemma length_update_all [simp]: "length (update_all ds xs) = length xs"
  unfolding update_all_def by (induction ds arbitrary: xs) auto

lemma nth_update_all_other: "j \<notin> fst ` set ds \<Longrightarrow> update_all ds xs ! j = xs ! j"
  unfolding update_all_def
proof (induction ds arbitrary: xs)
  case (Cons d ds)
  then show ?case by (cases d) (simp add: image_iff)
qed simp

lemma nth_update_all:
  assumes "j < length xs"
  shows "update_all (map (\<lambda>i. (i, f i)) is) xs ! j = (if j \<in> set is then f j else xs ! j)"
  using assms
proof (induction "is" arbitrary: xs)
  case Nil
  then show ?case by (simp add: update_all_def)
next
  case (Cons i "is")
  have "update_all (map (\<lambda>i. (i, f i)) (i # is)) xs = update_all (map (\<lambda>i. (i, f i)) is) (xs[i := f i])"
    by (simp add: update_all_def)
  with Cons show ?case by (auto simp: nth_list_update)
qed

lemma index_as_i16:
  assumes "n < 2 ^ 15"
  shows "nat (sint (word_of_nat n :: i16)) = n"
proof -
  have "sint (word_of_int (int n) :: i16) = int n"
    using assms by (intro signed_take_bit_int_eq_self [THEN trans [OF sint_sbintrunc']]) auto
  then show ?thesis by simp
qed

lemma apply_inventory_slots:
  assumes "\<forall>d \<in> set ds. fst d < 2 ^ 15"
  shows "apply_packets (fst (send_inventory_slots ds iv)) c =
    c\<lparr>c_view := (c_view c)\<lparr>view_slots := update_all ds (view_slots (c_view c))\<rparr>\<rparr>"
  using assms
proof (induction ds arbitrary: iv c)
  case Nil
  then show ?case by (simp add: update_all_def)
next
  case (Cons d ds)
  obtain i x where d: "d = (i, x)" by (cases d)
  obtain sid iv1 qs iv2 where n: "inv_next_state_id iv = (sid, iv1)"
    and q: "send_inventory_slots ds iv1 = (qs, iv2)" by (meson surj_pair)
  have "apply_packets qs c' = c'\<lparr>c_view := (c_view c')\<lparr>view_slots := update_all ds (view_slots (c_view c'))\<rparr>\<rparr>"
    for c' :: "'a client"
    using Cons.IH [of iv1 c'] Cons.prems q by simp
  then show ?case using Cons.prems d n q by (simp add: index_as_i16 update_all_def)
qed

lemma apply_menu_slots:
  assumes "\<forall>d \<in> set ds. fst d < 2 ^ 15" and "cid \<noteq> PLAYER_WINDOW_ID" and "c_window c = cid"
  shows "apply_packets (fst (send_menu_slots cid ds om)) c = c\<lparr>c_items := update_all ds (c_items c)\<rparr>"
  using assms
proof (induction ds arbitrary: om c)
  case Nil
  then show ?case by (simp add: update_all_def)
next
  case (Cons d ds)
  obtain i x where d: "d = (i, x)" by (cases d)
  obtain sid om1 qs om2 where n: "om_next_state_id om = (sid, om1)"
    and q: "send_menu_slots cid ds om1 = (qs, om2)" by (meson surj_pair)
  have "apply_packets qs c' = c'\<lparr>c_items := update_all ds (c_items c')\<rparr>"
    if "c_window c' = cid" for c' :: "'a client"
    using Cons.IH [of c' om1] Cons.prems that q by simp
  then show ?case using Cons.prems d n q by (simp add: index_as_i16 update_all_def)
qed

lemma send_inventory_slots_frame:
  assumes "send_inventory_slots ds iv = (ps, iv')"
  shows "inv_slots iv' = inv_slots iv \<and> inv_cursor iv' = inv_cursor iv \<and> inv_dirty iv' = inv_dirty iv \<and>
   selected_hotbar iv' = selected_hotbar iv \<and> inv_drag iv' = inv_drag iv"
proof -
  have "inv_slots (snd (send_inventory_slots ds iv)) = inv_slots iv \<and>
    inv_cursor (snd (send_inventory_slots ds iv)) = inv_cursor iv \<and>
    inv_dirty (snd (send_inventory_slots ds iv)) = inv_dirty iv \<and>
    selected_hotbar (snd (send_inventory_slots ds iv)) = selected_hotbar iv \<and>
    inv_drag (snd (send_inventory_slots ds iv)) = inv_drag iv"
    by (induction ds arbitrary: iv) (simp_all add: inv_next_state_id_def Let_def split_beta split_paired_all)
  with assms show ?thesis by simp
qed

lemma send_menu_slots_frame:
  assumes "send_menu_slots cid ds om = (ps, om')"
  shows "om_menu om' = om_menu om \<and> container_id om' = container_id om \<and>
    full_resync om' = full_resync om \<and> om_drag om' = om_drag om"
proof -
  have "om_menu (snd (send_menu_slots cid ds om)) = om_menu om \<and>
    container_id (snd (send_menu_slots cid ds om)) = container_id om \<and>
    full_resync (snd (send_menu_slots cid ds om)) = full_resync om \<and>
    om_drag (snd (send_menu_slots cid ds om)) = om_drag om"
    by (induction ds arbitrary: om) (simp_all add: om_next_state_id_def Let_def split_beta split_paired_all)
  with assms show ?thesis by simp
qed

lemma inv_get_nth: "i < length (inv_slots iv) \<Longrightarrow> inv_get i iv = inv_slots iv ! i"
  by (simp add: inv_get_def slice_get_def)

section \<open>A tick without a menu\<close>

lemma slot_indices_small: "i \<in> set (slot_indices d) \<Longrightarrow> i < 2 ^ 15"
  by (auto simp: slot_indices_def mask_indices_def)

lemma sync_without_menu_exact:
  assumes ok: "inv_ok iv" and t: "tracks iv (c_view c)"
    and run: "sync_without_menu (inv_dirty iv) (iv\<lparr>inv_dirty := clean\<rparr>) = (ps, iv')"
  shows "view_slots (c_view (apply_packets ps c)) = to_slots iv"
    and "view_cursor (c_view (apply_packets ps c)) = to_slot (inv_cursor iv)"
    and "view_held (c_view (apply_packets ps c)) = view_held (c_view c)"
    and "inv_slots iv' = inv_slots iv" "inv_cursor iv' = inv_cursor iv" "inv_dirty iv' = clean"
      "selected_hotbar iv' = selected_hotbar iv" "inv_drag iv' = inv_drag iv"
proof -
  let ?d = "inv_dirty iv" and ?iv = "iv\<lparr>inv_dirty := clean\<rparr>" and ?v = "c_view c"
  have len: "length (inv_slots iv) = SIZE" "length (view_slots ?v) = SIZE"
    using ok t by (auto simp: inv_ok_def tracks_def)
  have "view_slots (c_view (apply_packets ps c)) = to_slots iv \<and>
    view_cursor (c_view (apply_packets ps c)) = to_slot (inv_cursor iv) \<and>
    view_held (c_view (apply_packets ps c)) = view_held ?v \<and>
    inv_slots iv' = inv_slots iv \<and> inv_cursor iv' = inv_cursor iv \<and> inv_dirty iv' = clean \<and>
    selected_hotbar iv' = selected_hotbar iv \<and> inv_drag iv' = inv_drag iv"
  proof (cases "dirty_full ?d \<or> SIZE div 2 < dirty_slot_count ?d")
    case True
    with run show ?thesis
      by (auto simp: sync_without_menu_def inv_next_state_id_def Let_def to_slots_def)
  next
    case False
    let ?ds = "map (\<lambda>i. (i, to_slot (inv_get i ?iv))) (slot_indices ?d)"
    obtain qs iv1 where q: "send_inventory_slots ?ds ?iv = (qs, iv1)" by fastforce
    have ps: "ps = qs @ (if dirty_cursor ?d then [SetCursorItem (to_slot (inv_cursor iv1))] else [])"
      and iv': "iv' = iv1"
      using run False q by (auto simp: sync_without_menu_def)
    note frame = send_inventory_slots_frame [OF q]
    have "apply_packets qs c = c\<lparr>c_view := ?v\<lparr>view_slots := update_all ?ds (view_slots ?v)\<rparr>\<rparr>"
      using apply_inventory_slots [of ?ds ?iv c] q slot_indices_small [of _ ?d] by simp
    moreover have "update_all ?ds (view_slots ?v) = to_slots iv"
    proof (rule nth_equalityI)
      fix i assume "i < length (update_all ?ds (view_slots ?v))"
      then have i: "i < SIZE" using len by simp
      have "i \<in> set (slot_indices ?d) \<longleftrightarrow> bit (dirty_slots ?d) i"
        by (simp add: slot_indices_def set_mask_indices)
      then show "update_all ?ds (view_slots ?v) ! i = to_slots iv ! i"
        using i len t False
        by (auto simp: nth_update_all to_slots_def inv_get_nth tracks_def inv_get_def slice_get_def)
    qed (simp add: len to_slots_def)
    moreover have "\<not> dirty_cursor ?d \<longrightarrow> view_cursor ?v = to_slot (inv_cursor iv)"
      using t by (simp add: tracks_def)
    ultimately show ?thesis using frame by (simp add: ps iv')
  qed
  then show "view_slots (c_view (apply_packets ps c)) = to_slots iv"
    and "view_cursor (c_view (apply_packets ps c)) = to_slot (inv_cursor iv)"
    and "view_held (c_view (apply_packets ps c)) = view_held ?v"
    and "inv_slots iv' = inv_slots iv" "inv_cursor iv' = inv_cursor iv" "inv_dirty iv' = clean"
      "selected_hotbar iv' = selected_hotbar iv" "inv_drag iv' = inv_drag iv"
    by blast+
qed

text \<open>The ways the server changes an inventory.\<close>

datatype 'n inventory_change =
    SetSlotTo nat "'n item_stack"
  | SetCursorTo "'n item_stack"
  | SelectHotbar u8
  | ClearAll
  | GiveStack "'n item_stack"
  | ClickWindow i16 i8 container_input bool

fun change_inventory :: "'n inventory_change \<Rightarrow> 'n inventory \<Rightarrow> 'n inventory" where
  "change_inventory (SetSlotTo i s) iv = inv_set i s iv"
| "change_inventory (SetCursorTo s) iv = set_cursor s iv"
| "change_inventory (SelectHotbar h) iv = set_selected_hotbar h iv"
| "change_inventory ClearAll iv = clear iv"
| "change_inventory (GiveStack s) iv = snd (give s iv)"
| "change_inventory (ClickWindow slot button inp cr) iv = snd (inv_apply_click slot button inp cr iv)"

interpretation change: inventory_op "change_inventory ch" for ch
proof
  fix iv :: "'a inventory" and v
  assume ok: "inv_ok iv"
  show "inv_ok (change_inventory ch iv)"
    using ok by (cases ch) (simp_all add: slot_set.keeps_ok cursor_set.keeps_ok hotbar_set.keeps_ok
        cleared.keeps_ok given.keeps_ok clicked.keeps_ok)
  show "tracks iv v \<Longrightarrow> tracks (change_inventory ch iv) v"
    using ok by (cases ch) (simp_all add: slot_set.records cursor_set.records hotbar_set.records
        cleared.records given.records clicked.records)
qed

lemma changes_tracked:
  "inv_ok iv \<Longrightarrow> tracks iv v \<Longrightarrow> inv_ok (fold change_inventory chs iv) \<and> tracks (fold change_inventory chs iv) v"
  by (induction chs arbitrary: iv) (auto simp: change.keeps_ok change.records)

text \<open>C2: while the player has no menu open, whatever the server does to the inventory between two ticks
  (setting slots, the cursor or the held key, clearing, giving, applying the client's clicks), the packets of
  the next tick bring a client that was up to date, or missed only what was already marked, to exactly the
  inventory's contents, and nothing is left marked.\<close>

theorem tick_shows_the_inventory:
  assumes "inv_ok iv" and "tracks iv (c_view c)"
    and "p_inventory p = Some (fold change_inventory chs iv)" and "p_open p = None"
    and "sync_containers registry p = (ps, p')"
  shows "c_view (apply_packets ps c) = exact_view (fold change_inventory chs iv) \<and>
    (\<exists>iv'. p_inventory p' = Some iv' \<and> inv_slots iv' = inv_slots (fold change_inventory chs iv) \<and>
      inv_dirty iv' = clean \<and> tracks iv' (c_view (apply_packets ps c)))"
proof -
  let ?iv = "fold change_inventory chs iv"
  have ok: "inv_ok ?iv" and t: "tracks ?iv (c_view c)" using changes_tracked assms(1,2) by auto
  obtain qs iv' where run: "sync_without_menu (inv_dirty ?iv) (?iv\<lparr>inv_dirty := clean\<rparr>) = (qs, iv')"
    by fastforce
  note s = sync_without_menu_exact [OF ok t run]
  have ps: "ps = qs @ (if dirty_held (inv_dirty ?iv) then [SetHeldSlot (ucast (selected_hotbar ?iv))] else [])"
    and p': "p_inventory p' = Some iv'"
    using assms(3-5) run s(7) by (auto simp: sync_containers_def take_dirty_def Let_def)
  have "\<not> dirty_held (inv_dirty ?iv) \<longrightarrow> view_held (c_view c) = ucast (selected_hotbar ?iv)"
    using t by (simp add: tracks_def)
  then have v: "c_view (apply_packets ps c) = exact_view ?iv"
    using s(1-3) by (auto simp: ps exact_view_def)
  moreover have "tracks iv' (exact_view ?iv)"
    using ok s(4-7) by (simp add: tracks_def exact_view_def to_slots_def inv_ok_def)
  ultimately show ?thesis using p' s(4,6) by (intro conjI exI [of _ iv']) simp_all
qed

lemma tick_shows_the_inventory_witness:
  "let iv = new_inventory :: u8 list inventory;
      iv' = fold change_inventory [SetSlotTo 40 (new_stack 5 3), GiveStack (new_stack 7 70), SelectHotbar 4] iv;
      p = \<lparr>p_inventory = Some iv', p_open = None, p_ids = \<lparr>last_id = 0\<rparr>\<rparr> :: (u8 list, nat) player;
      c = \<lparr>c_view = exact_view iv, c_window = 0, c_items = []\<rparr>
   in c_view (apply_packets (fst (sync_containers (\<lambda>_. 0) p)) c) = exact_view iv'"
proof -
  let ?iv = "new_inventory :: u8 list inventory"
  have ok: "inv_ok ?iv" by (simp add: inv_ok_def new_inventory_def drag_ok_def)
  have t: "tracks ?iv (exact_view ?iv)"
    by (simp add: tracks_def exact_view_def to_slots_def new_inventory_def)
  show ?thesis
    unfolding Let_def
    by (rule tick_shows_the_inventory [OF ok _ _ _ prod.collapse [symmetric], THEN conjunct1])
      (simp_all only: client.simps player.simps t)
qed

section \<open>A tick with an open menu\<close>

definition om_ok :: "('n, 'h) open_menu \<Rightarrow> bool" where
  "om_ok om \<longleftrightarrow> length (menu_slots (om_menu om)) = menu_slot_count (menu_kind (om_menu om))"

text \<open>The client shows the menu's window, up to what is marked.\<close>

definition menu_tracks :: "'n inventory \<Rightarrow> ('n, 'h) open_menu \<Rightarrow> 'n client \<Rightarrow> bool" where
  "menu_tracks iv om c \<longleftrightarrow>
     (let l = layout_of (om_menu om); n = menu_slot_count (menu_kind (om_menu om)) in
      container_id om = Some (c_window c) \<and> c_window c \<noteq> PLAYER_WINDOW_ID \<and>
      (\<not> full_resync om \<longrightarrow> \<not> title_dirty (om_menu om) \<longrightarrow> \<not> dirty_full (inv_dirty iv) \<longrightarrow>
        length (c_items c) = layout_size l \<and>
        (\<forall>i < n. \<not> bit (menu_dirty (om_menu om)) i \<longrightarrow>
          c_items c ! i = to_slot (menu_slots (om_menu om) ! i)) \<and>
        (\<forall>i. in_range (visible_inventory l) i \<longrightarrow> \<not> bit (dirty_slots (inv_dirty iv)) i \<longrightarrow>
          c_items c ! (n + i - MAIN_START) = to_slot (inv_slots iv ! i)) \<and>
        (\<not> dirty_cursor (inv_dirty iv) \<longrightarrow> view_cursor (c_view c) = to_slot (inv_cursor iv))))"

lemma visible_layout:
  "visible_inventory (layout_of m) =
     (MAIN_START, MAIN_START + (layout_size (layout_of m) - menu_slot_count (menu_kind m)))"
  "layout_size (layout_of m) = menu_slot_count (menu_kind m) + (if menu_kind m = Lectern then 0 else 36)"
  "fst (main (layout_of m)) = menu_slot_count (menu_kind m)"
  "container (layout_of m) = (0, menu_slot_count (menu_kind m))"
  by (simp_all add: visible_inventory_def layout_of_def type_layout_parts)

lemma bit_range_mask: "bit (range_mask r) i \<longleftrightarrow> in_range r i \<and> i < 64"
proof -
  have "bit (fold (\<lambda>i m. m OR mask_bit i) is m) j \<longleftrightarrow> bit m j \<or> (j \<in> set is \<and> j < 64)"
    for "is" j and m :: u64
    by (induction "is" arbitrary: m) (auto simp: bit_or_iff bit_mask_bit)
  then show ?thesis by (auto simp: range_mask_def range_list_def in_range_def)
qed

lemma length_window_slots:
  assumes "om_ok om" and "l = layout_of (om_menu om)"
  shows "length (window_slots iv om l) = layout_size l"
  using assms by (simp add: window_slots_def om_ok_def visible_layout range_list_def)

lemma nth_window_slots:
  assumes "om_ok om" and "inv_ok iv" and "i < layout_size l" and "l = layout_of (om_menu om)"
    and "n = menu_slot_count (menu_kind (om_menu om))"
  shows "window_slots iv om l ! i =
    to_slot (if i < n then menu_slots (om_menu om) ! i else inv_slots iv ! (MAIN_START + i - n))"
proof (cases "i < n")
  case True
  with assms show ?thesis by (simp add: window_slots_def om_ok_def nth_append)
next
  case False
  then have "MAIN_START + (i - n) < length (inv_slots iv)"
    using assms by (simp add: inv_ok_def visible_layout split: if_splits)
  moreover have "i - n < layout_size l - n" using assms(3) False by simp
  ultimately show ?thesis
    using False assms
    by (simp add: window_slots_def om_ok_def nth_append visible_layout range_list_def inv_get_nth)
qed

lemma window_slots_cong:
  "menu_slots (om_menu om) = menu_slots (om_menu om') \<Longrightarrow> inv_slots iv = inv_slots iv' \<Longrightarrow>
   window_slots iv om l = window_slots iv' om' l"
  by (simp add: window_slots_def inv_get_def)

text \<open>The incremental branch: the dirty slots of the menu, then those of the visible inventory.\<close>

lemma incremental_items:
  assumes "om_ok om" and "inv_ok iv" and l: "l = layout_of (om_menu om)"
    and n: "n = menu_slot_count (menu_kind (om_menu om))"
    and len: "length items = layout_size l"
    and menu: "\<And>i. i < n \<Longrightarrow> \<not> bit md i \<Longrightarrow> items ! i = to_slot (menu_slots (om_menu om) ! i)"
    and inv: "\<And>i. in_range (visible_inventory l) i \<Longrightarrow> \<not> bit (dirty_slots d) i \<Longrightarrow>
      items ! (n + i - MAIN_START) = to_slot (inv_slots iv ! i)"
  shows "update_all (map (\<lambda>i. (n + i - MAIN_START, to_slot (inv_get i iv)))
      (filter (in_range (visible_inventory l)) (slot_indices d)))
    (update_all (map (\<lambda>i. (i, to_slot (menu_get i (om_menu om)))) (filter (\<lambda>i. md AND mask_bit i \<noteq> 0) [0..<n]))
      items) = window_slots iv om l" (is "update_all ?qs (update_all ?ps items) = _")
proof (rule nth_equalityI)
  show "length (update_all ?qs (update_all ?ps items)) = length (window_slots iv om l)"
    using length_window_slots [OF assms(1) l] len by simp
  fix i assume "i < length (update_all ?qs (update_all ?ps items))"
  then have i: "i < layout_size l" by (simp add: len)
  let ?vis = "filter (in_range (visible_inventory l)) (slot_indices d)"
  have vis: "MAIN_START \<le> j" if "j \<in> set ?vis" for j
    using that by (auto simp: in_range_def visible_inventory_def)
  define js where "js = map (\<lambda>i. n + i - MAIN_START) ?vis"
  have set_js: "set js = (\<lambda>i. n + i - MAIN_START) ` set ?vis" by (simp add: js_def)
  have qs: "?qs = map (\<lambda>j. (j, to_slot (inv_get (j + MAIN_START - n) iv))) js"
  proof -
    have "n + i - MAIN_START + MAIN_START - n = i" if "i \<in> set ?vis" for i
      using vis [OF that] by simp
    then show ?thesis unfolding js_def list.map_comp by (intro map_cong) (simp_all only: o_def)
  qed
  have dirty: "j \<in> set (slot_indices d) \<longleftrightarrow> bit (dirty_slots d) j" for j
    by (simp add: slot_indices_def set_mask_indices)
  have step: "update_all ?qs (update_all ?ps items) ! i =
      (if i \<in> (\<lambda>i. n + i - MAIN_START) ` set ?vis then to_slot (inv_get (i + MAIN_START - n) iv)
       else if i < n \<and> bit md i then to_slot (menu_get i (om_menu om)) else items ! i)"
    unfolding qs set_js [symmetric] using i len by (simp add: nth_update_all and_mask_bit)
  show "update_all ?qs (update_all ?ps items) ! i = window_slots iv om l ! i"
  proof (cases "i < n")
    case True
    then have "i \<notin> (\<lambda>i. n + i - MAIN_START) ` set ?vis" using vis by fastforce
    moreover have "menu_get i (om_menu om) = menu_slots (om_menu om) ! i"
      using True assms(1) n by (simp add: menu_get_def slice_get_def om_ok_def)
    ultimately show ?thesis
      using True menu [OF True] nth_window_slots [OF assms(1,2) i l n] step by simp
  next
    case False
    let ?j = "MAIN_START + i - n"
    have j: "in_range (visible_inventory l) ?j" "n + ?j - MAIN_START = i"
      using False i l n by (auto simp: in_range_def visible_layout)
    have "?j < length (inv_slots iv)"
      using i False l n assms(2) by (simp add: inv_ok_def visible_layout split: if_splits)
    then have get: "inv_get (i + MAIN_START - n) iv = inv_slots iv ! ?j"
      by (simp add: inv_get_nth add.commute)
    have "i \<in> (\<lambda>i. n + i - MAIN_START) ` set ?vis \<longleftrightarrow> bit (dirty_slots d) ?j"
    proof
      assume "i \<in> (\<lambda>i. n + i - MAIN_START) ` set ?vis"
      then obtain j' where j': "j' \<in> set ?vis" and eq: "i = n + j' - MAIN_START" by auto
      have "bit (dirty_slots d) j'" using j' dirty by simp
      moreover have "?j = j'" using vis [OF j'] unfolding eq by simp
      ultimately show "bit (dirty_slots d) ?j" by (simp only:)
    next
      assume "bit (dirty_slots d) ?j"
      then have "?j \<in> set ?vis" using j(1) dirty by simp
      then show "i \<in> (\<lambda>i. n + i - MAIN_START) ` set ?vis" using j(2) by (metis image_eqI)
    qed
    then show ?thesis
      using False inv [OF j(1)] j(2) nth_window_slots [OF assms(1,2) i l n] step get by simp
  qed
qed

lemma allocate_nonzero:
  assumes "0 \<le> sint (last_id ids)" and "sint (last_id ids) \<le> 100"
  shows "fst (allocate ids) \<noteq> 0"
proof
  let ?l = "sint (last_id ids)"
  assume "fst (allocate ids) = 0"
  then have "word_of_int (?l smod 100 + 1) = (0 :: i32)" by (simp add: allocate_def Let_def)
  moreover have "?l smod 100 = (if ?l = 100 then 0 else ?l)"
    using assms by (simp add: signed_modulo_int_def signed_divide_int_def sgn_if)
  moreover have "sint (word_of_int (?l smod 100 + 1) :: i32) = ?l smod 100 + 1"
    using assms calculation(2) by (intro trans [OF sint_sbintrunc'] signed_take_bit_int_eq_self) auto
  ultimately show False using assms by (simp split: if_splits)
qed

definition ids_ok :: "container_ids \<Rightarrow> bool" where
  "ids_ok ids \<longleftrightarrow> 0 \<le> sint (last_id ids) \<and> sint (last_id ids) \<le> 100"

lemma screen_step_spec:
  assumes "screen_step registry t om ids = (cid, screen, om2, ids2)"
    and "case container_id om of None \<Rightarrow> ids_ok ids | Some cid \<Rightarrow> cid = c_window c \<and> cid \<noteq> PLAYER_WINDOW_ID"
  shows "cid \<noteq> PLAYER_WINDOW_ID" and "container_id om2 = Some cid" and "om_menu om2 = om_menu om"
    and "c_window (apply_packets screen c) = cid" and "c_view (apply_packets screen c) = c_view c"
    and "\<not> full_resync om2 \<Longrightarrow> screen = [] \<and> \<not> t \<and> \<not> full_resync om \<and> container_id om = Some cid"
  using assms allocate_nonzero [of ids]
  by (auto simp: screen_step_def open_screen_def ids_ok_def Let_def split: option.splits prod.splits if_splits)

lemma sync_with_menu_exact:
  fixes om :: "('n, 'h) open_menu"
  assumes ok: "inv_ok iv" and om: "om_ok om"
    and known: "case container_id om of None \<Rightarrow> ids_ok ids | Some cid \<Rightarrow> menu_tracks iv om c"
    and new: "container_id om = None \<Longrightarrow> full_resync om"
    and run: "sync_with_menu registry (inv_dirty iv) (iv\<lparr>inv_dirty := clean\<rparr>) om ids = (ps, iv', om', ids')"
  defines "c' \<equiv> apply_packets ps c" and "l \<equiv> layout_of (om_menu om)"
  shows "container_id om' = Some (c_window c') \<and> c_window c' \<noteq> PLAYER_WINDOW_ID \<and>
    c_items c' = window_slots iv om l \<and> view_cursor (c_view c') = to_slot (inv_cursor iv) \<and>
    view_slots (c_view c') = view_slots (c_view c) \<and> view_held (c_view c') = view_held (c_view c) \<and>
    inv_slots iv' = inv_slots iv \<and> menu_slots (om_menu om') = menu_slots (om_menu om) \<and>
    (\<forall>i < SIZE. \<not> in_range (visible_inventory l) i \<longrightarrow>
      (bit (dirty_slots (inv_dirty iv')) i \<longleftrightarrow> dirty_full (inv_dirty iv) \<or> bit (dirty_slots (inv_dirty iv)) i))"
proof -
  let ?d = "inv_dirty iv" and ?n = "menu_slot_count (menu_kind (om_menu om))"
  let ?clean = "om\<lparr>om_menu := (om_menu om)\<lparr>menu_dirty := 0, title_dirty := False\<rparr>\<rparr>"
  obtain cid screen om2 ids2 where step:
    "screen_step registry (title_dirty (om_menu om)) ?clean ids = (cid, screen, om2, ids2)"
    by (metis surj_pair)
  have pre: "case container_id ?clean of None \<Rightarrow> ids_ok ids
      | Some cid \<Rightarrow> cid = c_window c \<and> cid \<noteq> PLAYER_WINDOW_ID"
    using known by (auto simp: menu_tracks_def Let_def split: option.splits)
  note sp = screen_step_spec [OF step pre]
  let ?visible = "visible_inventory l"
  define kept where "kept = (if dirty_full ?d then hidden_slots l else dirty_slots ?d AND hidden_slots l)"
  define iv1 where "iv1 = retain_dirty kept (iv\<lparr>inv_dirty := clean\<rparr>)"
  let ?om3 = "om2\<lparr>full_resync := False\<rparr>"
  have l2: "layout_of (om_menu om2) = l" by (simp add: l_def layout_of_def sp(3))
  have "\<exists>packets. menu_packets cid (menu_dirty (om_menu om)) ?d (layout_of (om_menu om2))
      (retain_dirty (if dirty_full ?d then hidden_slots (layout_of (om_menu om2))
        else dirty_slots ?d AND hidden_slots (layout_of (om_menu om2))) (iv\<lparr>inv_dirty := clean\<rparr>)) om2 =
      (packets, om') \<and> ps = screen @ packets \<and>
      iv' = retain_dirty (if dirty_full ?d then hidden_slots (layout_of (om_menu om2))
        else dirty_slots ?d AND hidden_slots (layout_of (om_menu om2))) (iv\<lparr>inv_dirty := clean\<rparr>)"
    using run by (auto simp: sync_with_menu_def menu_take_dirty_def Let_def step split: prod.splits)
  then obtain packets where run': "menu_packets cid (menu_dirty (om_menu om)) ?d l iv1 om2 = (packets, om')"
    and ps: "ps = screen @ packets" and iv': "iv' = iv1"
    unfolding l2 iv1_def kept_def by blast
  have iv1: "inv_slots iv1 = inv_slots iv" "inv_cursor iv1 = inv_cursor iv"
    by (simp_all add: iv1_def retain_dirty_def)
  have mask: "bit kept i \<longleftrightarrow> dirty_full ?d \<or> bit (dirty_slots ?d) i"
    if "i < SIZE" "\<not> in_range ?visible i" for i
    using that by (auto simp: kept_def hidden_slots_def bit_and_iff bit_not_iff bit_range_mask in_range_def)
  have kept_bits: "\<forall>i < SIZE. \<not> in_range ?visible i \<longrightarrow> (bit (dirty_slots (inv_dirty iv1)) i \<longleftrightarrow>
      dirty_full ?d \<or> bit (dirty_slots ?d) i)"
    using mask by (simp add: iv1_def retain_dirty_def clean_def)
  show ?thesis
  proof (cases "full_resync om2 \<or> dirty_full ?d")
    case True
    have "menu_slots (om_menu om2) = menu_slots (om_menu om)" by (simp add: sp(3))
    moreover from this have "window_slots iv1 om4 l = window_slots iv om l"
      if "om_menu om4 = om_menu om2" for om4 :: "('n, 'h) open_menu"
      by (intro window_slots_cong) (simp_all add: that iv1)
    ultimately show ?thesis
      using run' True sp(1-5) kept_bits iv1
      by (auto simp: menu_packets_def om_next_state_id_def Let_def c'_def ps iv')
  next
    case False
    then have quiet: "screen = []" "\<not> title_dirty (om_menu om)" "\<not> full_resync om" "container_id om = Some cid"
      using sp(6) by auto
    have tr: "menu_tracks iv om c" using known quiet(4) by simp
    let ?ms = "map (\<lambda>i. (i, to_slot (menu_get i (om_menu om))))
      (filter (\<lambda>i. menu_dirty (om_menu om) AND mask_bit i \<noteq> 0) [0..<?n])"
    let ?is = "map (\<lambda>i. (?n + i - MAIN_START, to_slot (inv_get i iv)))
      (filter (in_range ?visible) (slot_indices ?d))"
    have get: "menu_get i (om_menu om2) = menu_get i (om_menu om)" "inv_get i iv1 = inv_get i iv" for i
      by (simp_all add: menu_get_def inv_get_def iv1 sp(3))
    have lens: "length (menu_slots (om_menu om2)) = ?n" "fst (main l) = ?n"
      using om by (simp_all add: sp(3) om_ok_def l_def visible_layout)
    obtain qs1 om4 where m1: "send_menu_slots cid ?ms ?om3 = (qs1, om4)" by fastforce
    obtain qs2 om5 where m2: "send_menu_slots cid ?is om4 = (qs2, om5)" by fastforce
    have packets: "packets = qs1 @ qs2 @ (if dirty_cursor ?d then [SetCursorItem (to_slot (inv_cursor iv))] else [])"
      and out: "om' = om5"
      using run' False m1 m2 by (auto simp: menu_packets_def get lens iv1)
    have window: "c_window c = cid" "cid \<noteq> PLAYER_WINDOW_ID"
      using tr quiet(4) by (auto simp: menu_tracks_def Let_def)
    have small_ms: "\<forall>d \<in> set ?ms. fst d < 2 ^ 15"
      using menu_slot_count_bounds(2) [of "menu_kind (om_menu om)"] by auto
    have small_is: "\<forall>d \<in> set ?is. fst d < 2 ^ 15"
      using menu_slot_count_bounds(2) [of "menu_kind (om_menu om)"]
      by (auto simp: slot_indices_def mask_indices_def)
    have a1: "apply_packets qs1 c = c\<lparr>c_items := update_all ?ms (c_items c)\<rparr>"
      using apply_menu_slots [OF small_ms window(2,1), of ?om3] m1 by simp
    have a2: "apply_packets qs2 c2 = c2\<lparr>c_items := update_all ?is (c_items c2)\<rparr>"
      if "c_window c2 = cid" for c2 :: "'n client"
      using apply_menu_slots [OF small_is window(2) that, of om4] m2 by simp
    have items: "update_all ?is (update_all ?ms (c_items c)) = window_slots iv om l"
      using tr quiet False
      by (intro incremental_items [OF om ok l_def [THEN meta_eq_to_obj_eq] refl])
        (auto simp: menu_tracks_def Let_def l_def)
    have "\<not> dirty_cursor ?d \<longrightarrow> view_cursor (c_view c) = to_slot (inv_cursor iv)"
      using tr quiet False by (auto simp: menu_tracks_def Let_def)
    moreover have "om_menu om5 = om_menu om2" "container_id om5 = Some cid"
      using send_menu_slots_frame [OF m1] send_menu_slots_frame [OF m2] sp(2) by simp_all
    ultimately show ?thesis
      using items window kept_bits iv1 by (simp add: c'_def ps iv' packets quiet(1) a1 a2 out sp(3))
  qed
qed

lemma sync_containers_menu:
  fixes om :: "('n, 'h) open_menu"
  assumes "inv_ok iv" and "om_ok om" and "menu_tracks iv om c"
    and "p_inventory p = Some iv" and "p_open p = Some om" and "sync_containers registry p = (ps, p')"
  shows "c_items (apply_packets ps c) = window_slots iv om (layout_of (om_menu om)) \<and>
    view_cursor (c_view (apply_packets ps c)) = to_slot (inv_cursor iv) \<and>
    (\<exists>iv' om'. p_inventory p' = Some iv' \<and> p_open p' = Some om' \<and> inv_slots iv' = inv_slots iv \<and>
      menu_slots (om_menu om') = menu_slots (om_menu om) \<and>
      (\<forall>i < SIZE. \<not> in_range (visible_inventory (layout_of (om_menu om))) i \<longrightarrow>
        (bit (dirty_slots (inv_dirty iv')) i \<longleftrightarrow>
          dirty_full (inv_dirty iv) \<or> bit (dirty_slots (inv_dirty iv)) i)))"
proof -
  obtain qs iv' om' ids' where run:
    "sync_with_menu registry (inv_dirty iv) (iv\<lparr>inv_dirty := clean\<rparr>) om (p_ids p) = (qs, iv', om', ids')"
    by (metis surj_pair)
  have cid: "container_id om = Some (c_window c)" using assms(3) by (simp add: menu_tracks_def Let_def)
  have known: "case container_id om of None \<Rightarrow> ids_ok (p_ids p) | Some cid \<Rightarrow> menu_tracks iv om c"
    using assms(3) cid by simp
  have new: "container_id om = None \<Longrightarrow> full_resync om" using cid by simp
  note s = sync_with_menu_exact [OF assms(1,2) known new run]
  have ps: "\<exists>tail. ps = qs @ tail \<and> (\<forall>c. c_items (apply_packets tail c) = c_items c \<and>
      view_cursor (c_view (apply_packets tail c)) = view_cursor (c_view c))"
    and p': "p_inventory p' = Some iv'" "p_open p' = Some om'"
    using assms(4-6) run by (auto simp: sync_containers_def take_dirty_def Let_def)
  then obtain tail where "ps = qs @ tail" and "\<And>c. c_items (apply_packets tail c) = c_items c"
    and "\<And>c. view_cursor (c_view (apply_packets tail c)) = view_cursor (c_view c)" by blast
  with s p' show ?thesis by simp
qed

section \<open>Read-only menus\<close>

lemma mark_changed_spec:
  assumes "mark_changed l cs om iv = (om', iv')"
  shows "menu_slots (om_menu om') = menu_slots (om_menu om) \<and> menu_kind (om_menu om') = menu_kind (om_menu om) \<and>
    title_dirty (om_menu om') = title_dirty (om_menu om) \<and> editable (om_menu om') = editable (om_menu om) \<and>
    container_id om' = container_id om \<and> full_resync om' = full_resync om \<and>
    inv_slots iv' = inv_slots iv \<and> inv_cursor iv' = inv_cursor iv \<and> inv_drag iv' = inv_drag iv \<and>
    selected_hotbar iv' = selected_hotbar iv \<and> dirty_full (inv_dirty iv') = dirty_full (inv_dirty iv) \<and>
    (\<forall>i. bit (menu_dirty (om_menu om')) i \<longleftrightarrow> bit (menu_dirty (om_menu om)) i \<or>
      i < 64 \<and> (\<exists>c \<in> set cs. from_window l (changed_index c) = Some (InMenu i))) \<and>
    (\<forall>i. bit (dirty_slots (inv_dirty iv')) i \<longleftrightarrow> bit (dirty_slots (inv_dirty iv)) i \<or>
      i < 64 \<and> (\<exists>c \<in> set cs. from_window l (changed_index c) = Some (InInventory i)))"
  using assms
proof (induction cs arbitrary: om iv)
  case (Cons c cs)
  show ?case
  proof (cases "from_window l (changed_index c)")
    case None
    then have "mark_changed l cs om iv = (om', iv')" using Cons.prems by simp
    from Cons.IH [OF this] None show ?thesis by simp
  next
    case (Some s)
    show ?thesis
    proof (cases s)
      case (InMenu i)
      then have "mark_changed l cs (on_menu (menu_mark_slot i) om) iv = (om', iv')"
        using Cons.prems Some by simp
      from Cons.IH [OF this] Some InMenu show ?thesis
        by (auto simp: on_menu_def menu_mark_slot_def bit_or_iff bit_mask_bit)
    next
      case (InInventory i)
      then have "mark_changed l cs om (mark_slot i iv) = (om', iv')" using Cons.prems Some by simp
      from Cons.IH [OF this] Some InInventory show ?thesis
        by (auto simp: mark_slot_def bit_or_iff bit_mask_bit)
    next
      case Outside
      then have "mark_changed l cs om iv = (om', iv')" using Cons.prems Some by simp
      from Cons.IH [OF this] Some Outside show ?thesis by simp
    qed
  qed
qed simp

text \<open>The client's own prediction: it may show anything in the slots it reports and on the cursor.\<close>

definition predicts :: "changed_slot list \<Rightarrow> 'n client \<Rightarrow> 'n client \<Rightarrow> bool" where
  "predicts cs c c' \<longleftrightarrow>
     c_window c' = c_window c \<and> length (c_items c') = length (c_items c) \<and>
     (\<forall>i < length (c_items c). (\<forall>x \<in> set cs. changed_index x \<noteq> word_of_nat i) \<longrightarrow>
        c_items c' ! i = c_items c ! i)"

lemma from_window_at:
  assumes "i < layout_size (type_layout k)" and "i < 2 ^ 15"
  shows "from_window (type_layout k) (word_of_nat i) =
    Some (if i < menu_slot_count k then InMenu i else InInventory (MAIN_START + i - menu_slot_count k))"
proof -
  have n: "nat (sint (word_of_nat i :: i16)) = i" by (rule index_as_i16 [OF assms(2)])
  have s: "sint (word_of_nat i :: i16) = int i"
  proof -
    have "sint (word_of_int (int i) :: i16) = int i"
      using assms(2) by (intro signed_take_bit_int_eq_self [THEN trans [OF sint_sbintrunc']]) auto
    then show ?thesis by simp
  qed
  have "word_of_nat i \<noteq> (SLOT_OUTSIDE :: i16)"
  proof
    assume "word_of_nat i = (SLOT_OUTSIDE :: i16)"
    then have "sint (word_of_nat i :: i16) = sint (SLOT_OUTSIDE :: i16)" by (rule arg_cong)
    then show False using s by simp
  qed
  then show ?thesis
    using n s assms(1) by (simp add: from_window_def in_range_def type_layout_parts Let_def)
qed

text \<open>C12: a tick brings a client with an open menu to exactly the menu's window: its slots, the
  part of the inventory it shows, and the cursor, whether it was up to date apart from what is
  marked or is due a full resend. Changes to slots the menu does not show stay marked for the
  resend that follows the close.\<close>

theorem tick_shows_the_menu:
  fixes om :: "('n, 'h) open_menu"
  assumes "inv_ok iv" and "om_ok om" and "menu_tracks iv om c"
    and "p_inventory p = Some iv" and "p_open p = Some om" and "sync_containers registry p = (ps, p')"
  shows "c_items (apply_packets ps c) = window_slots iv om (layout_of (om_menu om)) \<and>
    view_cursor (c_view (apply_packets ps c)) = to_slot (inv_cursor iv) \<and>
    (\<exists>iv'. p_inventory p' = Some iv' \<and> inv_slots iv' = inv_slots iv \<and>
      (\<forall>i < SIZE. \<not> in_range (visible_inventory (layout_of (om_menu om))) i \<longrightarrow>
        bit (dirty_slots (inv_dirty iv)) i \<longrightarrow> bit (dirty_slots (inv_dirty iv')) i))"
  using sync_containers_menu [OF assms] by auto

text \<open>C8: a read-only menu gives nothing away: whatever a click on it claims to have changed, no
  slot, no cursor and no item is touched, and the packets of the next tick restore the client's
  window, its prediction included.\<close>

theorem readonly_click_is_undone:
  fixes om :: "('n, 'h) open_menu"
  assumes ok: "inv_ok iv" "om_ok om" and tr: "menu_tracks iv om c" and ro: "\<not> editable (om_menu om)"
    and p: "p_inventory p = Some iv" "p_open p = Some om"
    and id: "click_container_id packet = c_window c" and pred: "predicts (changed_slots packet) c c'"
    and slot: "from_window (layout_of (om_menu om)) (click_slot packet) = Some s"
      "sint (click_slot packet) < - 1 \<longrightarrow> click_slot packet = SLOT_OUTSIDE"
    and click: "handle_container_click gm entity packet p = (events, clicks, p1)"
    and tick: "sync_containers registry p1 = (ps, p2)"
  shows "events = [] \<and> c_items (apply_packets ps c') = window_slots iv om (layout_of (om_menu om)) \<and>
    view_cursor (c_view (apply_packets ps c')) = to_slot (inv_cursor iv) \<and>
    map_option inv_slots (p_inventory p1) = Some (inv_slots iv) \<and>
    map_option (menu_slots \<circ> om_menu) (p_open p1) = Some (menu_slots (om_menu om))"
proof -
  let ?l = "layout_of (om_menu om)" and ?k = "menu_kind (om_menu om)"
  have cid: "container_id om = Some (c_window c)" and nz: "c_window c \<noteq> PLAYER_WINDOW_ID"
    using tr by (auto simp: menu_tracks_def Let_def)
  obtain om1 iv1 where mark: "mark_changed ?l (changed_slots packet) om iv = (om1, iv1)" by fastforce
  note m = mark_changed_spec [OF mark]
  define om2 where "om2 = (if click_state_id packet \<noteq> om_state_id om then om1\<lparr>full_resync := True\<rparr> else om1)"
  let ?iv = "mark_cursor iv1"
  have guard: "\<not> (sint (click_slot packet) < - 1 \<and> click_slot packet \<noteq> SLOT_OUTSIDE)" using slot(2) by simp
  have state: "events = []" "p_inventory p1 = Some ?iv" "p_open p1 = Some om2"
    using click guard
    by (auto simp: handle_container_click_def p id nz cid slot(1) ro mark om2_def Let_def)
  have om2: "om_menu om2 = om_menu om1" "container_id om2 = container_id om"
    "full_resync om2 = (full_resync om \<or> click_state_id packet \<noteq> om_state_id om)"
    using m by (auto simp: om2_def)
  have shape: "inv_ok ?iv" "om_ok om2"
    using ok m om2 by (auto simp: inv_ok_def om_ok_def mark_cursor_def)
  have l2: "layout_of (om_menu om2) = ?l" using m om2 by (simp add: layout_of_def)
  have "menu_tracks ?iv om2 c'"
    unfolding menu_tracks_def Let_def l2
  proof (intro conjI impI allI)
    show "container_id om2 = Some (c_window c')" "c_window c' \<noteq> PLAYER_WINDOW_ID"
      using cid om2(2) pred nz by (auto simp: predicts_def)
    assume q: "\<not> full_resync om2" "\<not> title_dirty (om_menu om2)" "\<not> dirty_full (inv_dirty ?iv)"
    then have known: "length (c_items c) = layout_size ?l"
      "\<And>i. i < menu_slot_count ?k \<Longrightarrow> \<not> bit (menu_dirty (om_menu om)) i \<Longrightarrow>
        c_items c ! i = to_slot (menu_slots (om_menu om) ! i)"
      "\<And>i. in_range (visible_inventory ?l) i \<Longrightarrow> \<not> bit (dirty_slots (inv_dirty iv)) i \<Longrightarrow>
        c_items c ! (menu_slot_count ?k + i - MAIN_START) = to_slot (inv_slots iv ! i)"
      using tr m om2 by (auto simp: menu_tracks_def Let_def mark_cursor_def)
    then show "length (c_items c') = layout_size ?l" using pred by (simp add: predicts_def)
    have small: "i < 2 ^ 15" if "i < layout_size ?l" for i
      using that menu_slot_count_bounds(2) [of ?k] by (simp add: visible_layout split: if_splits)
    have keep: "c_items c' ! i = c_items c ! i"
      if "i < layout_size ?l" "\<forall>x \<in> set (changed_slots packet). changed_index x \<noteq> word_of_nat i" for i
      using pred that known(1) by (simp add: predicts_def)
    show "c_items c' ! i = to_slot (menu_slots (om_menu om2) ! i)"
      if "i < menu_slot_count (menu_kind (om_menu om2))" "\<not> bit (menu_dirty (om_menu om2)) i" for i
    proof -
      have i: "i < menu_slot_count ?k" "i < layout_size ?l" using that(1) m om2 by (auto simp: visible_layout)
      have "\<not> bit (menu_dirty (om_menu om)) i"
        and un: "\<forall>x \<in> set (changed_slots packet). from_window ?l (changed_index x) \<noteq> Some (InMenu i)"
        using that(2) m om2 i menu_slot_count_bounds(2) [of ?k] by auto
      moreover have "\<forall>x \<in> set (changed_slots packet). changed_index x \<noteq> word_of_nat i"
        using un from_window_at [of i ?k] i small [OF i(2)] by (auto simp: layout_of_def)
      ultimately show ?thesis using keep [OF i(2)] known(2) [OF i(1)] m om2 by simp
    qed
    show "c_items c' ! (menu_slot_count (menu_kind (om_menu om2)) + i - MAIN_START) = to_slot (inv_slots ?iv ! i)"
      if vis: "in_range (visible_inventory ?l) i" "\<not> bit (dirty_slots (inv_dirty ?iv)) i" for i
    proof -
      let ?j = "menu_slot_count ?k + i - MAIN_START"
      have i: "MAIN_START \<le> i" "i < SIZE" "?j < layout_size ?l" "\<not> ?j < menu_slot_count ?k"
        "MAIN_START + ?j - menu_slot_count ?k = i"
        using vis(1) by (auto simp: in_range_def visible_layout split: if_splits)
      have "\<not> bit (dirty_slots (inv_dirty iv)) i"
        and un: "\<forall>x \<in> set (changed_slots packet). from_window ?l (changed_index x) \<noteq> Some (InInventory i)"
        using vis(2) m i by (auto simp: mark_cursor_def)
      moreover have "\<forall>x \<in> set (changed_slots packet). changed_index x \<noteq> word_of_nat ?j"
        using un from_window_at [of ?j ?k] i small [OF i(3)] by (auto simp: layout_of_def)
      ultimately show ?thesis using keep [OF i(3)] known(3) [OF vis(1)] m om2 by (simp add: mark_cursor_def)
    qed
    show "view_cursor (c_view c') = to_slot (inv_cursor ?iv)" if "\<not> dirty_cursor (inv_dirty ?iv)"
      using that by (simp add: mark_cursor_def)
  qed
  from sync_containers_menu [OF shape this state(2,3) tick]
  have "c_items (apply_packets ps c') = window_slots ?iv om2 ?l \<and>
      view_cursor (c_view (apply_packets ps c')) = to_slot (inv_cursor ?iv)" by (simp add: l2)
  moreover have "window_slots ?iv om2 ?l = window_slots iv om ?l"
    using m om2 by (intro window_slots_cong) (simp_all add: mark_cursor_def)
  ultimately show ?thesis using state m om2 by (simp add: mark_cursor_def)
qed

section \<open>A client one slot behind\<close>

lemma behind_menu_tracks:
  assumes ok: "inv_ok iv" "om_ok om" and "container_id om = Some (c_window c)"
    and "c_window c \<noteq> PLAYER_WINDOW_ID"
    and items: "c_items c = (window_slots iv om (layout_of (om_menu om)))[j := x]"
    and j: "j < menu_slot_count (menu_kind (om_menu om))" "bit (menu_dirty (om_menu om)) j"
    and "view_cursor (c_view c) = to_slot (inv_cursor iv)"
  shows "menu_tracks iv om c"
proof -
  let ?l = "layout_of (om_menu om)" and ?n = "menu_slot_count (menu_kind (om_menu om))"
  note nth = nth_window_slots [OF ok(2,1) _ refl refl]
  have "c_items c ! i = to_slot (menu_slots (om_menu om) ! i)"
    if "i < ?n" "\<not> bit (menu_dirty (om_menu om)) i" for i
  proof -
    have "i \<noteq> j" using that(2) j(2) by blast
    then show ?thesis using that(1) nth [of i] by (simp add: items visible_layout)
  qed
  moreover have "c_items c ! (?n + i - MAIN_START) = to_slot (inv_slots iv ! i)"
    if "in_range (visible_inventory ?l) i" for i
    using that j nth [of "?n + i - MAIN_START"] by (auto simp: items visible_layout in_range_def)
  ultimately show ?thesis
    using assms by (simp add: menu_tracks_def Let_def length_window_slots)
qed

abbreviation demo_menu :: "bool \<Rightarrow> (u8 list, nat) open_menu" where
  "demo_menu e \<equiv> (new_open_menu ((set_slot 3 (new_stack 5 1) (new_menu Generic9x1 ''Shop''))\<lparr>editable := e\<rparr>))
     \<lparr>container_id := Some 7, full_resync := False\<rparr>"

abbreviation demo_inventory :: "u8 list inventory" where
  "demo_inventory \<equiv> (inv_set 10 (new_stack 9 2) new_inventory)\<lparr>inv_cursor := new_stack 4 5\<rparr>"

abbreviation demo_player :: "bool \<Rightarrow> (u8 list, nat) player" where
  "demo_player e \<equiv> \<lparr>p_inventory = Some demo_inventory, p_open = Some (demo_menu e), p_ids = \<lparr>last_id = 7\<rparr>\<rparr>"

abbreviation demo_client :: "u8 list client" where
  "demo_client \<equiv> \<lparr>c_view = exact_view demo_inventory, c_window = 7,
     c_items = (window_slots demo_inventory (demo_menu False) (type_layout Generic9x1))[3 := EMPTY_SLOT]\<rparr>"

lemma demo_ok: "inv_ok demo_inventory" "om_ok (demo_menu e)"
proof -
  have "inv_ok (inv_set 10 (new_stack 9 2) (new_inventory :: u8 list inventory))"
    by (intro slot_set.keeps_ok) (simp add: inv_ok_def new_inventory_def drag_ok_def)
  then show "inv_ok demo_inventory" by (simp add: inv_ok_def)
  show "om_ok (demo_menu e)"
    by (simp add: om_ok_def new_open_menu_def set_slot_def new_menu_def
        slice_get_def menu_slot_count_def menu_mark_slot_def)
qed

lemma demo_kind: "menu_kind (om_menu (demo_menu e)) = Generic9x1" "layout_of (om_menu (demo_menu e)) = type_layout Generic9x1"
  by (simp_all add: new_open_menu_def set_slot_def new_menu_def slice_get_def menu_slot_count_def
      menu_mark_slot_def layout_of_def)

lemma demo_tracks: "menu_tracks demo_inventory (demo_menu False) demo_client"
proof (rule behind_menu_tracks [OF demo_ok, where j = 3])
  show "3 < menu_slot_count (menu_kind (om_menu (demo_menu False)))"
    unfolding demo_kind by (simp add: menu_slot_count_def)
  show "bit (menu_dirty (om_menu (demo_menu False))) 3"
    by (simp add: new_open_menu_def set_slot_def new_menu_def slice_get_def menu_slot_count_def
      menu_mark_slot_def bit_or_iff bit_mask_bit new_stack_def EMPTY_STACK_def)
  show "c_items demo_client = (window_slots demo_inventory (demo_menu False) (layout_of (om_menu (demo_menu False))))[3 := EMPTY_SLOT]"
    unfolding demo_kind by simp
  show "view_cursor (c_view demo_client) = to_slot (inv_cursor demo_inventory)" by (simp add: exact_view_def)
qed (simp_all add: new_open_menu_def)

lemma tick_shows_the_menu_witness:
  "c_items (apply_packets (fst (sync_containers (\<lambda>_. 0) (demo_player False))) demo_client) =
    window_slots demo_inventory (demo_menu False) (layout_of (om_menu (demo_menu False)))"
  by (rule tick_shows_the_menu [OF demo_ok demo_tracks _ _ prod.collapse [symmetric], THEN conjunct1])
    (simp_all only: player.simps)

lemma readonly_click_is_undone_witness:
  "let packet = \<lparr>click_container_id = 7, click_state_id = 0, click_slot = 3, click_button = 0,
      click_input = Pickup, changed_slots = [\<lparr>changed_index = 3, changed_item = None\<rparr>], click_carried = None\<rparr>;
       r = handle_container_click (Some 0) 3 packet (demo_player False)
   in c_items (apply_packets (fst (sync_containers (\<lambda>_. 0) (snd (snd r))))
        (demo_client\<lparr>c_items := (c_items demo_client)[3 := to_slot (new_stack 1 1)]\<rparr>)) =
    window_slots demo_inventory (demo_menu False) (layout_of (om_menu (demo_menu False)))"
proof -
  have pred: "predicts [\<lparr>changed_index = 3, changed_item = None\<rparr>] demo_client
      (demo_client\<lparr>c_items := (c_items demo_client)[3 := to_slot (new_stack 1 1)]\<rparr>)"
  proof -
    have "xs[3 := a] ! i = xs[3 := b] ! i" if "word_of_nat i \<noteq> (3 :: i16)" for xs :: "u8 list slot list" and a b i
      using that by (cases "i = 3") simp_all
    then show ?thesis by (simp add: predicts_def)
  qed
  have slot: "from_window (layout_of (om_menu (demo_menu False))) 3 = Some (InMenu 3)"
    using from_window_at [of 3 Generic9x1] unfolding demo_kind
    by (simp add: visible_layout type_layout_parts menu_slot_count_def)
  have ro: "\<not> editable (om_menu (demo_menu False))" by (simp add: new_open_menu_def)
  have inside: "sint (3 :: i16) < - 1 \<longrightarrow> (3 :: i16) = SLOT_OUTSIDE" by simp
  have split: "r = (fst r, fst (snd r), snd (snd r))" for r :: "'a \<times> 'b \<times> 'c" by simp
  show ?thesis
    unfolding Let_def
    by (rule readonly_click_is_undone [OF demo_ok demo_tracks _ _ _ _ _ _ _ split prod.collapse [symmetric],
          THEN conjunct2, THEN conjunct1])
      (use pred slot ro inside in \<open>simp_all only: player.simps click_container.simps client.simps open_menu.simps
        menu.simps not_False_eq_True\<close>)
qed

end
