(* ===== verification/Container_Items.thy ===== *)
theory Container_Items
  imports Container_Sync
begin

text \<open>
  Where items go when containers are clicked and closed: the handlers of \<open>Container_Sync\<close> neither
  create nor destroy any.
\<close>

section \<open>Counting a player's items\<close>

text \<open>Everything of a kind a player has: the inventory, the cursor and the open menu.\<close>

definition player_amount :: "'n kind \<Rightarrow> ('n, 'h) player \<Rightarrow> nat" where
  "player_amount k p =
     (case p_inventory p of None \<Rightarrow> 0 | Some iv \<Rightarrow> amounts k (inv_slots iv) + amount k (inv_cursor iv)) +
     (case p_open p of None \<Rightarrow> 0 | Some om \<Rightarrow> amounts k (menu_slots (om_menu om)))"

definition dropped_amount :: "'n kind \<Rightarrow> 'n player_event list \<Rightarrow> nat" where
  "dropped_amount k es = sum_list (map (\<lambda>e. case e of ItemDrop _ s \<Rightarrow> amount k s | _ \<Rightarrow> 0) es)"

lemma dropped_amount_simps [simp]:
  "dropped_amount k [] = 0" "dropped_amount k (map (ItemDrop e) ss) = amounts k ss"
  "dropped_amount k (ItemDrop e s # es) = amount k s + dropped_amount k es"
  "dropped_amount k (MenuClosed e c r # es) = dropped_amount k es"
  by (simp_all add: dropped_amount_def amounts_def o_def)

text \<open>The slots of the menu window as the engine sees them.\<close>

abbreviation shown :: "layout \<Rightarrow> ('n, 'h) open_menu \<Rightarrow> 'n inventory \<Rightarrow> 'n item_stack list" where
  "shown l om iv \<equiv> slots (menu_window False l iv om)"

lemma shown_eq:
  assumes "l = layout_of (om_menu om)"
  shows "shown l om iv = menu_slots (om_menu om) @
    take (layout_size l - menu_slot_count (menu_kind (om_menu om))) (drop MAIN_START (inv_slots iv))"
  by (simp add: menu_window_def assms visible_layout)

lemma shown_amounts:
  assumes "inv_ok iv" and "om_ok om" and "l = layout_of (om_menu om)"
  shows "amounts k (menu_slots (om_menu om)) + amounts k (inv_slots iv) =
    amounts k (shown l om iv) + amounts k (take MAIN_START (inv_slots iv)) +
    amounts k (drop (MAIN_START + (layout_size l - menu_slot_count (menu_kind (om_menu om)))) (inv_slots iv))"
proof -
  let ?m = "layout_size l - menu_slot_count (menu_kind (om_menu om))"
  have "inv_slots iv = take MAIN_START (inv_slots iv) @ take ?m (drop MAIN_START (inv_slots iv)) @
      drop (MAIN_START + ?m) (inv_slots iv)"
    by (metis append_take_drop_id drop_drop add.commute)
  then have "amounts k (inv_slots iv) = amounts k (take MAIN_START (inv_slots iv)) +
      (amounts k (take ?m (drop MAIN_START (inv_slots iv))) + amounts k (drop (MAIN_START + ?m) (inv_slots iv)))"
    by (metis amounts_simps(3))
  then show ?thesis by (simp add: shown_eq [OF assms(3)])
qed

lemma write_back_menu:
  assumes "i < menu_slot_count (menu_kind (om_menu om))" and "om_ok om" and "l = layout_of (om_menu om)"
  shows "shown l (on_menu (set_slot i s) om) iv = (shown l om iv)[i := s]"
    and "om_ok (on_menu (set_slot i s) om)" and "menu_kind (om_menu (on_menu (set_slot i s) om)) = menu_kind (om_menu om)"
  using assms
  by (auto simp: menu_window_def on_menu_def set_slot_def menu_mark_slot_def om_ok_def list_update_append1
      slice_get_def)

lemma write_back_inventory:
  assumes "\<not> i < menu_slot_count (menu_kind (om_menu om))" and "i < layout_size l" and "om_ok om"
    and "inv_ok iv" and "l = layout_of (om_menu om)"
  defines "j \<equiv> MAIN_START + i - fst (main l)"
  shows "shown l om (inv_set j s iv) = (shown l om iv)[i := s]"
    and "inv_ok (inv_set j s iv)"
    and "take MAIN_START (inv_slots (inv_set j s iv)) = take MAIN_START (inv_slots iv)"
    and "drop (MAIN_START + (layout_size l - menu_slot_count (menu_kind (om_menu om)))) (inv_slots (inv_set j s iv)) =
      drop (MAIN_START + (layout_size l - menu_slot_count (menu_kind (om_menu om)))) (inv_slots iv)"
    and "inv_cursor (inv_set j s iv) = inv_cursor iv"
proof -
  let ?n = "menu_slot_count (menu_kind (om_menu om))"
  have j: "j = MAIN_START + (i - ?n)" "i - ?n < layout_size l - ?n" "j < length (inv_slots iv)"
    using assms by (auto simp: visible_layout inv_ok_def split: if_splits)
  have eq: "inv_slots (inv_set j s iv) = (inv_slots iv)[j := s]"
    using j(3) by (auto simp: inv_set_def mark_slot_def slice_get_def)
  have "drop MAIN_START ((inv_slots iv)[j := s]) = (drop MAIN_START (inv_slots iv))[i - ?n := s]"
    by (simp add: j(1) drop_update_swap)
  then show "shown l om (inv_set j s iv) = (shown l om iv)[i := s]"
    using assms(1,3) j(2)
    by (simp add: shown_eq [OF assms(5)] eq om_ok_def list_update_append take_update_swap)
  show "inv_ok (inv_set j s iv)" by (rule slot_set.keeps_ok [OF assms(4)])
  show "take MAIN_START (inv_slots (inv_set j s iv)) = take MAIN_START (inv_slots iv)"
    unfolding eq by (simp add: j(1))
  show "drop (MAIN_START + (layout_size l - ?n)) (inv_slots (inv_set j s iv)) =
      drop (MAIN_START + (layout_size l - ?n)) (inv_slots iv)"
    unfolding eq by (rule drop_update_cancel) (use j(1,2) in linarith)
  show "inv_cursor (inv_set j s iv) = inv_cursor iv"
    by (simp add: inv_set_def mark_slot_def split: option.splits)
qed

lemma write_back_spec:
  assumes "write_back l index ps om iv = (om', iv')" and "om_ok om" "inv_ok iv"
    and "l = layout_of (om_menu om)" and "index + length ps = length (shown l om iv)"
    and "\<forall>j < length ps. fst (ps ! j) = shown l om iv ! (index + j)"
    and "length (shown l om iv) = layout_size l"
  shows "shown l om' iv' = take index (shown l om iv) @ map snd ps \<and> om_ok om' \<and> inv_ok iv' \<and>
    menu_kind (om_menu om') = menu_kind (om_menu om) \<and>
    take MAIN_START (inv_slots iv') = take MAIN_START (inv_slots iv) \<and>
    drop (MAIN_START + (layout_size l - menu_slot_count (menu_kind (om_menu om)))) (inv_slots iv') =
      drop (MAIN_START + (layout_size l - menu_slot_count (menu_kind (om_menu om)))) (inv_slots iv)"
  using assms
proof (induction ps arbitrary: index om iv)
  case Nil
  then show ?case by simp
next
  case (Cons q ps)
  obtain old new where q: "q = (old, new)" by (cases q)
  let ?n = "menu_slot_count (menu_kind (om_menu om))"
  let ?w = "shown l om iv"
  have index: "index < length ?w" "index < layout_size l" using Cons.prems(5,7) by auto
  have old: "old = ?w ! index" using Cons.prems(6) q by (metis add.right_neutral fst_conv length_Cons nth_Cons_0 zero_less_Suc)
  have later: "fst (ps ! j) = ?w ! (Suc index + j)" if "j < length ps" for j
    using Cons.prems(6) that by (metis Suc_less_eq add_Suc_right add_Suc length_Cons nth_Cons_Suc)
  have done_here: "?w[index := new] = take index ?w @ new # drop (Suc index) ?w"
    by (rule upd_conv_take_nth_drop [OF index(1)])
  have take: "take (Suc index) (?w[index := new]) = take index ?w @ [new]"
    using index(1) by (simp add: take_Suc_conv_app_nth)
  have step: ?case
    if "write_back l (Suc index) ps om1 iv1 = (om', iv')" and "shown l om1 iv1 = ?w[index := new]"
      and "om_ok om1" "inv_ok iv1" "menu_kind (om_menu om1) = menu_kind (om_menu om)"
      and "take MAIN_START (inv_slots iv1) = take MAIN_START (inv_slots iv)"
      and "drop (MAIN_START + (layout_size l - ?n)) (inv_slots iv1) =
        drop (MAIN_START + (layout_size l - ?n)) (inv_slots iv)" for om1 iv1
  proof -
    have "l = layout_of (om_menu om1)" using Cons.prems(4) that(5) by (simp add: layout_of_def)
    then have "shown l om' iv' = take (Suc index) (shown l om1 iv1) @ map snd ps \<and> om_ok om' \<and> inv_ok iv' \<and>
        menu_kind (om_menu om') = menu_kind (om_menu om1) \<and>
        take MAIN_START (inv_slots iv') = take MAIN_START (inv_slots iv1) \<and>
        drop (MAIN_START + (layout_size l - menu_slot_count (menu_kind (om_menu om1)))) (inv_slots iv') =
          drop (MAIN_START + (layout_size l - menu_slot_count (menu_kind (om_menu om1)))) (inv_slots iv1)"
      using Cons.prems(5,7) later that by (intro Cons.IH) auto
    then show ?thesis using that take q by simp
  qed
  show ?case
  proof (cases "old = new")
    case True
    have "?w[index := new] = ?w"
      unfolding True [symmetric] old by (rule list_update_id)
    with step [of om iv] Cons.prems True q show ?thesis by simp
  next
    case changed: False
    show ?thesis
    proof (cases "index < ?n")
      case True
      have "in_range (container l) index" using True Cons.prems(4) by (simp add: in_range_def visible_layout)
      then have "write_back l (Suc index) ps (on_menu (set_slot index new) om) iv = (om', iv')"
        using Cons.prems(1) q changed by simp
      then show ?thesis
        using write_back_menu [OF True Cons.prems(2,4), where s = new] Cons.prems(3)
        by (intro step [of "on_menu (set_slot index new) om" iv]) auto
    next
      case False
      have "\<not> in_range (container l) index" using False Cons.prems(4) by (simp add: in_range_def visible_layout)
      then have "write_back l (Suc index) ps om (inv_set (MAIN_START + index - fst (main l)) new iv) = (om', iv')"
        using Cons.prems(1) q changed by simp
      then show ?thesis
        using write_back_inventory [OF False index(2) Cons.prems(2,3,4), where s = new] Cons.prems(2)
        by (intro step [of om "inv_set (MAIN_START + index - fst (main l)) new iv"]) auto
    qed
  qed
qed

lemma length_shown:
  assumes "inv_ok iv" and "om_ok om" and "l = layout_of (om_menu om)"
  shows "length (shown l om iv) = layout_size l"
  unfolding shown_eq [OF assms(3)] using assms by (simp add: om_ok_def inv_ok_def visible_layout)

definition menu_survival :: "u8 option \<Rightarrow> ('n, 'h) player \<Rightarrow> bool" where
  "menu_survival gm p \<longleftrightarrow> gm \<noteq> Some CREATIVE_GAME_MODE \<and>
     (\<forall>iv d. p_inventory p = Some iv \<longrightarrow> inv_drag iv = Some d \<longrightarrow> drag_kind d \<noteq> MiddleDrag) \<and>
     (\<forall>om d. p_open p = Some om \<longrightarrow> om_drag om = Some d \<longrightarrow> drag_kind d \<noteq> MiddleDrag)"

definition player_ok :: "('n, 'h) player \<Rightarrow> bool" where
  "player_ok p \<longleftrightarrow> (\<forall>iv. p_inventory p = Some iv \<longrightarrow> inv_ok iv) \<and>
     (\<forall>om. p_open p = Some om \<longrightarrow> om_ok om \<and> drag_ok (layout_size (layout_of (om_menu om))) (om_drag om))"

lemma apply_menu_click_amount:
  assumes ok: "inv_ok iv" "om_ok om" and drag: "drag_ok (layout_size l) (om_drag om)"
    and l: "l = layout_of (om_menu om)" and surv: "\<not> cr" "\<forall>d. om_drag om = Some d \<longrightarrow> drag_kind d \<noteq> MiddleDrag"
    and run: "apply_menu_click l packet cr iv om = (out, om', iv')"
  shows "amounts k (menu_slots (om_menu om')) + amounts k (inv_slots iv') + amount k (inv_cursor iv') +
      amounts k out =
    amounts k (menu_slots (om_menu om)) + amounts k (inv_slots iv) + amount k (inv_cursor iv)"
proof -
  let ?w = "menu_window cr l iv om"
  have cr: "menu_window cr l iv om = menu_window False l iv om" using surv(1) by simp
  have shape: "window_ok ?w" "survival ?w"
    using length_shown [OF ok l] drag surv type_layout_ok l
    by (auto simp: window_ok_def survival_def cr menu_window_def layout_of_def)
  obtain w where click: "apply_click item_max_stack (click_slot packet) (click_button packet)
      (click_input packet) ?w = (out, w)"
    and "\<exists>iv1. write_back l 0 (zip (slots ?w) (slots w)) (om\<lparr>om_drag := drag w\<rparr>) iv = (om', iv1) \<and>
      iv' = set_cursor (cursor w) iv1"
    using run by (auto simp: apply_menu_click_def Let_def split: prod.splits)
  then obtain iv1 where wb: "write_back l 0 (zip (slots ?w) (slots w)) (om\<lparr>om_drag := drag w\<rparr>) iv = (om', iv1)"
    and iv': "iv' = set_cursor (cursor w) iv1" by blast
  note keeps = vanilla.keeps [OF shape(1) click]
  have len: "length (slots w) = length (slots ?w)"
    using keeps_windowD(3,4) [OF keeps] shape(1) by (auto simp: window_ok_def)
  let ?om = "om\<lparr>om_drag := drag w\<rparr>"
  have same: "shown l ?om iv = slots ?w" "om_ok ?om" "l = layout_of (om_menu ?om)"
    using ok l by (simp_all add: cr menu_window_def om_ok_def)
  have spec: "shown l om' iv1 = take 0 (shown l ?om iv) @ map snd (zip (slots ?w) (slots w)) \<and> om_ok om' \<and>
      inv_ok iv1 \<and> menu_kind (om_menu om') = menu_kind (om_menu ?om) \<and>
      take MAIN_START (inv_slots iv1) = take MAIN_START (inv_slots iv) \<and>
      drop (MAIN_START + (layout_size l - menu_slot_count (menu_kind (om_menu ?om)))) (inv_slots iv1) =
        drop (MAIN_START + (layout_size l - menu_slot_count (menu_kind (om_menu ?om)))) (inv_slots iv)"
    using len length_shown [OF ok(1) same(2,3)]
    by (intro write_back_spec [OF wb same(2) ok(1) same(3)]) (simp_all add: same(1))
  then have after: "shown l om' iv1 = slots w" "om_ok om'" "inv_ok iv1" "l = layout_of (om_menu om')"
    using len l by (simp_all add: layout_of_def)
  have cursor: "inv_slots iv' = inv_slots iv1" "inv_cursor iv' = cursor w"
    by (simp_all add: iv' set_cursor_def mark_cursor_def)
  let ?tail = "drop (MAIN_START + (layout_size l - menu_slot_count (menu_kind (om_menu om))))"
  have e1: "amounts k (menu_slots (om_menu om')) + amounts k (inv_slots iv1) =
      amounts k (slots w) + amounts k (take MAIN_START (inv_slots iv)) + amounts k (?tail (inv_slots iv))"
    using shown_amounts [OF after(3,2,4), of k, unfolded after(1)] spec by simp
  have e2: "amounts k (menu_slots (om_menu om)) + amounts k (inv_slots iv) =
      amounts k (slots ?w) + amounts k (take MAIN_START (inv_slots iv)) + amounts k (?tail (inv_slots iv))"
    using shown_amounts [OF ok l, of k] unfolding cr .
  have "cursor ?w = inv_cursor iv" by (simp add: menu_window_def)
  then have e3: "amounts k (slots w) + amount k (cursor w) + amounts k out =
      amounts k (slots ?w) + amount k (inv_cursor iv)"
    using keeps_windowD(2) [OF keeps, of k] shape(2) by (simp only: window_amount_def not_not)
  show ?thesis using e1 e2 e3 unfolding cursor by linarith
qed

lemma inv_apply_click_amount:
  assumes "inv_ok iv" and "\<not> cr" and "\<forall>d. inv_drag iv = Some d \<longrightarrow> drag_kind d \<noteq> MiddleDrag"
    and "inv_apply_click slot button inp cr iv = (out, iv')"
  shows "amounts k (inv_slots iv') + amount k (inv_cursor iv') + amounts k out =
    amounts k (inv_slots iv) + amount k (inv_cursor iv)"
proof -
  obtain w where keeps: "keeps_window item_max_stack (\<not> survival (player_window cr iv)) (player_window cr iv) out w"
    and iv': "inv_slots iv' = slots w" "inv_cursor iv' = cursor w"
    using inv_apply_click_window [OF assms(1,4)] by metis
  have "survival (player_window cr iv)" using assms(2,3) by (simp add: survival_def player_window_def)
  moreover have "slots (player_window cr iv) = inv_slots iv" "cursor (player_window cr iv) = inv_cursor iv"
    by (simp_all add: player_window_def)
  ultimately show ?thesis
    using keeps_windowD(2) [OF keeps, of k] by (simp only: window_amount_def iv' not_not)
qed

lemma handle_click_cases:
  assumes "handle_container_click gm entity packet p = (events, clicks, p')" and "gm \<noteq> Some CREATIVE_GAME_MODE"
    and "p_inventory p = Some iv"
  obtains (quiet) "events = []" "p' = p"
    | (inventory) iv1 out iv2 where "iv1 = (if click_state_id packet \<noteq> inv_state_id iv then mark_full iv else iv)"
        "inv_apply_click (click_slot packet) (click_button packet) (click_input packet) False iv1 = (out, iv2)"
        "events = map (ItemDrop entity) out" "p' = p\<lparr>p_inventory := Some iv2\<rparr>" "p_open p = None"
    | (editing) om out om1 iv1 om2 where "p_open p = Some om"
        "apply_menu_click (layout_of (om_menu om)) packet False iv om = (out, om1, iv1)"
        "om_menu om2 = om_menu om1" "events = map (ItemDrop entity) out"
        "p' = p\<lparr>p_inventory := Some iv1, p_open := Some om2\<rparr>"
    | (readonly) om om1 iv1 om2 where "p_open p = Some om"
        "mark_changed (layout_of (om_menu om)) (changed_slots packet) om iv = (om1, iv1)"
        "om_menu om2 = om_menu om1" "events = []"
        "p' = p\<lparr>p_inventory := Some (mark_cursor iv1), p_open := Some om2\<rparr>"
proof -
  note h = assms(1) [unfolded handle_container_click_def Let_def assms(3) option.case]
  have cr: "(gm = Some CREATIVE_GAME_MODE) = False" using assms(2) by simp
  show thesis
  proof (cases "sint (click_slot packet) < - 1 \<and> click_slot packet \<noteq> SLOT_OUTSIDE")
    case True
    with h show thesis by (intro quiet) auto
  next
    case guard: False
    show thesis
    proof (cases "click_container_id packet = PLAYER_WINDOW_ID")
      case True
      with h guard cr show thesis
        by (cases "p_open p")
          (auto split: prod.splits intro: quiet inventory [OF refl])
    next
      case False
      show thesis
      proof (cases "\<exists>om s. p_open p = Some om \<and> container_id om = Some (click_container_id packet) \<and>
          from_window (layout_of (om_menu om)) (click_slot packet) = Some s")
        case True
        then obtain om s where om: "p_open p = Some om" "container_id om = Some (click_container_id packet)"
          "from_window (layout_of (om_menu om)) (click_slot packet) = Some s" by blast
        show thesis
        proof (cases "editable (om_menu om)")
          case True
          obtain out om1 iv1 where "apply_menu_click (layout_of (om_menu om)) packet False iv om = (out, om1, iv1)"
            by (metis surj_pair)
          then show thesis
            using h guard False om True cr
            by (intro editing [OF om(1), of out om1 iv1
                "if click_state_id packet \<noteq> om_state_id om then om1\<lparr>full_resync := True\<rparr> else om1"]) auto
        next
          case ro: False
          obtain om1 iv1 where "mark_changed (layout_of (om_menu om)) (changed_slots packet) om iv = (om1, iv1)"
            by fastforce
          then show thesis
            using h guard False om ro cr
            by (intro readonly [OF om(1), of om1 iv1
                "if click_state_id packet \<noteq> om_state_id om then om1\<lparr>full_resync := True\<rparr> else om1"]) auto
        qed
      next
        case none: False
        have "events = [] \<and> p' = p"
          using h guard False none by (auto split: option.splits if_splits)
        then show thesis by (intro quiet) auto
      qed
    qed
  qed
qed

text \<open>C7: handling a click packet, whatever it contains and whichever window it names, creates and
  destroys nothing: for a player not in creative the amount of each kind of item in the inventory, on
  the cursor, in the open menu and thrown into the world stays the same.\<close>

theorem click_packets_conserve_items:
  assumes "player_ok p" and "menu_survival gm p"
    and "handle_container_click gm entity packet p = (events, clicks, p')"
  shows "player_amount k p' + dropped_amount k events = player_amount k p"
proof (cases "p_inventory p")
  case None
  then show ?thesis using assms(3) by (simp add: handle_container_click_def)
next
  case (Some iv)
  have ok: "inv_ok iv" and cr: "gm \<noteq> Some CREATIVE_GAME_MODE"
    using assms(1,2) Some by (auto simp: player_ok_def menu_survival_def)
  consider (quiet) "events = []" "p' = p"
    | (inventory) iv1 out iv2 where "iv1 = (if click_state_id packet \<noteq> inv_state_id iv then mark_full iv else iv)"
        "inv_apply_click (click_slot packet) (click_button packet) (click_input packet) False iv1 = (out, iv2)"
        "events = map (ItemDrop entity) out" "p' = p\<lparr>p_inventory := Some iv2\<rparr>" "p_open p = None"
    | (editing) om out om1 iv1 om2 where "p_open p = Some om"
        "apply_menu_click (layout_of (om_menu om)) packet False iv om = (out, om1, iv1)"
        "om_menu om2 = om_menu om1" "events = map (ItemDrop entity) out"
        "p' = p\<lparr>p_inventory := Some iv1, p_open := Some om2\<rparr>"
    | (readonly) om om1 iv1 om2 where "p_open p = Some om"
        "mark_changed (layout_of (om_menu om)) (changed_slots packet) om iv = (om1, iv1)"
        "om_menu om2 = om_menu om1" "events = []"
        "p' = p\<lparr>p_inventory := Some (mark_cursor iv1), p_open := Some om2\<rparr>"
    using assms(3) cr Some by (rule handle_click_cases)
  then show ?thesis
  proof cases
    case quiet
    then show ?thesis by simp
  next
    case inventory
    then have "inv_ok iv1" "inv_drag iv1 = inv_drag iv" "inv_slots iv1 = inv_slots iv" "inv_cursor iv1 = inv_cursor iv"
      using ok by (auto simp: marked_full.keeps_ok) (auto simp: mark_full_def)
    moreover have "\<forall>d. inv_drag iv = Some d \<longrightarrow> drag_kind d \<noteq> MiddleDrag"
      using assms(2) Some by (simp add: menu_survival_def)
    ultimately show ?thesis
      using inv_apply_click_amount [OF _ _ _ inventory(2), of k] inventory Some
      by (simp add: player_amount_def)
  next
    case editing
    then show ?thesis
      using apply_menu_click_amount [OF ok _ _ refl _ _ editing(2), of k] assms(1,2) Some
      by (simp add: player_amount_def player_ok_def menu_survival_def)
  next
    case readonly
    then show ?thesis
      using mark_changed_spec [OF readonly(2)] Some by (simp add: player_amount_def mark_cursor_def)
  qed
qed

section \<open>Closing\<close>

text \<open>
  What every way of closing promises of the packets, the events and the player left behind: the
  menu is gone, what the cursor carried is back in the inventory or thrown, plugins are told once,
  and the client is told exactly when it does not know yet.
\<close>

definition closed_for ::
  "close_reason \<Rightarrow> nat \<Rightarrow> i32 \<Rightarrow> 'n inventory \<Rightarrow>
   'n container_packet list \<times> 'n player_event list \<times> ('n, 'h) player \<Rightarrow> bool" where
  "closed_for r entity cid iv result \<longleftrightarrow>
     (case result of (packets, events, p') \<Rightarrow>
       packets = (if r = ByServer \<or> r = Replaced then [CloseContainer cid] else []) \<and>
       filter (\<lambda>e. case e of MenuClosed _ _ _ \<Rightarrow> True | _ \<Rightarrow> False) events = [MenuClosed entity cid r] \<and>
       p_open p' = None \<and>
       (\<exists>iv'. p_inventory p' = Some iv' \<and> inv_ok iv' \<and> inv_cursor iv' = EMPTY_STACK \<and>
          dirty_full (inv_dirty iv') \<and>
          (\<forall>k. amounts k (inv_slots iv') + dropped_amount k events =
             amounts k (inv_slots iv) + amount k (inv_cursor iv))))"

lemma give_amount:
  assumes "inv_ok iv" and "give stack iv = (rest, iv')"
  shows "inv_ok iv'" and "inv_cursor iv' = inv_cursor iv"
    and "amounts k (inv_slots iv') + amount k rest = amounts k (inv_slots iv) + amount k stack"
proof -
  show "inv_ok iv'" using given.keeps_ok [OF assms(1), of stack] assms(2) by simp
  show "inv_cursor iv' = inv_cursor iv"
    using assms(2) by (auto simp: give_def mark_changed_since_def Let_def split: if_splits prod.splits)
  have rng: "\<forall>i \<in> set storage_order. i < length (inv_slots iv)"
    using storage_order_range assms(1) by (simp add: inv_ok_def)
  show "amounts k (inv_slots iv') + amount k rest = amounts k (inv_slots iv) + amount k stack"
  proof (cases "stack_is_empty stack")
    case True
    then show ?thesis using assms(2) by (simp add: give_def)
  next
    case False
    then have "deposit item_max_stack storage_order (inv_slots iv) stack = (inv_slots iv', rest)"
      using assms(2) by (auto simp: give_def mark_changed_since_def Let_def split: prod.splits)
    from deposit_amount(1) [OF this rng] show ?thesis .
  qed
qed

lemma remove_open_menu_closes:
  assumes "inv_ok iv" and "p_inventory p = Some iv" and "p_open p = Some om"
    and "container_id om = Some cid"
  shows "closed_for r entity cid iv (remove_open_menu entity (set_closing r p))"
proof -
  let ?iv = "mark_cursor (iv\<lparr>inv_cursor := EMPTY_STACK\<rparr>)"
  obtain rest iv' where g: "give (inv_cursor iv) ?iv = (rest, iv')" by fastforce
  have "inv_ok ?iv" using assms(1) by (simp add: inv_ok_def mark_cursor_def)
  note amounts = give_amount [OF this g]
  have "inv_ok (mark_full iv')" using amounts(1) by (rule marked_full.keeps_ok)
  moreover have "amounts k (inv_slots iv') + amount k rest = amounts k (inv_slots iv) + amount k (inv_cursor iv)"
    and "inv_cursor iv' = EMPTY_STACK" for k
    using amounts(2) amounts(3) [of k] by (simp_all add: mark_cursor_def)
  ultimately show ?thesis
    using assms(2-4) g
    by (cases r)
      (auto simp: closed_for_def remove_open_menu_def set_closing_def on_menu_removed_def Let_def mark_full_def)
qed

text \<open>A menu the client has not been shown yet leaves without a trace; \<open>closed_as\<close> tells the two apart.\<close>

definition closed_as ::
  "close_reason \<Rightarrow> nat \<Rightarrow> ('n, 'h) open_menu \<Rightarrow> 'n inventory \<Rightarrow>
   'n container_packet list \<times> 'n player_event list \<times> ('n, 'h) player \<Rightarrow> bool" where
  "closed_as r entity om iv result \<longleftrightarrow>
     (case container_id om of
        Some cid \<Rightarrow> closed_for r entity cid iv result
      | None \<Rightarrow> (case result of (packets, events, p') \<Rightarrow>
          packets = [] \<and> events = [] \<and> p_open p' = None \<and> p_inventory p' = Some iv))"

lemma remove_open_menu_closed_as:
  assumes "inv_ok iv" and "p_inventory p = Some iv" and "p_open p = Some om"
  shows "closed_as r entity om iv (remove_open_menu entity (set_closing r p))"
proof (cases "container_id om")
  case None
  then show ?thesis using assms by (simp add: closed_as_def remove_open_menu_def set_closing_def on_menu_removed_def)
next
  case (Some cid)
  then show ?thesis using remove_open_menu_closes [OF assms Some] by (simp add: closed_as_def)
qed

text \<open>C13: however a menu is closed, by the client, by the server, by opening another one in its place, or
  by the player leaving: once the client has been shown the menu, the items the cursor carried end up in the
  inventory or thrown on the ground, none lost and none doubled, the cursor is empty, the inventory is due a
  full resend, plugins get exactly one event with the right reason, and a close packet is sent when the server
  closes or replaces the menu and not when the client closed it or is leaving. A menu closed before it was ever
  shown sends nothing and changes nothing, and a close packet of the client for any other container is ignored.\<close>

theorem closing_returns_the_cursor:
  fixes p :: "('n, 'h) player"
  assumes "player_ok p" and "p_inventory p = Some iv" and "p_open p = Some om"
  shows "(if container_id om = Some cid then closed_for ByClient entity cid iv (handle_close_container entity cid p)
      else handle_close_container entity cid p = ([], [], p)) \<and>
    (\<exists>packets events p'. close_in_world entity (Some p) = (True, packets, events, Some p') \<and>
      closed_as ByServer entity om iv (packets, events, p')) \<and>
    (\<exists>packets events p'. open_in_world entity m (Some p) =
        (True, packets, events, Some (p'\<lparr>p_open := Some (new_open_menu m)\<rparr>)) \<and>
      closed_as Replaced entity om iv (packets, events, p')) \<and>
    closed_as Disconnect entity om iv (remove_open_menu entity (mark_menu_closed_on_quit p))"
proof -
  have ok: "inv_ok iv" using assms(1,2) by (simp add: player_ok_def)
  note closes = remove_open_menu_closed_as [OF ok assms(2,3), where entity = entity]
  obtain ps1 es1 p1 where 1: "remove_open_menu entity (set_closing ByServer p) = (ps1, es1, p1)"
    by (metis surj_pair)
  obtain ps2 es2 p2 where 2: "remove_open_menu entity (set_closing Replaced p) = (ps2, es2, p2)"
    by (metis surj_pair)
  have "open_in_world entity m (Some p) = (True, ps2, es2, Some (p2\<lparr>p_open := Some (new_open_menu m)\<rparr>))"
    and "closed_as Replaced entity om iv (ps2, es2, p2)"
    using closes [of Replaced] 2 assms(2,3) by (simp_all add: open_in_world_def)
  moreover have "if container_id om = Some cid then closed_for ByClient entity cid iv (handle_close_container entity cid p)
      else handle_close_container entity cid p = ([], [], p)"
    using closes [of ByClient] assms(3) by (auto simp: handle_close_container_def closed_as_def split: option.splits)
  ultimately show ?thesis
    using closes [of ByServer] closes [of Disconnect] 1 assms(2,3)
    by (intro conjI) (simp_all add: close_in_world_def mark_menu_closed_on_quit_def, blast?)
qed

lemma demo_player_ok: "player_ok (demo_player e)"
  using demo_ok by (simp add: player_ok_def new_open_menu_def drag_ok_def)

lemma closing_returns_the_cursor_witness:
  "closed_for ByClient 3 7 (the (p_inventory (demo_player True))) (handle_close_container 3 7 (demo_player True))"
  using closing_returns_the_cursor [OF demo_player_ok, of True _ "demo_menu True" 7 3 undefined]
  by (simp add: new_open_menu_def)

lemma click_packets_conserve_items_witness:
  "let packet = \<lparr>click_container_id = 7, click_state_id = 0, click_slot = 3, click_button = 0,
      click_input = Pickup, changed_slots = [], click_carried = None\<rparr>;
       r = handle_container_click (Some 0) 3 packet (demo_player True)
   in player_amount (5, []) (snd (snd r)) + dropped_amount (5, []) (fst r) =
     player_amount (5, []) (demo_player True)"
proof -
  have surv: "menu_survival (Some 0) (demo_player True)"
    by (simp add: menu_survival_def new_open_menu_def inv_set_def new_inventory_def slice_get_def mark_slot_def)
  have split: "r = (fst r, fst (snd r), snd (snd r))" for r :: "'a \<times> 'b \<times> 'c" by simp
  show ?thesis
    unfolding Let_def
    by (rule click_packets_conserve_items [OF demo_player_ok surv split])
qed

end
