(* ===== verification/Bit_Packing.thy ===== *)
theory Bit_Packing
  imports Void_Prelude "HOL-Library.Log_Nat" "HOL-Library.Monad_Syntax"
begin

text \<open>
  The packed arrays of \<open>void-protocol/src/clientbound/play/chunk.rs\<close>: entries of a fixed width in
  64-bit longs, none across a boundary. The panics of the Rust code (a width of 0 or 64 and more,
  an index past the longs) are \<open>None\<close>. \<open>field\<close> is the entry an array holds at an index.
\<close>

section \<open>The operations\<close>

text \<open>\<open>usize::BITS - (count - 1).leading_zeros()\<close> is the number of binary digits of \<open>count - 1\<close>.\<close>

definition ceil_log2 :: "nat \<Rightarrow> u8" where
  "ceil_log2 count = (if count \<le> 1 then 0 else word_of_nat (floorlog 2 (count - 1)))"

definition packed_len :: "u8 \<Rightarrow> nat \<Rightarrow> nat option" where
  "packed_len bits entries =
     (if bits = 0 \<or> 64 < unat bits then None else Some (div_ceil entries (64 div unat bits)))"

text \<open>\<open>(1u64 << bits) - 1\<close>.\<close>

definition low_mask :: "u8 \<Rightarrow> u64 option" where
  "low_mask bits = (if unat bits < 64 then Some (push_bit (unat bits) 1 - 1) else None)"

definition packed_get :: "u64 list \<Rightarrow> u8 \<Rightarrow> nat \<Rightarrow> u64 option" where
  "packed_get data bits index =
     (if bits = 0 then None
      else do {
        m \<leftarrow> low_mask bits;
        let per_long = 64 div unat bits;
        let long = (case slice_get data (index div per_long) of Some l \<Rightarrow> l | None \<Rightarrow> 0);
        Some (drop_bit ((index mod per_long) * unat bits) long AND m)
      })"

definition packed_set :: "u64 list \<Rightarrow> u8 \<Rightarrow> nat \<Rightarrow> u64 \<Rightarrow> u64 list option" where
  "packed_set data bits index value =
     (if bits = 0 then None
      else do {
        m \<leftarrow> low_mask bits;
        let per_long = 64 div unat bits;
        let shift = (index mod per_long) * unat bits;
        long \<leftarrow> slice_get data (index div per_long);
        Some (data[index div per_long :=
          (long AND NOT (push_bit shift m)) OR push_bit shift (value AND m)])
      })"

text \<open>\<open>data[long_idx] |= (value & mask) << bit_offset\<close>, on an array whose entry is still zero.\<close>

definition packed_or :: "u64 list \<Rightarrow> u8 \<Rightarrow> nat \<Rightarrow> u64 \<Rightarrow> u64 list option" where
  "packed_or data bits index value =
     (if bits = 0 then None
      else do {
        m \<leftarrow> low_mask bits;
        let per_long = 64 div unat bits;
        long \<leftarrow> slice_get data (index div per_long);
        Some (data[index div per_long :=
          long OR push_bit ((index mod per_long) * unat bits) (value AND m)])
      })"

text \<open>\<open>data[long_idx] &= !(mask << bit_offset)\<close>.\<close>

definition packed_clear :: "u64 list \<Rightarrow> u8 \<Rightarrow> nat \<Rightarrow> u64 list option" where
  "packed_clear data bits index =
     (if bits = 0 then None
      else do {
        m \<leftarrow> low_mask bits;
        let per_long = 64 div unat bits;
        long \<leftarrow> slice_get data (index div per_long);
        Some (data[index div per_long :=
          long AND NOT (push_bit ((index mod per_long) * unat bits) m)])
      })"

text \<open>The loops that write a list of values one after the other.\<close>

fun pack_from ::
  "(u64 list \<Rightarrow> u8 \<Rightarrow> nat \<Rightarrow> u64 \<Rightarrow> u64 list option) \<Rightarrow> u8 \<Rightarrow> nat \<Rightarrow> u64 list \<Rightarrow> u64 list \<Rightarrow> u64 list option" where
  "pack_from put bits index [] data = Some data"
| "pack_from put bits index (v # vs) data =
     do { data' \<leftarrow> put data bits index v; pack_from put bits (Suc index) vs data' }"

section \<open>What an array holds\<close>

definition field :: "u64 list \<Rightarrow> u8 \<Rightarrow> nat \<Rightarrow> u64" where
  "field data bits i =
     take_bit (unat bits) (drop_bit ((i mod (64 div unat bits)) * unat bits) (data ! (i div (64 div unat bits))))"

text \<open>An array of \<open>n\<close> entries.\<close>

definition packed_ok :: "u64 list \<Rightarrow> u8 \<Rightarrow> nat \<Rightarrow> bool" where
  "packed_ok data bits n \<longleftrightarrow>
     bits \<noteq> 0 \<and> unat bits < 64 \<and> length data = div_ceil n (64 div unat bits)"

lemma low_mask_eq: "unat bits < 64 \<Longrightarrow> low_mask bits = Some (mask (unat bits))"
  by (simp add: low_mask_def mask_eq_exp_minus_1)

lemma packed_okD:
  assumes "packed_ok data bits n"
  shows "bits \<noteq> 0" "unat bits < 64" "0 < unat bits" "0 < 64 div unat bits"
    "low_mask bits = Some (mask (unat bits))"
    "i < n \<Longrightarrow> i div (64 div unat bits) < length data"
proof -
  show b: "bits \<noteq> 0" "unat bits < 64" using assms by (simp_all add: packed_ok_def)
  then show pos: "0 < unat bits" by (simp add: unat_gt_0)
  show per: "0 < 64 div unat bits" using b(2) pos by (simp add: div_greater_zero_iff)
  show "low_mask bits = Some (mask (unat bits))" by (rule low_mask_eq [OF b(2)])
  show "i < n \<Longrightarrow> i div (64 div unat bits) < length data"
    using assms less_div_ceil [OF per] by (simp add: packed_ok_def)
qed

lemma packed_get_field:
  assumes "packed_ok data bits n" and "i < n"
  shows "packed_get data bits i = Some (field data bits i)"
  using packed_okD [OF assms(1)] assms(2)
  by (simp add: packed_get_def field_def slice_get_def Let_def take_bit_eq_mask)

lemma field_less: "unat (field data bits i) < 2 ^ unat bits"
  unfolding field_def unsigned_take_bit_eq by (rule take_bit_nat_less_exp)

lemma entry_fits:
  assumes "0 < (b :: nat)" and "b < 64"
  shows "(i mod (64 div b)) * b + b \<le> 64"
proof -
  have "0 < 64 div b" using assms by (simp add: div_greater_zero_iff)
  then have "Suc (i mod (64 div b)) \<le> 64 div b" by (simp add: Suc_le_eq)
  then have "Suc (i mod (64 div b)) * b \<le> 64 div b * b" by (rule mult_le_mono1)
  also have "\<dots> \<le> 64" by simp
  finally show ?thesis by simp
qed

lemma entries_apart:
  assumes "0 < (b :: nat)" and "x \<noteq> y"
  shows "x * b + b \<le> y * b \<or> y * b + b \<le> x * b"
proof -
  consider "Suc x \<le> y" | "Suc y \<le> x" using assms(2) by linarith
  then show ?thesis
    by cases (metis add.commute mult_Suc mult_le_mono1, metis add.commute mult_Suc mult_le_mono1)
qed

lemma take_put_same:
  fixes l v :: u64
  assumes "s + b \<le> 64"
  shows "take_bit b (drop_bit s ((l AND NOT (push_bit s (mask b))) OR push_bit s (v AND mask b))) = take_bit b v"
  using assms by (intro bit_word_eqI) (auto simp: bit_simps)

lemma take_put_other:
  fixes l v :: u64
  assumes "s + b \<le> t \<or> t + b \<le> s" and "t + b \<le> 64"
  shows "take_bit b (drop_bit t ((l AND NOT (push_bit s (mask b))) OR push_bit s (v AND mask b))) =
    take_bit b (drop_bit t l)"
  using assms by (intro bit_word_eqI) (auto simp: bit_simps)

lemma packed_set_field:
  assumes ok: "packed_ok data bits n" and i: "i < n"
  obtains data' where "packed_set data bits i v = Some data'" and "packed_ok data' bits n"
    and "\<And>j. j < n \<Longrightarrow> field data' bits j = (if j = i then take_bit (unat bits) v else field data bits j)"
proof -
  let ?b = "unat bits" and ?p = "64 div unat bits"
  note d = packed_okD [OF ok]
  let ?l = "(data ! (i div ?p) AND NOT (push_bit (i mod ?p * ?b) (mask ?b))) OR push_bit (i mod ?p * ?b) (v AND mask ?b)"
  let ?data = "data[i div ?p := ?l]"
  have "packed_set data bits i v = Some ?data"
    using d i by (simp add: packed_set_def slice_get_def Let_def del: push_bit_and)
  moreover have "packed_ok ?data bits n" using ok by (simp add: packed_ok_def)
  moreover have "field ?data bits j = (if j = i then take_bit ?b v else field data bits j)" if "j < n" for j
  proof (cases "j div ?p = i div ?p")
    case False
    then show ?thesis by (auto simp: field_def)
  next
    case True
    have nth: "?data ! (j div ?p) = ?l" using True d(6) [OF i] by simp
    show ?thesis
    proof (cases "j = i")
      case True
      then show ?thesis
        unfolding field_def nth using take_put_same [OF entry_fits [OF d(3,2)], of i "data ! (i div ?p)" v] by simp
    next
      case False
      with True have "i mod ?p \<noteq> j mod ?p" by (metis div_mult_mod_eq)
      then have "i mod ?p * ?b + ?b \<le> j mod ?p * ?b \<or> j mod ?p * ?b + ?b \<le> i mod ?p * ?b"
        by (rule entries_apart [OF d(3)])
      from take_put_other [OF this entry_fits [OF d(3,2)]] show ?thesis
        unfolding field_def nth using False True by simp
    qed
  qed
  ultimately show thesis by (rule that)
qed

lemma clear_or_is_set:
  "do { data' \<leftarrow> packed_clear data bits i; packed_or data' bits i v } = packed_set data bits i v"
  by (auto simp: packed_clear_def packed_or_def packed_set_def slice_get_def Let_def split: bind_splits)

lemma or_is_set:
  assumes "packed_ok data bits n" and "i < n" and "field data bits i = 0"
  shows "packed_or data bits i v = packed_set data bits i v"
proof -
  note d = packed_okD [OF assms(1)]
  let ?l = "data ! (i div (64 div unat bits))" and ?s = "i mod (64 div unat bits) * unat bits"
  have bits_0: "bit (take_bit (unat bits) (drop_bit ?s ?l)) k \<longleftrightarrow> False" for k
    using assms(3) by (simp add: field_def)
  have "\<not> bit ?l k" if "?s \<le> k" "k - ?s < unat bits" for k
    using bits_0 [of "k - ?s"] that by (simp add: bit_take_bit_iff bit_drop_bit_eq del: bit_0_eq)
  then have "?l AND NOT (push_bit ?s (mask (unat bits))) = ?l"
    by (intro bit_word_eqI) (auto simp: bit_simps)
  then show ?thesis
    using d(1,4,5) d(6) [OF assms(2)]
    by (simp add: packed_or_def packed_set_def slice_get_def Let_def del: push_bit_and)
qed

section \<open>Writing a whole array\<close>

lemma packed_ok_zero:
  assumes "packed_len bits n = Some m" and "unat bits < 64"
  shows "packed_ok (replicate m 0) bits n"
  using assms by (auto simp: packed_len_def packed_ok_def split: if_splits)

lemma field_zero:
  assumes "packed_ok (replicate m 0) bits n" and "i < n"
  shows "field (replicate m 0) bits i = 0"
  using packed_okD(6) [OF assms] by (simp add: field_def)

lemma pack_from_set:
  assumes "packed_ok data bits n" and "index + length vs \<le> n"
  obtains data' where "pack_from packed_set bits index vs data = Some data'" and "packed_ok data' bits n"
    and "\<And>j. j < n \<Longrightarrow> field data' bits j =
      (if index \<le> j \<and> j < index + length vs then take_bit (unat bits) (vs ! (j - index)) else field data bits j)"
proof -
  have "\<exists>data'. pack_from packed_set bits index vs data = Some data' \<and> packed_ok data' bits n \<and>
      (\<forall>j < n. field data' bits j =
        (if index \<le> j \<and> j < index + length vs then take_bit (unat bits) (vs ! (j - index)) else field data bits j))"
    using assms
  proof (induction vs arbitrary: index data)
    case Nil
    then show ?case by auto
  next
    case (Cons v vs)
    then have "index < n" by simp
    from packed_set_field [OF Cons.prems(1) this] obtain d1
      where d1: "packed_set data bits index v = Some d1" "packed_ok d1 bits n"
        "\<And>j. j < n \<Longrightarrow> field d1 bits j = (if j = index then take_bit (unat bits) v else field data bits j)"
      by metis
    obtain d2 where d2: "pack_from packed_set bits (Suc index) vs d1 = Some d2" "packed_ok d2 bits n"
        "\<And>j. j < n \<Longrightarrow> field d2 bits j = (if Suc index \<le> j \<and> j < Suc index + length vs
          then take_bit (unat bits) (vs ! (j - Suc index)) else field d1 bits j)"
      using Cons.IH [OF d1(2), of "Suc index"] Cons.prems(2) by auto
    have "field d2 bits j = (if index \<le> j \<and> j < index + length (v # vs)
        then take_bit (unat bits) ((v # vs) ! (j - index)) else field data bits j)" if "j < n" for j
      using d2(3) [OF that] d1(3) [OF that] by (auto simp: nth_Cons')
    then show ?case using d1(1) d2(1,2) by auto
  qed
  then show thesis using that by blast
qed

lemma pack_or_is_set:
  assumes "packed_ok data bits n" and "index + length vs \<le> n"
    and "\<And>j. index \<le> j \<Longrightarrow> j < n \<Longrightarrow> field data bits j = 0"
  shows "pack_from packed_or bits index vs data = pack_from packed_set bits index vs data"
  using assms
proof (induction vs arbitrary: index data)
  case (Cons v vs)
  have i: "index < n" using Cons.prems(2) by simp
  from packed_set_field [OF Cons.prems(1) i] obtain d1
    where d1: "packed_set data bits index v = Some d1" "packed_ok d1 bits n"
      "\<And>j. j < n \<Longrightarrow> field d1 bits j = (if j = index then take_bit (unat bits) v else field data bits j)"
    by metis
  have "packed_or data bits index v = Some d1"
    using or_is_set [OF Cons.prems(1) i Cons.prems(3)] i d1(1) by simp
  moreover have "pack_from packed_or bits (Suc index) vs d1 = pack_from packed_set bits (Suc index) vs d1"
    using Cons.prems(2,3) d1(3) by (intro Cons.IH [OF d1(2)]) auto
  ultimately show ?case using d1(1) by simp
qed simp

section \<open>Widths\<close>

lemma ceil_log2_eq:
  assumes "count \<le> 2 ^ 64"
  shows "unat (ceil_log2 count) = ceillog2 count"
proof (cases "count \<le> 1")
  case True
  then show ?thesis by (simp add: ceil_log2_def)
next
  case False
  let ?n = "count - 1" and ?k = "floorlog 2 (count - 1)"
  have "0 < ?n" using False by simp
  then have bounds: "2 ^ (?k - 1) \<le> ?n" "?n < 2 ^ ?k" "0 < ?k"
    using floorlog_bounds [of ?n 2] by (simp_all add: floorlog_def)
  have "?k \<le> 64" using assms False by (intro floorlog_leI) auto
  then have "unat (word_of_nat ?k :: u8) = ?k" by (simp add: unsigned_of_nat take_bit_nat_eq_self)
  moreover have "ceillog2 count = ?k"
  proof (rule ceillog2_eqI)
    show "count \<le> 2 ^ ?k" using bounds(2) by simp
    have "(2::nat) ^ ?k = 2 * 2 ^ (?k - 1)" using bounds(3) by (cases ?k) simp_all
    also have "\<dots> \<le> 2 * ?n" using bounds(1) by simp
    also have "\<dots> < 2 * count" using False by simp
    finally show "2 ^ ?k < 2 * count" .
  qed
  ultimately show ?thesis using False by (simp add: ceil_log2_def)
qed

end
