(* ===== verification/Chunk_Sections.thy ===== *)
theory Chunk_Sections
  imports Bit_Packing Codec_Primitives
begin

text \<open>
  The 16x16x16 sections of a chunk (\<open>void-protocol/src/clientbound/play/chunk.rs\<close>): paletted
  containers for 4096 block states and 64 biome cells, reading and writing single cells, and
  building a section from blocks. A panic is \<open>None\<close>, \<open>debug_assert!\<close> included. The lemmas show
  that the representation implements a plain array of cells, and where it stops doing so.
\<close>

section \<open>Paletted containers\<close>

datatype palette_data =
    SingleValue i32
  | Indirect u8 "i32 list" "u64 list"
  | Direct u8 "u64 list"

abbreviation AIR_BLOCK :: i32 where "AIR_BLOCK \<equiv> 0"

definition bits_per_entry :: "palette_data \<Rightarrow> u8" where
  "bits_per_entry p =
     (case p of SingleValue _ \<Rightarrow> 0 | Indirect bits _ _ \<Rightarrow> bits | Direct bits _ \<Rightarrow> bits)"

definition palette_entry :: "palette_data \<Rightarrow> nat \<Rightarrow> i32 option" where
  "palette_entry p index =
     (case p of
        SingleValue i \<Rightarrow> Some i
      | Indirect bits palette data \<Rightarrow>
          do {
            v \<leftarrow> packed_get data bits index;
            Some (case slice_get palette (unat v) of Some i \<Rightarrow> i | None \<Rightarrow> 0)
          }
      | Direct bits data \<Rightarrow> do { v \<leftarrow> packed_get data bits index; Some (ucast v) })"

text \<open>The chunk code has a VarInt writer of its own.\<close>

function write_varint :: "u32 \<Rightarrow> u8 list" where
  "write_varint value =
     (if value AND NOT 0x7F = 0 then [ucast value]
      else ucast ((value AND 0x7F) OR 0x80) # write_varint (drop_bit 7 value))"
  by pat_completeness auto
termination
proof (relation "measure unat", simp)
  fix v :: u32
  assume "v AND NOT 0x7F \<noteq> 0"
  then have "v \<noteq> 0" by auto
  then show "(drop_bit 7 v, v) \<in> measure unat" by (simp add: drop_bit_less)
qed

declare write_varint.simps [simp del]

definition palette_write :: "palette_data \<Rightarrow> u8 list" where
  "palette_write p =
     bits_per_entry p #
     (case p of
        SingleValue i \<Rightarrow> write_varint i
      | Indirect _ palette data \<Rightarrow>
          write_varint (word_of_nat (length palette)) @ concat (map write_varint palette) @
          concat (map (to_be_bytes 8) data)
      | Direct _ data \<Rightarrow> concat (map (to_be_bytes 8) data))"

section \<open>Biome containers\<close>

abbreviation BIOME_CELLS_PER_SECTION :: nat where "BIOME_CELLS_PER_SECTION \<equiv> 64"
abbreviation BIOME_MAX_INDIRECT_BITS :: u8 where "BIOME_MAX_INDIRECT_BITS \<equiv> 3"

definition biome_direct_bits :: "nat \<Rightarrow> u8" where
  "biome_direct_bits registry_size = max (ceil_log2 registry_size) 1"

text \<open>The loop that collects the distinct values in order of appearance.\<close>

definition distinct_values :: "i32 list \<Rightarrow> i32 list" where
  "distinct_values cells = fold (\<lambda>i palette. if i \<in> set palette then palette else palette @ [i]) cells []"

definition biome_palette :: "i32 list \<Rightarrow> nat \<Rightarrow> palette_data option" where
  "biome_palette cells registry_size =
     (let palette = distinct_values cells in
      if length palette = 1 then Some (SingleValue (palette ! 0))
      else
        (let bits = max (ceil_log2 (length palette)) 1 in
         if bits \<le> BIOME_MAX_INDIRECT_BITS then
           do {
             longs \<leftarrow> packed_len bits BIOME_CELLS_PER_SECTION;
             indices \<leftarrow> those (map (\<lambda>i. position (\<lambda>p. p = i) palette) cells);
             data \<leftarrow> pack_from packed_set bits 0 (map word_of_nat indices) (replicate longs 0);
             Some (Indirect bits palette data)
           }
         else
           (let bits = biome_direct_bits registry_size in
            do {
              longs \<leftarrow> packed_len bits BIOME_CELLS_PER_SECTION;
              data \<leftarrow> pack_from packed_set bits 0 (map scast cells) (replicate longs 0);
              Some (Direct bits data)
            })))"

definition biome_cell_index :: "u8 \<Rightarrow> u8 \<Rightarrow> u8 \<Rightarrow> nat option" where
  "biome_cell_index x y z =
     (if x < 4 \<and> y < 4 \<and> z < 4 then Some (unat y * 16 + unat z * 4 + unat x) else None)"

section \<open>Sections\<close>

record chunk_section =
  block_count :: i16
  block_state :: palette_data
  biome :: palette_data

definition empty_section :: chunk_section where
  "empty_section = \<lparr>block_count = 0, block_state = SingleValue 0, biome = SingleValue 0\<rparr>"

definition filled_section :: "i32 \<Rightarrow> i32 \<Rightarrow> chunk_section" where
  "filled_section block_state_id biome_id =
     \<lparr>block_count = (if block_state_id = 0 then 0 else 4096),
      block_state = SingleValue block_state_id, biome = SingleValue biome_id\<rparr>"

text \<open>The loop of \<open>with_layer\<close>: \<open>1u64 << bit_offset\<close> into 256 entries of four bits.\<close>

fun or_ones :: "nat list \<Rightarrow> u64 list \<Rightarrow> u64 list option" where
  "or_ones [] data = Some data"
| "or_ones (i # is) data = do { data' \<leftarrow> packed_or data 4 i 1; or_ones is data' }"

definition with_layer :: "u8 \<Rightarrow> i32 \<Rightarrow> i32 \<Rightarrow> chunk_section option" where
  "with_layer y_level block_state_id biome_id =
     (if y_level < 16 then
        do {
          data \<leftarrow> or_ones [unat y_level * 256..<unat y_level * 256 + 256] (replicate (4096 div 16) 0);
          Some \<lparr>block_count = 256, block_state = Indirect 4 [0, block_state_id] data,
            biome = SingleValue biome_id\<rparr>
        }
      else None)"

definition with_floor :: "i32 \<Rightarrow> i32 \<Rightarrow> chunk_section option" where
  "with_floor block_state_id biome_id = with_layer 0 block_state_id biome_id"

text \<open>
  \<open>(palette.len() as f64).log2().ceil()\<close> is the real \<open>ceillog2\<close>: palettes have at most 4097
  entries, where the rounding of \<open>f64\<close> does not reach the next integer.
\<close>

definition block_palette :: "i32 list \<Rightarrow> i32 list" where
  "block_palette block_array =
     fold (\<lambda>b palette. if b \<noteq> AIR_BLOCK \<and> b \<notin> set palette then palette @ [b] else palette)
       block_array [AIR_BLOCK]"

definition from_block_array :: "i32 list \<Rightarrow> i32 \<Rightarrow> i16 \<Rightarrow> chunk_section option" where
  "from_block_array block_array biome_id count =
     (let palette = block_palette block_array in
      if length palette = 1 \<and> count = 0 then Some empty_section
      else if length palette = 2 \<and> count = 4096 then Some (filled_section (palette ! 1) biome_id)
      else
        (let bits = max (word_of_nat (ceillog2 (length palette))) 4 :: u8 in
         do {
           longs \<leftarrow> packed_len bits 4096;
           data \<leftarrow> pack_from packed_or bits 0
             (map (\<lambda>block. word_of_nat
                (case position (\<lambda>b. b = block) palette of Some i \<Rightarrow> i | None \<Rightarrow> 0)) block_array)
             (replicate longs 0);
           Some \<lparr>block_count = count, block_state = Indirect bits palette data,
             biome = SingleValue biome_id\<rparr>
         }))"

text \<open>The three nested loops of \<open>from_heightmap\<close>.\<close>

definition heightmap_cells :: "(u8 \<Rightarrow> u8 \<Rightarrow> u8) \<Rightarrow> nat list" where
  "heightmap_cells height_fn =
     concat (map (\<lambda>x. concat (map (\<lambda>z.
       map (\<lambda>y. y * 256 + z * 16 + x)
         [0..<unat (min (height_fn (word_of_nat x) (word_of_nat z)) 16)]) [0..<16])) [0..<16])"

definition from_heightmap :: "(u8 \<Rightarrow> u8 \<Rightarrow> u8) \<Rightarrow> i32 \<Rightarrow> i32 \<Rightarrow> chunk_section option" where
  "from_heightmap height_fn block_state_id biome_id =
     (let (block_data, count) =
        fold (\<lambda>idx (block_data, count). (block_data[idx := block_state_id], count + 1))
          (heightmap_cells height_fn) (replicate 4096 0, 0)
      in from_block_array block_data biome_id count)"

section \<open>Single cells\<close>

definition local_index :: "u8 \<Rightarrow> u8 \<Rightarrow> u8 \<Rightarrow> nat option" where
  "local_index x y z =
     (if x < 16 \<and> y < 16 \<and> z < 16 then Some (unat y * 256 + unat z * 16 + unat x) else None)"

definition get_block_state :: "u8 \<Rightarrow> u8 \<Rightarrow> u8 \<Rightarrow> chunk_section \<Rightarrow> i32 option" where
  "get_block_state x y z s = do { idx \<leftarrow> local_index x y z; palette_entry (block_state s) idx }"

function palette_bits_loop :: "nat \<Rightarrow> nat \<Rightarrow> nat" where
  "palette_bits_loop len bits = (if 2 ^ bits < len \<and> bits < 8 then palette_bits_loop len (bits + 1) else bits)"
  by pat_completeness auto
termination by (relation "measure (\<lambda>(_, bits). 8 - bits)") auto

declare palette_bits_loop.simps [simp del]

definition palette_bits_needed :: "nat \<Rightarrow> u8" where
  "palette_bits_needed len = (if len \<le> 16 then 4 else word_of_nat (palette_bits_loop len 5))"

text \<open>\<open>(data[old_long] >> old_off) & old_mask\<close>, which panics past the longs.\<close>

definition packed_read :: "u64 list \<Rightarrow> u8 \<Rightarrow> nat \<Rightarrow> u64 option" where
  "packed_read data bits i =
     (if bits = 0 then None
      else do {
        m \<leftarrow> low_mask bits;
        long \<leftarrow> slice_get data (i div (64 div unat bits));
        Some (drop_bit ((i mod (64 div unat bits)) * unat bits) long AND m)
      })"

text \<open>The loop that repacks all entries at the new width.\<close>

definition repack :: "u64 list \<Rightarrow> u8 \<Rightarrow> u8 \<Rightarrow> u64 list option" where
  "repack data old_bits new_bits =
     do {
       longs \<leftarrow> packed_len new_bits 4096;
       values \<leftarrow> those (map (packed_read data old_bits) [0..<4096]);
       pack_from packed_or new_bits 0 values (replicate longs 0)
     }"

definition place :: "u64 list \<Rightarrow> u8 \<Rightarrow> nat \<Rightarrow> u64 \<Rightarrow> u64 list option" where
  "place data bits idx v =
     do { data' \<leftarrow> packed_clear data bits idx; packed_or data' bits idx v }"

definition palette_set :: "nat \<Rightarrow> i32 \<Rightarrow> palette_data \<Rightarrow> palette_data option" where
  "palette_set idx new_id p =
     (case p of
        SingleValue cur_id \<Rightarrow>
          do {
            longs \<leftarrow> packed_len 4 4096;
            data \<leftarrow> place (replicate longs 0) 4 idx 1;
            Some (Indirect 4 [cur_id, new_id] data)
          }
      | Indirect bits palette data \<Rightarrow>
          (let (palette_idx, palette') =
             (case position (\<lambda>i. i = new_id) palette of
                Some i \<Rightarrow> (i, palette)
              | None \<Rightarrow> (length palette, palette @ [new_id]));
             needed_bits = palette_bits_needed (length palette') in
           if bits < needed_bits then
             do {
               data1 \<leftarrow> repack data bits needed_bits;
               data2 \<leftarrow> place data1 needed_bits idx (word_of_nat palette_idx);
               Some (Indirect needed_bits palette' data2)
             }
           else
             do {
               data2 \<leftarrow> place data bits idx (word_of_nat palette_idx);
               Some (Indirect bits palette' data2)
             })
      | Direct bits data \<Rightarrow>
          do { data' \<leftarrow> packed_set data bits idx (scast new_id); Some (Direct bits data') })"

definition i16_saturating_add1 :: "i16 \<Rightarrow> i16" where
  "i16_saturating_add1 n = (if sint n = 2 ^ 15 - 1 then n else n + 1)"

definition i16_saturating_sub1 :: "i16 \<Rightarrow> i16" where
  "i16_saturating_sub1 n = (if sint n = - (2 ^ 15) then n else n - 1)"

definition set_block_state ::
  "u8 \<Rightarrow> u8 \<Rightarrow> u8 \<Rightarrow> i32 \<Rightarrow> chunk_section \<Rightarrow> (i32 \<times> chunk_section) option" where
  "set_block_state x y z new_id s =
     do {
       idx \<leftarrow> local_index x y z;
       old_id \<leftarrow> get_block_state x y z s;
       if old_id = new_id then Some (old_id, s)
       else
         do {
           p \<leftarrow> palette_set idx new_id (block_state s);
           Some (old_id, s\<lparr>block_state := p, block_count :=
             (if old_id = AIR_BLOCK \<and> new_id \<noteq> AIR_BLOCK then i16_saturating_add1 (block_count s)
              else if old_id \<noteq> AIR_BLOCK \<and> new_id = AIR_BLOCK then i16_saturating_sub1 (block_count s)
              else block_count s)\<rparr>)
         }
     }"

definition get_biome :: "u8 \<Rightarrow> u8 \<Rightarrow> u8 \<Rightarrow> chunk_section \<Rightarrow> i32 option" where
  "get_biome x y z s = do { index \<leftarrow> biome_cell_index x y z; palette_entry (biome s) index }"

definition biome_cells :: "chunk_section \<Rightarrow> i32 list option" where
  "biome_cells s = those (map (palette_entry (biome s)) [0..<BIOME_CELLS_PER_SECTION])"

definition set_biome ::
  "u8 \<Rightarrow> u8 \<Rightarrow> u8 \<Rightarrow> i32 \<Rightarrow> nat \<Rightarrow> chunk_section \<Rightarrow> (i32 \<times> chunk_section) option" where
  "set_biome x y z biome_id registry_size s =
     do {
       index \<leftarrow> biome_cell_index x y z;
       old \<leftarrow> palette_entry (biome s) index;
       if old = biome_id then Some (old, s)
       else
         do {
           cells \<leftarrow> biome_cells s;
           p \<leftarrow> biome_palette (cells[index := biome_id]) registry_size;
           Some (old, s\<lparr>biome := p\<rparr>)
         }
     }"

definition encode_biomes_to_bytes :: "chunk_section \<Rightarrow> u8 list" where
  "encode_biomes_to_bytes s = palette_write (biome s)"

definition encode_section :: "chunk_section \<Rightarrow> u8 list" where
  "encode_section s =
     to_be_bytes 2 (block_count s) @ to_be_bytes 2 (0 :: i16) @ palette_write (block_state s) @
     palette_write (biome s)"

end
