(* ===== verification/Chunk_Cells.thy ===== *)
theory Chunk_Cells
  imports Chunk_Sections
begin

text \<open>
  A paletted container implements an array of cells: \<open>cell\<close> is that array, \<open>palette_ok\<close> the
  invariant of the representation, and the theorems say what each operation of
  \<open>Chunk_Sections\<close> does to the array.
\<close>

section \<open>The abstract array of cells\<close>

definition cell :: "palette_data \<Rightarrow> nat \<Rightarrow> i32" where
  "cell p i =
     (case p of
        SingleValue v \<Rightarrow> v
      | Indirect bits palette data \<Rightarrow> palette ! unat (field data bits i)
      | Direct bits data \<Rightarrow> ucast (field data bits i))"

text \<open>
  A container of \<open>n\<close> cells whose entries all name a palette entry, with a palette no longer than
  its width, or the eight bits \<open>set_block_state\<close> grows it to, can name.
\<close>

definition palette_ok :: "nat \<Rightarrow> palette_data \<Rightarrow> bool" where
  "palette_ok n p \<longleftrightarrow>
     (case p of
        SingleValue _ \<Rightarrow> True
      | Indirect bits palette data \<Rightarrow>
          packed_ok data bits n \<and> (\<forall>i < n. unat (field data bits i) < length palette) \<and>
          length palette \<le> 2 ^ max 8 (unat bits)
      | Direct bits data \<Rightarrow> packed_ok data bits n)"

lemma palette_entry_cell:
  assumes "palette_ok n p" and "i < n"
  shows "palette_entry p i = Some (cell p i)"
  using assms packed_get_field [OF _ assms(2)]
  by (cases p) (auto simp: palette_ok_def palette_entry_def cell_def slice_get_def)

lemma palette_bits_needed:
  shows "16 < n \<Longrightarrow> n \<le> 256 \<Longrightarrow> n \<le> 2 ^ unat (palette_bits_needed n)"
    and "256 < n \<Longrightarrow> palette_bits_needed n = 8"
    and "4 \<le> unat (palette_bits_needed n)" "unat (palette_bits_needed n) \<le> 8"
  by (auto simp: palette_bits_needed_def palette_bits_loop.simps)

lemma write_varint_eq: "write_varint v = varint_bytes v"
proof (induction v rule: write_varint.induct)
  case (1 v)
  have m: "(0x7F :: u32) = mask 7" by (simp add: mask_eq_exp_minus_1)
  have high: "v AND NOT 0x7F = push_bit 7 (drop_bit 7 v)"
    unfolding m by (intro bit_word_eqI) (auto simp: bit_simps)
  have byte: "(ucast ((v AND 0x7F) OR 0x80) :: u8) = ucast (v AND 0x7F) OR 0x80"
    by (intro bit_word_eqI) (simp add: bit_simps unsigned_or_eq)
  show ?case
  proof (cases "drop_bit 7 v = 0")
    case True
    have "v AND 0x7F = v"
      using bytes_ident [of 7 v] True by (simp add: seven_bits)
    then show ?thesis
      using True high by (simp add: write_varint.simps [of v] varint_bytes.simps [of v] Let_def)
  next
    case False
    have "push_bit 7 (drop_bit 7 v) \<noteq> 0"
    proof
      assume "push_bit 7 (drop_bit 7 v) = 0"
      then have "v = take_bit 7 v" using bytes_ident [of 7 v] by simp
      then have "drop_bit 7 v = drop_bit 7 (take_bit 7 v)" by simp
      then show False using False by (simp add: drop_bit_take_bit)
    qed
    then have nz: "v AND NOT 0x7F \<noteq> 0" using high by simp
    have ih: "write_varint (drop_bit 7 v) = varint_bytes (drop_bit 7 v)" by (rule 1 [OF nz])
    show ?thesis
      unfolding write_varint.simps [of v] varint_bytes.simps [of v] Let_def
      using nz False ih byte by (simp only: if_False if_True not_False_eq_True simp_thms)
  qed
qed

lemma packed_len_exists:
  assumes "0 < unat bits" and "unat bits < 64"
  obtains longs where "packed_len bits n = Some longs"
  using assms by (intro that) (simp add: packed_len_def unat_gt_0)

lemma place_field:
  assumes "packed_ok data bits n" and "i < n"
  obtains data' where "place data bits i v = Some data'" and "packed_ok data' bits n"
    and "\<And>j. j < n \<Longrightarrow> field data' bits j = (if j = i then take_bit (unat bits) v else field data bits j)"
  using packed_set_field [OF assms, of v] clear_or_is_set [of data bits i v]
  by (simp add: place_def) blast

lemma those_map_Some: "(\<And>x. x \<in> set xs \<Longrightarrow> f x = Some (g x)) \<Longrightarrow> those (map f xs) = Some (map g xs)"
  by (induction xs) auto

lemma repack_fields:
  assumes ok: "packed_ok data old 4096" and new: "new \<noteq> 0" "unat old \<le> unat new" "unat new < 64"
  obtains data' where "repack data old new = Some data'" and "packed_ok data' new 4096"
    and "\<And>j. j < 4096 \<Longrightarrow> field data' new j = field data old j"
proof -
  note d = packed_okD [OF ok]
  have read: "packed_read data old i = Some (field data old i)" if "i < 4096" for i
    using d that by (simp add: packed_read_def field_def slice_get_def Let_def take_bit_eq_mask)
  have vals: "those (map (packed_read data old) [0..<4096]) = Some (map (field data old) [0..<4096])"
    by (rule those_map_Some) (simp add: read)
  obtain longs where longs: "packed_len new 4096 = Some longs" using new by (simp add: packed_len_def)
  let ?zero = "replicate longs 0 :: u64 list"
  have zero: "packed_ok ?zero new 4096" by (rule packed_ok_zero [OF longs new(3)])
  obtain data' where data': "pack_from packed_set new 0 (map (field data old) [0..<4096]) ?zero = Some data'"
      "packed_ok data' new 4096"
      "\<And>j. j < 4096 \<Longrightarrow> field data' new j = (if 0 \<le> j \<and> j < 0 + length (map (field data old) [0..<4096])
        then take_bit (unat new) (map (field data old) [0..<4096] ! (j - 0)) else field ?zero new j)"
    using pack_from_set [OF zero, of 0 "map (field data old) [0..<4096]"] by (metis add_0 diff_zero length_map length_upt order_refl)
  have "pack_from packed_or new 0 (map (field data old) [0..<4096]) ?zero = Some data'"
    using pack_or_is_set [OF zero, of 0 "map (field data old) [0..<4096]"] field_zero [OF zero] data'(1) by simp
  then have "repack data old new = Some data'" by (simp add: repack_def longs vals)
  moreover have "field data' new j = field data old j" if "j < 4096" for j
  proof -
    have "take_bit (unat new) (field data old j) = field data old j"
      using new(2) by (simp add: field_def min_absorb1)
    then show ?thesis using data'(3) [OF that] that by simp
  qed
  ultimately show thesis using that data'(2) by blast
qed

text \<open>There is room for an id: the palette has it, or has a free entry at the widest width.\<close>

definition has_room :: "i32 \<Rightarrow> palette_data \<Rightarrow> bool" where
  "has_room new_id p \<longleftrightarrow>
     (case p of
        SingleValue _ \<Rightarrow> True
      | Indirect bits palette _ \<Rightarrow>
          new_id \<in> set palette \<or> length palette < 2 ^ max 8 (unat bits)
      | Direct bits _ \<Rightarrow> 0 \<le> sint new_id \<and> sint new_id < 2 ^ unat bits)"

lemma take_bit_index: "k < 2 ^ b \<Longrightarrow> k < 2 ^ 64 \<Longrightarrow> unat (take_bit b (word_of_nat k :: u64)) = k"
  by (simp add: unsigned_take_bit_eq unsigned_of_nat take_bit_nat_eq_self)

lemma global_id_kept:
  assumes "0 \<le> sint (v :: i32)" and "sint v < 2 ^ b"
  shows "ucast (take_bit b (scast v :: u64)) = v"
proof -
  have lt: "sint v < 2 ^ 31" using sint_lt [of v] by simp
  have small: "uint (word_of_int x :: u64) = x" if "0 \<le> x" "x < 2 ^ 31" for x
    using that by (simp add: uint_word_of_int_eq take_bit_int_eq_self)
  have "uint (scast v :: u64) = sint v"
    unfolding scast_eq by (rule small [OF assms(1) lt])
  moreover have "take_bit b (sint v) = sint v" using assms by (intro take_bit_int_eq_self)
  ultimately have "uint (take_bit b (scast v :: u64)) = sint v"
    by (simp only: unsigned_take_bit_eq)
  then have "(ucast (take_bit b (scast v :: u64)) :: i32) = word_of_int (sint v)"
    by (simp only: ucast_eq)
  then show ?thesis by simp
qed

lemma unat_max: "unat (max a b) = max (unat a) (unat (b :: u8))"
  by (simp add: max_def word_le_nat_alt)

lemma needed_width_fits:
  assumes "n \<le> 2 ^ max 8 (unat bits)"
  shows "n \<le> 2 ^ unat (max bits (palette_bits_needed n))"
proof -
  let ?w = "unat (max bits (palette_bits_needed n))"
  consider "n \<le> 16" | "16 < n" "n \<le> 256" | "256 < n" by linarith
  then show ?thesis
  proof cases
    case 1
    have "(2::nat) ^ 4 \<le> 2 ^ ?w"
      using palette_bits_needed(3) [of n] by (intro power_increasing) (simp_all add: unat_max)
    then show ?thesis using 1 by simp
  next
    case 2
    have "(2::nat) ^ unat (palette_bits_needed n) \<le> 2 ^ ?w"
      by (intro power_increasing) (simp_all add: unat_max)
    then show ?thesis using palette_bits_needed(1) [OF 2] by linarith
  next
    case 3
    then show ?thesis using assms by (simp add: palette_bits_needed(2) unat_max max.commute)
  qed
qed

lemma palette_set_index:
  assumes ok: "packed_ok data bits 4096" "\<forall>j < 4096. unat (field data bits j) < length palette"
    and i: "i < 4096" and k: "k < length palette" "k < 2 ^ unat bits"
    and len: "length palette \<le> 2 ^ max 8 (unat bits)"
  obtains data' where "place data bits i (word_of_nat k) = Some data'"
    and "palette_ok 4096 (Indirect bits palette data')"
    and "\<And>j. j < 4096 \<Longrightarrow> cell (Indirect bits palette data') j = (if j = i then palette ! k else cell (Indirect bits palette data) j)"
proof -
  obtain data' where d: "place data bits i (word_of_nat k) = Some data'" "packed_ok data' bits 4096"
    "\<And>j. j < 4096 \<Longrightarrow> field data' bits j = (if j = i then take_bit (unat bits) (word_of_nat k) else field data bits j)"
    using place_field [OF ok(1) i] by metis
  have "(2::nat) ^ unat bits < 2 ^ 64" using power_strict_increasing [OF packed_okD(2) [OF ok(1)], of "2::nat"] by simp
  then have "unat (take_bit (unat bits) (word_of_nat k :: u64)) = k"
    using k(2) by (intro take_bit_index) linarith+
  then show thesis using d ok(2) k(1) len by (intro that [OF d(1)]) (auto simp: palette_ok_def cell_def)
qed

lemma palette_set_cell:
  assumes ok: "palette_ok 4096 p" and i: "i < 4096" and room: "has_room new_id p"
  obtains p' where "palette_set i new_id p = Some p'" and "palette_ok 4096 p'"
    and "\<And>j. j < 4096 \<Longrightarrow> cell p' j = (if j = i then new_id else cell p j)"
proof (cases p)
  case (SingleValue v)
  have len: "packed_len 4 4096 = Some 256" by (simp add: packed_len_def div_ceil_def)
  then have zero: "packed_ok (replicate 256 0) 4 4096" by (rule packed_ok_zero) simp
  obtain data' where "place (replicate 256 0) 4 i (word_of_nat 1) = Some data'"
    and "palette_ok 4096 (Indirect 4 [v, new_id] data')"
    and "\<And>j. j < 4096 \<Longrightarrow> cell (Indirect 4 [v, new_id] data') j =
      (if j = i then [v, new_id] ! 1 else cell (Indirect 4 [v, new_id] (replicate 256 0)) j)"
    using palette_set_index [OF zero _ i, of "[v, new_id]" 1] field_zero [OF zero] by auto
  moreover have "cell (Indirect 4 [v, new_id] (replicate 256 0)) j = v" if "j < 4096" for j
    using field_zero [OF zero that] by (simp add: cell_def)
  ultimately show thesis using SingleValue len by (intro that) (auto simp: palette_set_def cell_def)
next
  case (Direct bits data)
  then have pk: "packed_ok data bits 4096" using ok by (simp add: palette_ok_def)
  obtain data' where d: "packed_set data bits i (scast new_id) = Some data'" "packed_ok data' bits 4096"
    "\<And>j. j < 4096 \<Longrightarrow> field data' bits j = (if j = i then take_bit (unat bits) (scast new_id) else field data bits j)"
    using packed_set_field [OF pk i] by metis
  have "ucast (take_bit (unat bits) (scast new_id :: u64)) = new_id"
    using room Direct by (intro global_id_kept) (simp_all add: has_room_def)
  with d Direct show thesis by (intro that [of "Direct bits data'"]) (auto simp: palette_set_def palette_ok_def cell_def)
next
  case (Indirect bits palette data)
  then have pk: "packed_ok data bits 4096" and idx: "\<forall>j < 4096. unat (field data bits j) < length palette"
    and bound: "length palette \<le> 2 ^ max 8 (unat bits)"
    using ok by (simp_all add: palette_ok_def)
  obtain k palette' where split: "(case position (\<lambda>i. i = new_id) palette of
        Some i \<Rightarrow> (i, palette) | None \<Rightarrow> (length palette, palette @ [new_id])) = (k, palette')"
    by fastforce
  have k: "k < length palette'" "palette' ! k = new_id" and prefix: "\<And>j. j < length palette \<Longrightarrow> palette' ! j = palette ! j"
    and grown: "length palette \<le> length palette'" and bound': "length palette' \<le> 2 ^ max 8 (unat bits)"
    using split room bound Indirect
    by (auto simp: has_room_def nth_append position_None split: option.splits dest!: position_Some)
  let ?need = "palette_bits_needed (length palette')" and ?w = "max bits (palette_bits_needed (length palette'))"
  have fits: "length palette' \<le> 2 ^ unat ?w" by (rule needed_width_fits [OF bound'])
  show thesis
  proof (cases "bits < ?need")
    case True
    then have "?w = ?need" by (intro max_absorb2) simp
    with fits have fits': "length palette' \<le> 2 ^ unat ?need" by simp
    from True have wd: "unat bits \<le> unat ?need" "unat ?need < 64" "?need \<noteq> 0"
      using palette_bits_needed(3,4) [of "length palette'"] by (auto simp: word_less_nat_alt)
    obtain data1 where d1: "repack data bits ?need = Some data1" "packed_ok data1 ?need 4096"
      "\<And>j. j < 4096 \<Longrightarrow> field data1 ?need j = field data bits j"
      using repack_fields [OF pk wd(3,1,2)] by metis
    obtain data2 where d2: "place data1 ?need i (word_of_nat k) = Some data2"
      "palette_ok 4096 (Indirect ?need palette' data2)"
      "\<And>j. j < 4096 \<Longrightarrow> cell (Indirect ?need palette' data2) j =
         (if j = i then palette' ! k else cell (Indirect ?need palette' data1) j)"
    proof (rule palette_set_index [OF d1(2) _ i k(1)])
      show "\<forall>j < 4096. unat (field data1 ?need j) < length palette'" using d1(3) idx grown by fastforce
      show "k < 2 ^ unat ?need" using k(1) fits' by simp
      show "length palette' \<le> 2 ^ max 8 (unat ?need)"
        by (rule le_trans [OF fits']) (intro power_increasing, simp_all)
    qed metis
    have "cell (Indirect ?need palette' data1) j = cell p j" if "j < 4096" for j
      using that d1(3) idx prefix Indirect by (simp add: cell_def)
    with d1(1) d2 True split k(2) Indirect show thesis
      by (intro that [of "Indirect ?need palette' data2"]) (auto simp: palette_set_def Let_def)
  next
    case False
    then have "?w = bits" by (intro max_absorb1) simp
    with fits have fits': "length palette' \<le> 2 ^ unat bits" by simp
    obtain data2 where d2: "place data bits i (word_of_nat k) = Some data2"
      "palette_ok 4096 (Indirect bits palette' data2)"
      "\<And>j. j < 4096 \<Longrightarrow> cell (Indirect bits palette' data2) j =
         (if j = i then palette' ! k else cell (Indirect bits palette' data) j)"
    proof (rule palette_set_index [OF pk _ i k(1)])
      show "\<forall>j < 4096. unat (field data bits j) < length palette'" using idx grown by fastforce
      show "k < 2 ^ unat bits" using k(1) fits' by simp
      show "length palette' \<le> 2 ^ max 8 (unat bits)" by (rule bound')
    qed metis
    have "cell (Indirect bits palette' data) j = cell p j" if "j < 4096" for j
      using that idx prefix Indirect by (simp add: cell_def)
    with d2 False split k(2) Indirect show thesis
      by (intro that [of "Indirect bits palette' data2"]) (auto simp: palette_set_def Let_def)
  qed
qed

section \<open>Block states\<close>

lemma u8_lt_unat: "(x :: u8) < 16 \<longleftrightarrow> unat x < 16"
  by (simp add: word_less_nat_alt)

lemma local_index_Some:
  "local_index x y z = Some i \<longleftrightarrow>
     unat x < 16 \<and> unat y < 16 \<and> unat z < 16 \<and> i = unat y * 256 + unat z * 16 + unat x"
  by (auto simp: local_index_def u8_lt_unat)

lemma local_index_less: "local_index x y z = Some i \<Longrightarrow> i < 4096"
  by (auto simp: local_index_Some)

lemma digit_unique: "k * m + a = k' * m + a' \<Longrightarrow> a < m \<Longrightarrow> a' < m \<Longrightarrow> k = k' \<and> a = (a' :: nat)"
  by (metis add.commute add_left_cancel div_less div_mult_self3 not_less_zero plus_nat.add_0)

lemma local_index_inj:
  assumes "local_index x y z = Some i" and "local_index x' y' z' = Some i"
  shows "x' = x \<and> y' = y \<and> z' = z"
proof -
  have digits: "a = a' \<and> b = b' \<and> c = c'"
    if "a < 16" "c < 16" "a' < 16" "c' < 16" "b * 256 + c * 16 + a = b' * 256 + c' * 16 + a'" for a b c a' b' c' :: nat
  proof -
    have "(b * 16 + c) * 16 + a = (b' * 16 + c') * 16 + a'" using that(5) by simp
    from digit_unique [OF this that(1,3)] have "b * 16 + c = b' * 16 + c'" "a = a'" by auto
    with digit_unique [OF this(1) that(2,4)] show ?thesis by simp
  qed
  have "unat x' = unat x \<and> unat y' = unat y \<and> unat z' = unat z"
    using assms unfolding local_index_Some by (intro digits) auto
  then show ?thesis by (simp only: word_unat_eq_iff)
qed

text \<open>How many of the 4096 cells are not air.\<close>

definition solid :: "palette_data \<Rightarrow> nat" where
  "solid p = card {j. j < 4096 \<and> cell p j \<noteq> AIR_BLOCK}"

lemma solid_le: "solid p \<le> 4096"
proof -
  have "card {j. j < 4096 \<and> cell p j \<noteq> AIR_BLOCK} \<le> card {..<4096::nat}" by (intro card_mono) auto
  then show ?thesis by (simp add: solid_def)
qed

lemma solid_update:
  assumes "i < 4096" and upd: "\<And>j. j < 4096 \<Longrightarrow> cell p' j = (if j = i then v else cell p j)"
  shows "solid p' + (if cell p i = AIR_BLOCK then 0 else 1) = solid p + (if v = AIR_BLOCK then 0 else 1)"
proof -
  let ?S = "{j. j < 4096 \<and> j \<noteq> i \<and> cell p j \<noteq> AIR_BLOCK}"
  have fin: "finite ?S" by simp
  have "{j. j < 4096 \<and> cell p j \<noteq> AIR_BLOCK} = (if cell p i = AIR_BLOCK then ?S else insert i ?S)"
    and "{j. j < 4096 \<and> cell p' j \<noteq> AIR_BLOCK} = (if v = AIR_BLOCK then ?S else insert i ?S)"
    using assms by (auto split: if_splits)
  then show ?thesis using fin by (simp add: solid_def)
qed

lemma sint_small16: "n \<le> 4096 \<Longrightarrow> sint (word_of_nat n :: i16) = int n"
proof -
  assume "n \<le> 4096"
  then have "sint (word_of_int (int n) :: i16) = int n"
    by (intro signed_take_bit_int_eq_self [THEN trans [OF sint_sbintrunc']]) auto
  then show ?thesis by simp
qed

lemma set_block_state_cells:
  assumes ok: "palette_ok 4096 (block_state s)" and room: "has_room new_id (block_state s)"
    and i: "local_index x y z = Some i" and count: "block_count s = word_of_nat (solid (block_state s))"
  obtains s' where "set_block_state x y z new_id s = Some (cell (block_state s) i, s')"
    and "palette_ok 4096 (block_state s')" "biome s' = biome s"
    and "\<And>j. j < 4096 \<Longrightarrow> cell (block_state s') j = (if j = i then new_id else cell (block_state s) j)"
    and "block_count s' = word_of_nat (solid (block_state s'))"
proof (cases "cell (block_state s) i = new_id")
  case True
  then show thesis
    using assms palette_entry_cell [OF ok local_index_less [OF i]]
    by (intro that [of s]) (auto simp: set_block_state_def get_block_state_def)
next
  case False
  let ?old = "cell (block_state s) i"
  note lt = local_index_less [OF i]
  from palette_set_cell [OF ok lt room] obtain p
    where p: "palette_set i new_id (block_state s) = Some p" "palette_ok 4096 p"
      "\<And>j. j < 4096 \<Longrightarrow> cell p j = (if j = i then new_id else cell (block_state s) j)" by metis
  let ?count = "if ?old = AIR_BLOCK \<and> new_id \<noteq> AIR_BLOCK then i16_saturating_add1 (block_count s)
    else if ?old \<noteq> AIR_BLOCK \<and> new_id = AIR_BLOCK then i16_saturating_sub1 (block_count s) else block_count s"
  have upd: "solid p + (if ?old = AIR_BLOCK then 0 else 1) = solid (block_state s) + (if new_id = AIR_BLOCK then 0 else 1)"
    by (rule solid_update [OF lt p(3)])
  have sat: "sint (block_count s) = int (solid (block_state s))"
    unfolding count by (rule sint_small16 [OF solid_le])
  have "?count = word_of_nat (solid p)"
  proof -
    have "word_of_nat (solid p) = (word_of_nat (solid (block_state s)) :: i16) + 1" if "solid p = Suc (solid (block_state s))"
      using that by simp
    moreover have "word_of_nat (solid p) = (word_of_nat (solid (block_state s)) :: i16) - 1" if "Suc (solid p) = solid (block_state s)"
      using that [symmetric] by simp
    moreover have "int (solid (block_state s)) \<noteq> 32767" using solid_le [of "block_state s"] by simp
    ultimately show ?thesis
      using upd sat by (auto simp: i16_saturating_add1_def i16_saturating_sub1_def count split: if_splits)
  qed
  then show thesis
    using False p i palette_entry_cell [OF ok lt]
    by (intro that [of "s\<lparr>block_state := p, block_count := ?count\<rparr>"])
      (auto simp: set_block_state_def get_block_state_def)
qed

lemma set_block_state_get:
  assumes "palette_ok 4096 (block_state s)" and "has_room new_id (block_state s)"
    and "local_index x y z = Some i" and "block_count s = word_of_nat (solid (block_state s))"
  shows "\<exists>old s'. set_block_state x y z new_id s = Some (old, s') \<and> get_block_state x y z s = Some old \<and>
    (\<forall>x' y' z'. get_block_state x' y' z' s' =
      (if x' = x \<and> y' = y \<and> z' = z then Some new_id else get_block_state x' y' z' s)) \<and>
    palette_ok 4096 (block_state s') \<and> block_count s' = word_of_nat (solid (block_state s'))"
proof -
  from set_block_state_cells [OF assms] obtain s'
    where s': "set_block_state x y z new_id s = Some (cell (block_state s) i, s')"
      "palette_ok 4096 (block_state s')" "block_count s' = word_of_nat (solid (block_state s'))"
      and cells: "\<And>j. j < 4096 \<Longrightarrow> cell (block_state s') j = (if j = i then new_id else cell (block_state s) j)"
    by metis
  have get: "get_block_state x' y' z' t = map_option (cell (block_state t)) (local_index x' y' z')"
    if "palette_ok 4096 (block_state t)" for t x' y' z'
    using palette_entry_cell [OF that local_index_less]
    by (cases "local_index x' y' z'") (simp_all add: get_block_state_def)
  have "get_block_state x' y' z' s' =
      (if x' = x \<and> y' = y \<and> z' = z then Some new_id else get_block_state x' y' z' s)" for x' y' z'
    using cells local_index_less [of x' y' z'] local_index_inj [OF assms(3), of x' y' z'] assms(3)
    by (cases "local_index x' y' z'") (auto simp: get [OF s'(2)] get [OF assms(1)])
  moreover have "get_block_state x y z s = Some (cell (block_state s) i)"
    using assms(3) by (simp add: get [OF assms(1)])
  ultimately show ?thesis using s' by blast
qed

text \<open>C26: as long as the palette has room for the new id (it has the id, or fewer than 256 ids), writing
  a block state is an update of a plain array: the cell reads the new id, every other cell what it read
  before, the old id is returned, and the count of blocks that are not air stays exact, through every
  promotion and every repacking at a wider width.\<close>

theorem set_block_state_updates:
  assumes "palette_ok 4096 (block_state s)" and "has_room new_id (block_state s)"
    and "local_index x y z = Some i" and "block_count s = word_of_nat (solid (block_state s))"
  shows "\<exists>old s'. set_block_state x y z new_id s = Some (old, s') \<and> get_block_state x y z s = Some old \<and>
    (\<forall>x' y' z'. get_block_state x' y' z' s' =
      (if x' = x \<and> y' = y \<and> z' = z then Some new_id else get_block_state x' y' z' s)) \<and>
    palette_ok 4096 (block_state s') \<and> block_count s' = word_of_nat (solid (block_state s'))"
  by (rule set_block_state_get [OF assms])

lemma solid_filled: "v \<noteq> AIR_BLOCK \<Longrightarrow> solid (SingleValue v) = 4096"
  by (simp add: solid_def cell_def)

lemma set_block_state_updates_witness:
  "get_block_state 3 4 5 (snd (the (set_block_state 3 4 5 7 (filled_section 1 0)))) = Some 7 \<and>
   get_block_state 3 4 6 (snd (the (set_block_state 3 4 5 7 (filled_section 1 0)))) = Some 1"
proof -
  have "block_count (filled_section 1 0) = word_of_nat (solid (block_state (filled_section 1 0)))"
    by (simp add: filled_section_def solid_filled)
  moreover have "get_block_state 3 4 6 (filled_section 1 0) = Some 1"
    by (simp add: get_block_state_def local_index_def filled_section_def palette_entry_def)
  ultimately show ?thesis
    using set_block_state_updates [of "filled_section 1 0" 7 3 4 5 "4 * 256 + 5 * 16 + 3"]
    by (fastforce simp: filled_section_def palette_ok_def has_room_def local_index_def)
qed

text \<open>C40: the palette is indexed with at most eight bits (more only if the section was built with
  more): when it is full at that width, one more id is pushed on the palette but its index is masked,
  and the cell just written reads the first id of the palette instead of the new one.\<close>

theorem full_palette_loses_block:
  assumes "palette_ok 4096 (block_state s)" and "block_state s = Indirect bits palette data"
    and "length palette = 2 ^ unat bits" and "8 \<le> bits" and "new_id \<notin> set palette"
    and "local_index x y z = Some i"
  shows "\<exists>old s'. set_block_state x y z new_id s = Some (old, s') \<and>
    get_block_state x y z s' = Some (palette ! 0) \<and> palette ! 0 \<noteq> new_id"
proof -
  note i = local_index_less [OF assms(6)]
  have pk: "packed_ok data bits 4096" and idx: "\<forall>j < 4096. unat (field data bits j) < length palette"
    using assms(1,2) by (simp_all add: palette_ok_def)
  have b8: "8 \<le> unat bits" using assms(4) by (simp add: word_le_nat_alt)
  have old: "get_block_state x y z s = Some (cell (block_state s) i)"
    using palette_entry_cell [OF assms(1) i] assms(6) by (simp add: get_block_state_def)
  have "cell (block_state s) i \<in> set palette" using assms(2) idx i by (simp add: cell_def)
  then have differs: "cell (block_state s) i \<noteq> new_id" using assms(5) by blast
  have pos: "position (\<lambda>i. i = new_id) palette = None" using assms(5) by (auto simp: position_None)
  have large: "256 \<le> length palette" using power_increasing [OF b8, of "2 :: nat"] assms(3) by simp
  then have "\<not> bits < palette_bits_needed (Suc (length palette))"
    using assms(4) by (simp add: palette_bits_needed(2))
  obtain data' where d: "place data bits i (word_of_nat (length palette)) = Some data'" "packed_ok data' bits 4096"
    "\<And>j. j < 4096 \<Longrightarrow> field data' bits j =
      (if j = i then take_bit (unat bits) (word_of_nat (length palette)) else field data bits j)"
    using place_field [OF pk i] by metis
  have "take_bit (unat bits) (word_of_nat (2 ^ unat bits) :: u64) = 0"
    by (intro bit_word_eqI) (auto simp: bit_simps)
  then have "field data' bits i = 0" using d(3) [OF i] assms(3) by simp
  then have "palette_entry (Indirect bits (palette @ [new_id]) data') i = Some (palette ! 0)"
    using packed_get_field [OF d(2) i] large
    by (cases palette) (auto simp: palette_entry_def slice_get_def)
  moreover have "palette ! 0 \<in> set palette" using large by (intro nth_mem) linarith
  ultimately show ?thesis
    using assms(2,5,6) old differs pos d(1) \<open>\<not> bits < palette_bits_needed (Suc (length palette))\<close>
    by (auto simp: set_block_state_def palette_set_def get_block_state_def)
qed

lemma unat_numeral_257: "unat (257 :: i32) = 257"
  by simp

lemma full_palette_loses_block_witness:
  "let s = \<lparr>block_count = 4096, block_state = Indirect 8 (map word_of_nat [1..<257]) (replicate 512 0),
        biome = SingleValue 0\<rparr>
   in get_block_state 3 4 5 (snd (the (set_block_state 3 4 5 257 s))) = Some 1"
proof -
  let ?p = "map word_of_nat [1..<257] :: i32 list"
  let ?s = "\<lparr>block_count = 4096, block_state = Indirect 8 ?p (replicate 512 0), biome = SingleValue 0\<rparr>"
  have pk: "packed_ok (replicate 512 0) 8 4096" by (simp add: packed_ok_def div_ceil_def)
  have "palette_ok 4096 (block_state ?s)" using field_zero [OF pk] pk by (simp add: palette_ok_def)
  moreover have "257 \<notin> set ?p"
  proof
    assume "257 \<in> set ?p"
    then obtain n where n: "n < 257" "257 = (word_of_nat n :: i32)" by auto
    from n(1) have "unat (word_of_nat n :: i32) = n" by (simp add: unsigned_of_nat take_bit_nat_eq_self)
    with n show False by (metis less_irrefl unat_numeral_257)
  qed
  ultimately show ?thesis
    using full_palette_loses_block [of ?s 8 ?p "replicate 512 0" 257 3 4 5 "4 * 256 + 5 * 16 + 3"]
    by (auto simp: local_index_def)
qed

section \<open>Building a section from blocks\<close>

lemma collect_distinct:
  fixes step :: "i32 \<Rightarrow> i32 list \<Rightarrow> i32 list"
  assumes step: "\<And>x pal. step x pal = (if Q x \<and> x \<notin> set pal then pal @ [x] else pal)"
    and "distinct pal"
  shows "distinct (fold step xs pal) \<and> set (fold step xs pal) = set pal \<union> {x \<in> set xs. Q x} \<and>
    (\<exists>tail. fold step xs pal = pal @ tail \<and> length tail \<le> length xs)"
  using assms(2)
proof (induction xs arbitrary: pal)
  case Nil
  then show ?case by simp
next
  case (Cons x xs)
  let ?pal = "step x pal"
  have "distinct ?pal" and one: "\<exists>t. ?pal = pal @ t \<and> length t \<le> 1"
    and set1: "set ?pal = set pal \<union> {y. y = x \<and> Q x}"
    using Cons.prems by (auto simp: step)
  note ih = Cons.IH [OF this(1)]
  obtain t tail where "?pal = pal @ t" "length t \<le> 1" "fold step xs ?pal = ?pal @ tail" "length tail \<le> length xs"
    using ih one by blast
  then have "fold step (x # xs) pal = pal @ (t @ tail)" "length (t @ tail) \<le> length (x # xs)" by auto
  then show ?case using ih set1 by (intro conjI exI) auto
qed

lemma block_palette_facts:
  shows "distinct (block_palette arr)" and "set (block_palette arr) = insert AIR_BLOCK (set arr)"
    and "block_palette arr ! 0 = AIR_BLOCK" "1 \<le> length (block_palette arr)" "length (block_palette arr) \<le> Suc (length arr)"
proof -
  let ?step = "\<lambda>b palette. if b \<noteq> AIR_BLOCK \<and> b \<notin> set palette then palette @ [b] else palette"
  have step: "?step x pal = (if x \<noteq> AIR_BLOCK \<and> x \<notin> set pal then pal @ [x] else pal)" for x pal by simp
  note c = collect_distinct [where step = ?step and Q = "\<lambda>x. x \<noteq> AIR_BLOCK", OF step, of "[AIR_BLOCK]" arr]
  show "distinct (block_palette arr)" using c by (simp add: block_palette_def)
  show "set (block_palette arr) = insert AIR_BLOCK (set arr)" using c by (auto simp: block_palette_def)
  obtain tail where "block_palette arr = [AIR_BLOCK] @ tail" "length tail \<le> length arr"
    using c by (auto simp: block_palette_def)
  then show "block_palette arr ! 0 = AIR_BLOCK" "1 \<le> length (block_palette arr)"
    "length (block_palette arr) \<le> Suc (length arr)" by simp_all
qed

lemma distinct_values_facts:
  shows "distinct (distinct_values cells)" and "set (distinct_values cells) = set cells"
    and "length (distinct_values cells) \<le> length cells"
proof -
  let ?step = "\<lambda>i palette. if i \<in> set palette then palette else palette @ [i]"
  have "?step x pal = (if True \<and> x \<notin> set pal then pal @ [x] else pal)" for x and pal :: "i32 list" by simp
  from collect_distinct [where step = ?step, OF this, of "[]" cells]
  show "distinct (distinct_values cells)" "set (distinct_values cells) = set cells"
    "length (distinct_values cells) \<le> length cells"
    by (auto simp: distinct_values_def)
qed

lemma position_eq:
  assumes "x \<in> set xs"
  obtains k where "position (\<lambda>y. y = x) xs = Some k" and "k < length xs" and "xs ! k = x"
  using position_Ex [OF assms, of "\<lambda>y. y = x"] position_Some [of "\<lambda>y. y = x" xs] by auto

text \<open>Packing the palette indices of some values gives those values back.\<close>

lemma pack_indices:
  assumes bits: "0 < unat bits" "unat bits < 64" and fits: "length palette \<le> 2 ^ unat bits"
    and cap: "length palette \<le> 2 ^ max 8 (unat bits)"
    and ks: "length ks = n" "\<And>i. i < n \<Longrightarrow> ks ! i < length palette"
    and longs: "packed_len bits n = Some longs"
  obtains data where "pack_from packed_set bits 0 (map word_of_nat ks) (replicate longs 0) = Some data"
    and "pack_from packed_or bits 0 (map word_of_nat ks) (replicate longs 0) = Some data"
    and "palette_ok n (Indirect bits palette data)"
    and "\<And>i. i < n \<Longrightarrow> cell (Indirect bits palette data) i = palette ! (ks ! i)"
proof -
  have zero: "packed_ok (replicate longs 0) bits n" by (rule packed_ok_zero [OF longs bits(2)])
  have len: "0 + length (map word_of_nat ks :: u64 list) \<le> n" using ks(1) by simp
  obtain data where d: "pack_from packed_set bits 0 (map word_of_nat ks) (replicate longs 0) = Some data"
      "packed_ok data bits n"
      "\<And>j. j < n \<Longrightarrow> field data bits j = (if 0 \<le> j \<and> j < 0 + length (map word_of_nat ks :: u64 list)
        then take_bit (unat bits) ((map word_of_nat ks) ! (j - 0)) else field (replicate longs 0) bits j)"
    using pack_from_set [OF zero len] by metis
  have "unat (field data bits i) = ks ! i" if "i < n" for i
  proof -
    have "(2::nat) ^ unat bits < 2 ^ 64" using power_strict_increasing [OF bits(2), of "2::nat"] by simp
    then have "unat (take_bit (unat bits) (word_of_nat (ks ! i) :: u64)) = ks ! i"
      using ks(2) [OF that] fits by (intro take_bit_index) linarith+
    then show ?thesis using d(3) [OF that] that ks(1) by simp
  qed
  moreover have "pack_from packed_or bits 0 (map word_of_nat ks) (replicate longs 0) = Some data"
    using pack_or_is_set [OF zero len] field_zero [OF zero] d(1) by simp
  ultimately show thesis
    using d ks(2) cap by (intro that [of data]) (auto simp: palette_ok_def cell_def)
qed

text \<open>C31: a section built from an array of blocks holds exactly those blocks, in the shortest of the
  three forms the code uses, with the right count of blocks that are not air. An array of nothing
  but air becomes the empty section, and the biome asked for is dropped.\<close>

theorem from_block_array_cells:
  assumes len: "length arr = 4096"
    and count: "count = word_of_nat (card {j. j < 4096 \<and> arr ! j \<noteq> AIR_BLOCK})"
  shows "\<exists>s. from_block_array arr biome_id count = Some s \<and> palette_ok 4096 (block_state s) \<and>
    (\<forall>j < 4096. palette_entry (block_state s) j = Some (arr ! j)) \<and>
    block_count s = word_of_nat (solid (block_state s)) \<and>
    biome s = (if set arr = {AIR_BLOCK} then SingleValue 0 else SingleValue biome_id)"
proof -
  let ?pal = "block_palette arr" and ?S = "{j. j < 4096 \<and> arr ! j \<noteq> AIR_BLOCK}"
  note pal = block_palette_facts [of arr]
  have finish: ?thesis
    if "from_block_array arr biome_id count = Some s" "palette_ok 4096 (block_state s)"
      "\<And>j. j < 4096 \<Longrightarrow> cell (block_state s) j = arr ! j" "block_count s = count"
      "biome s = (if set arr = {AIR_BLOCK} then SingleValue 0 else SingleValue biome_id)" for s
  proof -
    have "{j. j < 4096 \<and> cell (block_state s) j \<noteq> AIR_BLOCK} = ?S" using that(3) by auto
    then have "solid (block_state s) = card ?S" by (simp add: solid_def)
    then show ?thesis using that palette_entry_cell [OF that(2)] count by auto
  qed
  have card_le: "card ?S \<le> 4096"
  proof -
    have "card ?S \<le> card {..<4096::nat}" by (intro card_mono) auto
    then show ?thesis by simp
  qed
  have nonempty: "arr ! 0 \<in> set arr" using len by (intro nth_mem) simp
  show ?thesis
  proof (cases "length ?pal = 1 \<and> count = 0")
    case True
    then obtain a where "?pal = [a]" by (metis One_nat_def length_0_conv length_Suc_conv)
    with pal(3) pal(2) nonempty have all: "set arr = {AIR_BLOCK}" by auto
    then have "arr ! j = AIR_BLOCK" if "j < 4096" for j using that len nth_mem [of j arr] by auto
    with True all show ?thesis
      by (intro finish [of empty_section]) (auto simp: from_block_array_def empty_section_def palette_ok_def cell_def)
  next
    case not_air: False
    show ?thesis
    proof (cases "length ?pal = 2 \<and> count = 4096")
      case True
      have "int (card ?S) = 4096"
        using True sint_small16 [OF card_le] count by simp
      then have "card ?S = card {..<4096::nat}" by simp
      moreover have "?S \<subseteq> {..<4096}" by auto
      ultimately have full: "?S = {..<4096}" by (intro card_subset_eq) auto
      have two: "set ?pal = {?pal ! 0, ?pal ! 1}"
        using True by (auto simp: set_conv_nth less_2_cases_iff)
      have solid_all: "arr ! j = ?pal ! 1 \<and> arr ! j \<noteq> AIR_BLOCK" if "j < 4096" for j
      proof -
        have "arr ! j \<noteq> AIR_BLOCK" using full that by blast
        moreover have "arr ! j \<in> set ?pal" using that len pal(2) by simp
        ultimately show ?thesis using two pal(3) by auto
      qed
      have "arr ! 0 \<noteq> AIR_BLOCK" using solid_all by (rule conjunct2) simp
      then have "set arr \<noteq> {AIR_BLOCK}" using nonempty by (metis singletonD)
      moreover have "from_block_array arr biome_id count = Some (filled_section (?pal ! 1) biome_id)"
        using True not_air by (simp add: from_block_array_def)
      moreover have same: "arr ! j = ?pal ! 1" if "j < 4096" for j using solid_all [OF that] by (rule conjunct1)
      moreover have "?pal ! 1 \<noteq> 0" using same [of 0] \<open>arr ! 0 \<noteq> AIR_BLOCK\<close> by simp
      ultimately show ?thesis
        using True by (intro finish [of "filled_section (?pal ! 1) biome_id"])
          (simp_all add: filled_section_def palette_ok_def cell_def)
    next
      case False
      let ?bits = "max (word_of_nat (ceillog2 (length ?pal))) 4 :: u8"
      have "length ?pal \<le> 2 ^ 13" using pal(5) len by simp
      then have cl: "ceillog2 (length ?pal) \<le> 13" using pal(4) by (subst ceillog2_le_iff) auto
      then have ub: "unat ?bits = max (ceillog2 (length ?pal)) 4"
        by (simp add: unat_max unsigned_of_nat take_bit_nat_eq_self)
      have "(2::nat) ^ ceillog2 (length ?pal) \<le> 2 ^ unat ?bits" unfolding ub by (intro power_increasing) auto
      then have fits: "length ?pal \<le> 2 ^ unat ?bits" using le_two_power_ceillog2 [of "length ?pal"] by linarith
      have cap: "length ?pal \<le> 2 ^ max 8 (unat ?bits)"
        by (rule le_trans [OF fits]) (intro power_increasing, simp_all)
      obtain longs where longs: "packed_len ?bits 4096 = Some longs"
      proof -
        have "?bits \<noteq> 0" using ub by (metis max.cobounded2 not_numeral_le_zero unat_0)
        moreover have "unat ?bits \<le> 64" using ub cl by simp
        ultimately show thesis by (intro that) (simp add: packed_len_def)
      qed
      define k where "k = (\<lambda>b. case position (\<lambda>y. y = b) ?pal of Some i \<Rightarrow> i | None \<Rightarrow> 0)"
      have k: "k b < length ?pal \<and> ?pal ! k b = b" if "b \<in> set arr" for b
        using that pal(2) position_eq [of b ?pal] by (metis insertI2 k_def option.simps(5))
      obtain data where d: "pack_from packed_or ?bits 0 (map word_of_nat (map k arr)) (replicate longs 0) = Some data"
        "palette_ok 4096 (Indirect ?bits ?pal data)"
        "\<And>i. i < 4096 \<Longrightarrow> cell (Indirect ?bits ?pal data) i = ?pal ! (map k arr ! i)"
      proof (rule pack_indices [OF _ _ fits cap _ _ longs])
        show "0 < unat ?bits" "unat ?bits < 64" using ub cl by simp_all
        show "length (map k arr) = 4096" using len by simp
        show "map k arr ! i < length ?pal" if "i < 4096" for i using k that len by simp
      qed blast
      have "from_block_array arr biome_id count = Some \<lparr>block_count = count, block_state = Indirect ?bits ?pal data,
          biome = SingleValue biome_id\<rparr>"
        unfolding from_block_array_def Let_def if_not_P [OF not_air] if_not_P [OF False] longs
        using d(1) by (simp add: k_def o_def)
      moreover have "set arr \<noteq> {AIR_BLOCK}"
      proof
        assume all: "set arr = {AIR_BLOCK}"
        then have "set ?pal = {AIR_BLOCK}" using pal(2) by simp
        then have "length ?pal = 1" using distinct_card [OF pal(1)] by simp
        moreover have "arr ! j = AIR_BLOCK" if "j < 4096" for j using all len nth_mem [of j arr] that by auto
        then have "card ?S = 0" by simp
        then have "count = word_of_nat 0" unfolding count by (rule arg_cong)
        ultimately show False using not_air by simp
      qed
      moreover have "cell (Indirect ?bits ?pal data) j = arr ! j" if "j < 4096" for j
        using d(3) [OF that] k that len by simp
      ultimately show ?thesis
        using d(2) by (intro finish [of "\<lparr>block_count = count, block_state = Indirect ?bits ?pal data,
          biome = SingleValue biome_id\<rparr>"]) simp_all
    qed
  qed
qed

lemma from_block_array_cells_witness:
  "let arr = replicate 100 7 @ replicate 3996 0
   in palette_entry (block_state (the (from_block_array arr 2 100))) 99 = Some 7 \<and>
      palette_entry (block_state (the (from_block_array arr 2 100))) 100 = Some 0"
proof -
  let ?arr = "replicate 100 7 @ replicate 3996 0 :: i32 list"
  have "{j. j < 4096 \<and> ?arr ! j \<noteq> AIR_BLOCK} = {..<100}"
    by (auto simp: nth_append split: if_splits)
  then have count: "100 = (word_of_nat (card {j. j < 4096 \<and> ?arr ! j \<noteq> AIR_BLOCK}) :: i16)" by simp
  have len: "length ?arr = 4096" by simp
  obtain s where "from_block_array ?arr 2 100 = Some s"
    and "\<forall>j < 4096. palette_entry (block_state s) j = Some (?arr ! j)"
    using from_block_array_cells [OF len count, of 2] by blast
  then show ?thesis unfolding Let_def by (simp add: nth_append)
qed

section \<open>Biomes\<close>

lemma bits_per_entry_simps [simp]:
  "bits_per_entry (SingleValue v) = 0" "bits_per_entry (Indirect bits pal data) = bits"
  "bits_per_entry (Direct bits data) = bits"
  by (simp_all add: bits_per_entry_def)

definition biome_ok :: "nat \<Rightarrow> i32 \<Rightarrow> bool" where
  "biome_ok registry_size b \<longleftrightarrow> 0 \<le> sint b \<and> sint b < int registry_size"

lemma biome_palette_cells:
  assumes len: "length cells = 64" and reg: "0 < n" "n \<le> 2 ^ 31" and ids: "\<forall>b \<in> set cells. biome_ok n b"
  obtains p where "biome_palette cells n = Some p" and "palette_ok 64 p"
    and "\<And>i. i < 64 \<Longrightarrow> cell p i = cells ! i"
    and "bits_per_entry p \<le> 3 \<or> bits_per_entry p = biome_direct_bits n"
proof -
  let ?pal = "distinct_values cells"
  note pal = distinct_values_facts [of cells]
  have "cells \<noteq> []" using len by auto
  then have pos: "0 < length ?pal" using pal(2) by (metis length_greater_0_conv set_empty)
  let ?bits = "max (ceil_log2 (length ?pal)) 1"
  have small: "length ?pal \<le> 64" using pal(3) len by simp
  have ub: "unat ?bits = max (ceillog2 (length ?pal)) 1"
    using small ceil_log2_eq [of "length ?pal"] by (simp add: unat_max)
  have cl: "ceillog2 (length ?pal) \<le> 6" using small pos by (subst ceillog2_le_iff) auto
  show thesis
  proof (cases "length ?pal = 1")
    case True
    then obtain a where "?pal = [a]" by (metis One_nat_def length_0_conv length_Suc_conv)
    then have "biome_palette cells n = Some (SingleValue a)" "set cells = {a}"
      using pal(2) by (auto simp: biome_palette_def)
    moreover have "cells ! i = a" if "i < 64" for i using calculation(2) that len nth_mem [of i cells] by auto
    ultimately show thesis by (intro that [of "SingleValue a"]) (auto simp: palette_ok_def cell_def)
  next
    case many: False
    show thesis
    proof (cases "?bits \<le> 3")
      case True
      have "(2::nat) ^ ceillog2 (length ?pal) \<le> 2 ^ unat ?bits" unfolding ub by (intro power_increasing) auto
      then have fits: "length ?pal \<le> 2 ^ unat ?bits" using le_two_power_ceillog2 [of "length ?pal"] by linarith
      have cap: "length ?pal \<le> 2 ^ max 8 (unat ?bits)"
        by (rule le_trans [OF fits]) (intro power_increasing, simp_all)
      have range: "0 < unat ?bits" "unat ?bits < 64" unfolding ub using cl by simp_all
      obtain longs where longs: "packed_len ?bits 64 = Some longs"
        by (rule packed_len_exists [OF range])
      define k where "k = (\<lambda>b. the (position (\<lambda>p. p = b) ?pal))"
      have k: "position (\<lambda>p. p = b) ?pal = Some (k b) \<and> k b < length ?pal \<and> ?pal ! k b = b" if "b \<in> set cells" for b
        using that pal(2) position_eq [of b ?pal] by (metis k_def option.sel)
      have idx: "those (map (\<lambda>i. position (\<lambda>p. p = i) ?pal) cells) = Some (map k cells)"
        by (rule those_map_Some) (use k in blast)
      obtain data where d: "pack_from packed_set ?bits 0 (map word_of_nat (map k cells)) (replicate longs 0) = Some data"
        "palette_ok 64 (Indirect ?bits ?pal data)"
        "\<And>i. i < 64 \<Longrightarrow> cell (Indirect ?bits ?pal data) i = ?pal ! (map k cells ! i)"
      proof (rule pack_indices [OF range fits cap _ _ longs])
        show "length (map k cells) = 64" using len by simp
        show "map k cells ! i < length ?pal" if "i < 64" for i using k that len by simp
      qed blast
      have "biome_palette cells n = Some (Indirect ?bits ?pal data)"
        unfolding biome_palette_def Let_def if_not_P [OF many] if_P [OF True] longs idx
        using d(1) by simp
      moreover have "cell (Indirect ?bits ?pal data) i = cells ! i" if "i < 64" for i
        using d(3) [OF that] k that len by simp
      ultimately show thesis using d(2) True by (intro that [of "Indirect ?bits ?pal data"]) simp_all
    next
      case False
      let ?b = "biome_direct_bits n"
      have nb: "unat ?b = max (ceillog2 n) 1"
        using reg(2) ceil_log2_eq [of n] by (simp add: biome_direct_bits_def unat_max)
      have "ceillog2 n \<le> 31" using reg by (subst ceillog2_le_iff) auto
      then have range: "0 < unat ?b" "unat ?b < 64" unfolding nb by simp_all
      obtain longs where longs: "packed_len ?b 64 = Some longs" by (rule packed_len_exists [OF range])
      have zero: "packed_ok (replicate longs 0) ?b 64" by (rule packed_ok_zero [OF longs range(2)])
      obtain data where d: "pack_from packed_set ?b 0 (map scast cells) (replicate longs 0) = Some data"
        "packed_ok data ?b 64"
        "\<And>j. j < 64 \<Longrightarrow> field data ?b j = (if 0 \<le> j \<and> j < 0 + length (map scast cells :: u64 list)
          then take_bit (unat ?b) (map scast cells ! (j - 0)) else field (replicate longs 0) ?b j)"
        using pack_from_set [OF zero, of 0 "map scast cells"] len by auto
      have "cell (Direct ?b data) i = cells ! i" if "i < 64" for i
      proof -
        have "biome_ok n (cells ! i)" using ids that len by simp
        moreover have "(2::nat) ^ ceillog2 n \<le> 2 ^ unat ?b" unfolding nb by (intro power_increasing) auto
        then have "n \<le> 2 ^ unat ?b" using le_two_power_ceillog2 [of n] by linarith
        then have "int n \<le> 2 ^ unat ?b" by (metis of_nat_le_iff of_nat_numeral of_nat_power)
        ultimately have "0 \<le> sint (cells ! i)" "sint (cells ! i) < 2 ^ unat ?b"
          unfolding biome_ok_def by linarith+
        then have "ucast (take_bit (unat ?b) (scast (cells ! i) :: u64)) = cells ! i"
          by (rule global_id_kept)
        then show ?thesis using d(3) [OF that] that len by (simp add: cell_def)
      qed
      moreover have "biome_palette cells n = Some (Direct ?b data)"
        unfolding biome_palette_def Let_def if_not_P [OF many] if_not_P [OF False] longs
        using d(1) by simp
      ultimately show thesis using d(2) by (intro that [of "Direct ?b data"]) (simp_all add: palette_ok_def)
    qed
  qed
qed

text \<open>Writing a biome cell is an update of a plain array of 64 cells that returns the old biome
  and leaves the blocks alone, whichever of the three forms the container had and gets; and the form
  it gets has a width the client accepts: none, one to three bits, or the direct width.\<close>

theorem set_biome_updates:
  assumes "palette_ok 64 (biome s)" and "0 < n" and "n \<le> 2 ^ 31"
    and "\<forall>i < 64. biome_ok n (cell (biome s) i)" and "biome_ok n biome_id"
    and "biome_cell_index x y z = Some i"
  shows "\<exists>s'. set_biome x y z biome_id n s = Some (cell (biome s) i, s') \<and> palette_ok 64 (biome s') \<and>
    (\<forall>j < 64. palette_entry (biome s') j = Some (if j = i then biome_id else cell (biome s) j)) \<and>
    block_state s' = block_state s \<and> block_count s' = block_count s \<and>
    (s' = s \<or> bits_per_entry (biome s') \<le> 3 \<or> bits_per_entry (biome s') = biome_direct_bits n)"
proof -
  let ?cells = "map (cell (biome s)) [0..<64]"
  have i: "i < 64"
    using assms(6) by (auto simp: biome_cell_index_def word_less_nat_alt split: if_splits)
  have old: "palette_entry (biome s) i = Some (cell (biome s) i)" by (rule palette_entry_cell [OF assms(1) i])
  have cells: "biome_cells s = Some ?cells"
    unfolding biome_cells_def using palette_entry_cell [OF assms(1)] by (intro those_map_Some) simp
  show ?thesis
  proof (cases "cell (biome s) i = biome_id")
    case True
    then show ?thesis
      using assms(1,6) old palette_entry_cell [OF assms(1)] by (intro exI [of _ s]) (auto simp: set_biome_def)
  next
    case False
    have "set (?cells[i := biome_id]) \<subseteq> insert biome_id (set ?cells)" by (rule set_update_subset_insert)
    then have ids: "\<forall>b \<in> set (?cells[i := biome_id]). biome_ok n b" using assms(4,5) by auto
    obtain p where p: "biome_palette (?cells[i := biome_id]) n = Some p" "palette_ok 64 p"
      "\<And>j. j < 64 \<Longrightarrow> cell p j = ?cells[i := biome_id] ! j" "bits_per_entry p \<le> 3 \<or> bits_per_entry p = biome_direct_bits n"
      by (rule biome_palette_cells [OF _ assms(2,3) ids]) auto
    have "cell p j = (if j = i then biome_id else cell (biome s) j)" if "j < 64" for j
      using p(3) [OF that] that i by (simp add: nth_list_update)
    then show ?thesis
      using False assms(6) old cells p palette_entry_cell [OF p(2)]
      by (intro exI [of _ "s\<lparr>biome := p\<rparr>"]) (auto simp: set_biome_def)
  qed
qed

lemma set_biome_updates_witness:
  "palette_entry (biome (snd (the (set_biome 1 2 3 40 65 (filled_section 1 39))))) 45 = Some 40 \<and>
   palette_entry (biome (snd (the (set_biome 1 2 3 40 65 (filled_section 1 39))))) 44 = Some 39"
proof -
  let ?s = "filled_section 1 39"
  have "palette_ok 64 (biome ?s)" "\<forall>i < 64. biome_ok 65 (cell (biome ?s) i)" "biome_ok 65 40"
    "biome_cell_index 1 2 3 = Some 45"
    by (simp_all add: filled_section_def palette_ok_def cell_def biome_ok_def biome_cell_index_def)
  from set_biome_updates [OF this(1) _ _ this(2-4)] show ?thesis
    by (fastforce simp: filled_section_def cell_def)
qed

section \<open>The wire\<close>

text \<open>The chunk code's own VarInt writer produces the same bytes as the codec's, for every value.\<close>

theorem write_varint_is_VarI32:
  "write_varint v = encode_VarI32 (VarI32 v)"
  by (simp add: write_varint_eq)

end
