(* ===== verification/Region_File.thy ===== *)
theory Region_File
  imports Codec_Primitives
begin

text \<open>
  The region files of \<open>void-world-io/src/region/file.rs\<close>: 1024 chunk payloads in 4096-byte
  sectors behind a header of locations and timestamps. The file on disk is a byte list that the
  operations read and write at offsets; writing past the end fills the gap with zeros, as a file
  does. \<open>compress\<close> and \<open>decompress\<close> stand for the zlib library. Faults of the disk are not
  modelled, the end of the file is.
\<close>

section \<open>Errors and files\<close>

datatype 'e persistence_error = UnexpectedEnd | Zlib 'e | Corrupt string

type_synonym disk_file = "u8 list"

definition read_exact :: "nat \<Rightarrow> nat \<Rightarrow> disk_file \<Rightarrow> u8 list option" where
  "read_exact pos n f = (if pos + n \<le> length f then Some (take n (drop pos f)) else None)"

definition write_at :: "nat \<Rightarrow> u8 list \<Rightarrow> disk_file \<Rightarrow> disk_file" where
  "write_at pos bs f = take pos (f @ replicate (pos - length f) 0) @ bs @ drop (pos + length bs) f"

definition set_len :: "nat \<Rightarrow> disk_file \<Rightarrow> disk_file" where
  "set_len n f = take n (f @ replicate (n - length f) 0)"

section \<open>Region files\<close>

abbreviation SECTOR :: nat where "SECTOR \<equiv> 4096"
abbreviation HEADER_SECTORS :: nat where "HEADER_SECTORS \<equiv> 2"
abbreviation ENTRIES :: nat where "ENTRIES \<equiv> 1024"
abbreviation COMPRESSION_ZLIB :: u8 where "COMPRESSION_ZLIB \<equiv> 2"

record region_file =
  rf_file :: disk_file
  locations :: "u32 list"
  timestamps :: "u32 list"
  used :: "bool list"

text \<open>The two halves of a location entry.\<close>

definition loc_off :: "u32 \<Rightarrow> nat" where
  "loc_off loc = unat (drop_bit 8 loc)"

definition loc_cnt :: "u32 \<Rightarrow> nat" where
  "loc_cnt loc = unat (loc AND 0xFF)"

text \<open>\<open>iter_mut().skip(off).take(cnt)\<close>, setting every element.\<close>

definition mark_range :: "nat \<Rightarrow> nat \<Rightarrow> bool \<Rightarrow> bool list \<Rightarrow> bool list" where
  "mark_range off cnt b us = take off us @ map (\<lambda>_. b) (take cnt (drop off us)) @ drop (off + cnt) us"

text \<open>\<open>if n > used.len() { used.resize(n, false) }\<close>.\<close>

definition grow :: "nat \<Rightarrow> bool list \<Rightarrow> bool list" where
  "grow n us = us @ replicate (n - length us) False"

definition read_table :: "nat \<Rightarrow> disk_file \<Rightarrow> u32 list" where
  "read_table pos f = map (\<lambda>i. from_be_bytes (take 4 (drop (pos + 4 * i) f))) [0..<ENTRIES]"

definition claim_entry :: "u32 \<Rightarrow> bool list \<Rightarrow> bool list" where
  "claim_entry loc us =
     (if loc \<noteq> 0 then mark_range (loc_off loc) (loc_cnt loc) True (grow (loc_off loc + loc_cnt loc) us)
      else us)"

definition open_region :: "disk_file \<Rightarrow> region_file" where
  "open_region f =
     (let (f', locs, times) =
        (if length f < SECTOR * HEADER_SECTORS
         then (set_len (SECTOR * HEADER_SECTORS) f, replicate ENTRIES 0, replicate ENTRIES 0)
         else (f, read_table 0 f, read_table SECTOR f));
        total_sectors = max (div_ceil (length f') SECTOR) HEADER_SECTORS
      in \<lparr>rf_file = f', locations = locs, timestamps = times,
          used = fold claim_entry locs (mark_range 0 HEADER_SECTORS True (replicate total_sectors False))\<rparr>)"

definition region_index :: "i32 \<Rightarrow> i32 \<Rightarrow> nat" where
  "region_index cx cz = unat ((cx AND 31) + (cz AND 31) * 32)"

definition read_chunk ::
  "(u8 list \<Rightarrow> 'e + u8 list) \<Rightarrow> i32 \<Rightarrow> i32 \<Rightarrow> region_file \<Rightarrow> 'e persistence_error + u8 list option" where
  "read_chunk decompress cx cz r =
     (let loc = locations r ! region_index cx cz in
      if loc = 0 then Inr None
      else
        (let pos = loc_off loc * SECTOR in
         case read_exact pos 4 (rf_file r) of
           None \<Rightarrow> Inl UnexpectedEnd
         | Some len_buf \<Rightarrow>
             (let len = unat (from_be_bytes len_buf :: u32) in
              if len = 0 then Inr None
              else
                (case read_exact (pos + 4) 1 (rf_file r) of
                   None \<Rightarrow> Inl UnexpectedEnd
                 | Some scheme \<Rightarrow>
                     (case read_exact (pos + 5) (len - 1) (rf_file r) of
                        None \<Rightarrow> Inl UnexpectedEnd
                      | Some payload \<Rightarrow>
                          if scheme ! 0 = COMPRESSION_ZLIB then
                            (case decompress payload of Inl e \<Rightarrow> Inl (Zlib e) | Inr out \<Rightarrow> Inr (Some out))
                          else
                            Inl (Corrupt (''unknown compression scheme '' @ show_nat (unat (scheme ! 0)))))))))"

text \<open>The loop of \<open>allocate\<close> from sector \<open>s\<close> on; \<open>run\<close> is the start of the current run and its length.\<close>

function allocate_from :: "bool list \<Rightarrow> nat \<Rightarrow> nat \<Rightarrow> (nat \<times> nat) option \<Rightarrow> nat" where
  "allocate_from us count s run =
     (if s < length us then
        (if us ! s then allocate_from us count (s + 1) None
         else
           (let (start, len) = (case run of Some (start, len) \<Rightarrow> (start, len + 1) | None \<Rightarrow> (s, 1)) in
            if len = count then start else allocate_from us count (s + 1) (Some (start, len))))
      else max (length us) HEADER_SECTORS)"
  by pat_completeness auto
termination by (relation "measure (\<lambda>(us, _, s, _). length us - s)") auto

declare allocate_from.simps [simp del]

definition allocate_sectors :: "bool list \<Rightarrow> nat \<Rightarrow> nat" where
  "allocate_sectors us count = allocate_from us count HEADER_SECTORS None"

text \<open>Where the payload goes: in place while it fits, else the old sectors are freed and a run is found.\<close>

definition choose_sectors :: "u32 \<Rightarrow> nat \<Rightarrow> bool list \<Rightarrow> nat \<times> bool list" where
  "choose_sectors loc sectors_needed us =
     (if loc \<noteq> 0 \<and> sectors_needed \<le> loc_cnt loc then (loc_off loc, us)
      else
        (let freed = (if loc \<noteq> 0 then mark_range (loc_off loc) (loc_cnt loc) False us else us)
         in (allocate_sectors freed sectors_needed, freed)))"

definition write_header_entry :: "nat \<Rightarrow> region_file \<Rightarrow> region_file" where
  "write_header_entry idx r =
     r\<lparr>rf_file := write_at (SECTOR + idx * 4) (to_be_bytes 4 (timestamps r ! idx))
        (write_at (idx * 4) (to_be_bytes 4 (locations r ! idx)) (rf_file r))\<rparr>"

definition write_chunk ::
  "(u8 list \<Rightarrow> u8 list) \<Rightarrow> i32 \<Rightarrow> i32 \<Rightarrow> u8 list \<Rightarrow> u32 \<Rightarrow> region_file \<Rightarrow>
   'e persistence_error + region_file" where
  "write_chunk compress cx cz uncompressed timestamp r =
     (let compressed = compress uncompressed;
          sectors_needed = div_ceil (4 + 1 + length compressed) SECTOR in
      if 255 < sectors_needed then
        Inl (Corrupt (''chunk too large: '' @ show_nat sectors_needed @ '' sectors''))
      else
        (let idx = region_index cx cz;
             (off, us) = choose_sectors (locations r ! idx) sectors_needed (used r);
             us' = mark_range off sectors_needed True (grow (off + sectors_needed) us);
             block = to_be_bytes 4 (word_of_nat (length compressed + 1) :: u32) @ [COMPRESSION_ZLIB] @ compressed;
             padded = block @ replicate (sectors_needed * SECTOR - length block) 0
         in Inr (write_header_entry idx
              (r\<lparr>rf_file := write_at (off * SECTOR) padded (rf_file r), used := us',
                 locations := (locations r)[idx := push_bit 8 (word_of_nat off) OR word_of_nat sectors_needed],
                 timestamps := (timestamps r)[idx := timestamp]\<rparr>))))"

end
