(* ===== verification/Nbt_Tree.thy ===== *)
theory Nbt_Tree
  imports Region_File
begin

text \<open>
  The NBT values the server builds and reads (\<open>ussr_nbt::owned\<close>), and the small readers
  \<open>void-world-io/src/format.rs\<close> uses on them. A name or string of the library is kept as what its
  \<open>decode\<close> returns: \<open>None\<close> stands for bytes that are no text. Writing and parsing of the bytes is the
  library's and not modelled here.
\<close>

type_synonym mstring = "string option"

datatype nbt_tag =
    TByte u8
  | TShort i16
  | TInt i32
  | TLong i64
  | TFloat u32
  | TDouble u64
  | TByteArray "u8 list"
  | TString mstring
  | TList nbt_list
  | TCompound "(mstring \<times> nbt_tag) list"
  | TIntArray "i32 list"
  | TLongArray "i64 list"
and nbt_list =
    LEmpty
  | LByte "u8 list"
  | LShort "i16 list"
  | LInt "i32 list"
  | LLong "i64 list"
  | LFloat "u32 list"
  | LDouble "u64 list"
  | LByteArray "u8 list list"
  | LString "mstring list"
  | LList "nbt_list list"
  | LCompound "(mstring \<times> nbt_tag) list list"
  | LIntArray "i32 list list"
  | LLongArray "i64 list list"

type_synonym compound = "(mstring \<times> nbt_tag) list"

record nbt =
  nbt_name :: mstring
  nbt_compound :: compound

section \<open>Reading fields\<close>

fun nbt_field :: "compound \<Rightarrow> string \<Rightarrow> nbt_tag option" where
  "nbt_field [] key = None"
| "nbt_field ((n, t) # tags) key = (if n = Some key then Some t else nbt_field tags key)"

definition get_int :: "compound \<Rightarrow> string \<Rightarrow> 'e persistence_error + i32" where
  "get_int c key = (case nbt_field c key of Some (TInt v) \<Rightarrow> Inr v | _ \<Rightarrow> Inl (Corrupt key))"

definition get_string :: "compound \<Rightarrow> string \<Rightarrow> 'e persistence_error + string" where
  "get_string c key = (case nbt_field c key of Some (TString (Some v)) \<Rightarrow> Inr v | _ \<Rightarrow> Inl (Corrupt key))"

definition get_short :: "compound \<Rightarrow> string \<Rightarrow> 'e persistence_error + i16" where
  "get_short c key = (case nbt_field c key of Some (TShort v) \<Rightarrow> Inr v | _ \<Rightarrow> Inl (Corrupt key))"

definition get_byte_opt :: "compound \<Rightarrow> string \<Rightarrow> u8 option" where
  "get_byte_opt c key = (case nbt_field c key of Some (TByte v) \<Rightarrow> Some v | _ \<Rightarrow> None)"

definition get_int_array :: "compound \<Rightarrow> string \<Rightarrow> 'e persistence_error + i32 list" where
  "get_int_array c key = (case nbt_field c key of Some (TIntArray v) \<Rightarrow> Inr v | _ \<Rightarrow> Inl (Corrupt key))"

definition get_long_array :: "compound \<Rightarrow> string \<Rightarrow> 'e persistence_error + i64 list" where
  "get_long_array c key = (case nbt_field c key of Some (TLongArray v) \<Rightarrow> Inr v | _ \<Rightarrow> Inl (Corrupt key))"

text \<open>\<open>u64\<close> and \<open>i64\<close> share their bits; a cast between them is the identity on words.\<close>

definition u64_long_array :: "u64 list \<Rightarrow> nbt_tag" where
  "u64_long_array v = TLongArray v"

definition long_array_u64 :: "compound \<Rightarrow> string \<Rightarrow> 'e persistence_error + u64 list" where
  "long_array_u64 c key = get_long_array c key"

definition compound_list :: "compound list \<Rightarrow> nbt_list" where
  "compound_list compounds = (if compounds = [] then LEmpty else LCompound compounds)"

definition byte_array_list :: "u8 list list \<Rightarrow> nbt_list" where
  "byte_array_list arrays = (if arrays = [] then LEmpty else LByteArray arrays)"

definition byte_array_list_from :: "compound \<Rightarrow> string \<Rightarrow> u8 list list" where
  "byte_array_list_from c key = (case nbt_field c key of Some (TList (LByteArray v)) \<Rightarrow> v | _ \<Rightarrow> [])"

text \<open>\<open>collect::<Result<Vec<_>>>()\<close> over a fallible reader: the first error, or all values.\<close>

fun collect_results :: "('e + 'a) list \<Rightarrow> 'e + 'a list" where
  "collect_results [] = Inr []"
| "collect_results (Inl e # rs) = Inl e"
| "collect_results (Inr x # rs) = (case collect_results rs of Inl e \<Rightarrow> Inl e | Inr xs \<Rightarrow> Inr (x # xs))"

lemma collect_results_Inr: "(\<And>x. x \<in> set xs \<Longrightarrow> f x = Inr (g x)) \<Longrightarrow> collect_results (map f xs) = Inr (map g xs)"
  by (induction xs) auto

definition res_bind :: "'e + 'a \<Rightarrow> ('a \<Rightarrow> 'e + 'b) \<Rightarrow> 'e + 'b" where
  "res_bind r f = (case r of Inl e \<Rightarrow> Inl e | Inr x \<Rightarrow> f x)"

lemma res_bind_simps [simp]: "res_bind (Inl e) f = Inl e" "res_bind (Inr x) f = f x"
  by (simp_all add: res_bind_def)

end
