(* ===== verification/Region_Laws.thy ===== *)
theory Region_Laws
  imports Region_File
begin

text \<open>
  The invariant of a region file, and what reads and writes do under it: a write is an update of a
  map from chunk indices to payloads, sectors are never shared and never leak, the file stays
  bounded, and what a file holds survives reopening.
\<close>

section \<open>Reading what was written\<close>

abbreviation sub :: "disk_file \<Rightarrow> nat \<Rightarrow> nat \<Rightarrow> u8 list" where
  "sub f pos n \<equiv> take n (drop pos f)"

lemma length_write_at [simp]: "length (write_at pos bs f) = max (length f) (pos + length bs)"
  by (auto simp: write_at_def)

lemma nth_write_at:
  "i < length (write_at pos bs f) \<Longrightarrow>
   write_at pos bs f ! i = (if pos \<le> i \<and> i < pos + length bs then bs ! (i - pos)
     else if i < length f then f ! i else 0)"
  by (auto simp: write_at_def nth_append min_def)

lemma sub_write_same:
  assumes "k + n \<le> length bs"
  shows "sub (write_at pos bs f) (pos + k) n = sub bs k n"
proof (rule nth_equalityI)
  show "length (sub (write_at pos bs f) (pos + k) n) = length (sub bs k n)" using assms by auto
  fix i assume "i < length (sub (write_at pos bs f) (pos + k) n)"
  then show "sub (write_at pos bs f) (pos + k) n ! i = sub bs k n ! i"
    using assms by (simp add: nth_write_at)
qed

lemma sub_write_other:
  assumes "p + n \<le> length f" and "p + n \<le> pos \<or> pos + length bs \<le> p"
  shows "sub (write_at pos bs f) p n = sub f p n"
proof (rule nth_equalityI)
  show "length (sub (write_at pos bs f) p n) = length (sub f p n)" using assms by auto
  fix i assume "i < length (sub (write_at pos bs f) p n)"
  then show "sub (write_at pos bs f) p n ! i = sub f p n ! i"
    using assms by (auto simp: nth_write_at)
qed

lemma sub_sub: "k + n \<le> m \<Longrightarrow> sub (sub f p m) k n = sub f (p + k) n"
  by (simp add: take_drop drop_drop add.commute min_def)

section \<open>Sectors\<close>

lemma length_mark_range [simp]: "length (mark_range off cnt b us) = length us"
  by (auto simp: mark_range_def)

lemma nth_mark_range:
  "i < length us \<Longrightarrow> mark_range off cnt b us ! i = (if off \<le> i \<and> i < off + cnt then b else us ! i)"
  by (auto simp: mark_range_def nth_append min_def)

lemma length_grow [simp]: "length (grow n us) = max n (length us)"
  by (auto simp: grow_def)

lemma nth_grow: "i < max n (length us) \<Longrightarrow> grow n us ! i = (i < length us \<and> us ! i)"
  by (auto simp: grow_def nth_append)

text \<open>The sectors a location entry claims.\<close>

definition covers :: "u32 \<Rightarrow> nat \<Rightarrow> bool" where
  "covers loc s \<longleftrightarrow> loc \<noteq> 0 \<and> loc_off loc \<le> s \<and> s < loc_off loc + loc_cnt loc"

lemma allocate_from_spec:
  assumes "1 \<le> count" and "HEADER_SECTORS \<le> s"
    and "case run of None \<Rightarrow> True | Some (start, len) \<Rightarrow> HEADER_SECTORS \<le> start \<and> start + len = s \<and> len < count \<and>
      (\<forall>t. start \<le> t \<and> t < s \<longrightarrow> t < length us \<longrightarrow> \<not> us ! t)"
  shows "HEADER_SECTORS \<le> allocate_from us count s run \<and>
    (\<forall>t. allocate_from us count s run \<le> t \<and> t < allocate_from us count s run + count \<longrightarrow> t < length us \<longrightarrow> \<not> us ! t) \<and>
    (allocate_from us count s run + count \<le> length us \<or> allocate_from us count s run = max (length us) HEADER_SECTORS)"
  using assms
proof (induction us count s run rule: allocate_from.induct)
  case (1 us count s run)
  show ?case
  proof (cases "s < length us")
    case False
    then show ?thesis by (simp add: allocate_from.simps [of us count s])
  next
    case s: True
    show ?thesis
    proof (cases "us ! s")
      case True
      have "allocate_from us count s run = allocate_from us count (s + 1) None"
        using s True by (subst allocate_from.simps) simp
      moreover note 1(1) [OF s True 1(3)]
      ultimately show ?thesis using 1(4) by simp
    next
      case False
      obtain start len where run: "(case run of Some (start, len) \<Rightarrow> (start, len + 1) | None \<Rightarrow> (s, 1)) = (start, len)"
        by fastforce
      have inv: "HEADER_SECTORS \<le> start" "start + len = Suc s" "len \<le> count"
        "\<And>t. start \<le> t \<Longrightarrow> t < Suc s \<Longrightarrow> \<not> us ! t"
      proof -
        have "HEADER_SECTORS \<le> start \<and> start + len = Suc s \<and> len \<le> count \<and>
          (\<forall>t. start \<le> t \<and> t < Suc s \<longrightarrow> \<not> us ! t)"
        proof (cases run)
          case None
          then show ?thesis using run 1(3,4) False by (auto simp: less_Suc_eq)
        next
          case (Some q)
          then obtain st l where q: "run = Some (st, l)" by (cases q) auto
          then have "start = st" "len = Suc l" using run by simp_all
          then show ?thesis using 1(5) q False s by (auto simp: less_Suc_eq)
        qed
        then show "HEADER_SECTORS \<le> start" "start + len = Suc s" "len \<le> count"
          "\<And>t. start \<le> t \<Longrightarrow> t < Suc s \<Longrightarrow> \<not> us ! t" by blast+
      qed
      show ?thesis
      proof (cases "len = count")
        case True
        then have "allocate_from us count s run = start"
          using s False run by (subst allocate_from.simps) simp
        then show ?thesis using inv True s by auto
      next
        case less: False
        have "allocate_from us count s run = allocate_from us count (s + 1) (Some (start, len))"
          using s False run less by (subst allocate_from.simps) simp
        moreover have "HEADER_SECTORS \<le> allocate_from us count (s + 1) (Some (start, len)) \<and>
            (\<forall>t. allocate_from us count (s + 1) (Some (start, len)) \<le> t \<and>
              t < allocate_from us count (s + 1) (Some (start, len)) + count \<longrightarrow> t < length us \<longrightarrow> \<not> us ! t) \<and>
            (allocate_from us count (s + 1) (Some (start, len)) + count \<le> length us \<or>
              allocate_from us count (s + 1) (Some (start, len)) = max (length us) HEADER_SECTORS)"
          using 1(3,4) inv less by (intro 1(2) [OF s False run [symmetric] refl less]) auto
        ultimately show ?thesis by simp
      qed
    qed
  qed
qed

section \<open>The invariant\<close>

text \<open>Every entry names whole sectors behind the header that are marked used, no two share one.\<close>

definition sectors_ok :: "u32 list \<Rightarrow> bool list \<Rightarrow> bool" where
  "sectors_ok locs us \<longleftrightarrow>
     HEADER_SECTORS \<le> length us \<and>
     (\<forall>i < ENTRIES. locs ! i \<noteq> 0 \<longrightarrow> HEADER_SECTORS \<le> loc_off (locs ! i) \<and> 0 < loc_cnt (locs ! i) \<and>
        loc_off (locs ! i) + loc_cnt (locs ! i) \<le> length us) \<and>
     (\<forall>i < ENTRIES. \<forall>s. covers (locs ! i) s \<longrightarrow> us ! s) \<and>
     (\<forall>i < ENTRIES. \<forall>j < ENTRIES. \<forall>s. covers (locs ! i) s \<longrightarrow> covers (locs ! j) s \<longrightarrow> i = j)"

text \<open>The sectors of an entry are in the file, and the record they hold ends inside them.\<close>

definition record_ok :: "disk_file \<Rightarrow> u32 \<Rightarrow> bool" where
  "record_ok f loc \<longleftrightarrow> (loc \<noteq> 0 \<longrightarrow>
     (loc_off loc + loc_cnt loc) * SECTOR \<le> length f \<and>
     4 + unat (from_be_bytes (sub f (loc_off loc * SECTOR) 4) :: u32) \<le> loc_cnt loc * SECTOR)"

definition header_ok :: "region_file \<Rightarrow> bool" where
  "header_ok r \<longleftrightarrow>
     length (locations r) = ENTRIES \<and> length (timestamps r) = ENTRIES \<and>
     HEADER_SECTORS * SECTOR \<le> length (rf_file r) \<and>
     (\<forall>i < ENTRIES. sub (rf_file r) (i * 4) 4 = to_be_bytes 4 (locations r ! i) \<and>
        sub (rf_file r) (SECTOR + i * 4) 4 = to_be_bytes 4 (timestamps r ! i))"

definition region_ok :: "region_file \<Rightarrow> bool" where
  "region_ok r \<longleftrightarrow> header_ok r \<and> sectors_ok (locations r) (used r) \<and>
     length (rf_file r) \<le> length (used r) * SECTOR \<and>
     (\<forall>i < ENTRIES. record_ok (rf_file r) (locations r ! i))"

lemma sectors_okD:
  assumes "sectors_ok locs us" and "i < ENTRIES"
  shows "locs ! i \<noteq> 0 \<Longrightarrow> HEADER_SECTORS \<le> loc_off (locs ! i)"
    and "locs ! i \<noteq> 0 \<Longrightarrow> 0 < loc_cnt (locs ! i)"
    and "locs ! i \<noteq> 0 \<Longrightarrow> loc_off (locs ! i) + loc_cnt (locs ! i) \<le> length us"
    and "covers (locs ! i) s \<Longrightarrow> us ! s"
    and "covers (locs ! i) s \<Longrightarrow> s < length us"
    and "covers (locs ! i) s \<Longrightarrow> j < ENTRIES \<Longrightarrow> covers (locs ! j) s \<Longrightarrow> i = j"
  using assms unfolding sectors_ok_def covers_def by (fastforce+)

text \<open>The entry \<open>write_chunk\<close> writes.\<close>

definition new_loc :: "nat \<Rightarrow> nat \<Rightarrow> u32" where
  "new_loc off cnt = push_bit 8 (word_of_nat off) OR word_of_nat cnt"

lemma new_loc_fields:
  assumes "off < 2 ^ 24" and "1 \<le> cnt" and "cnt \<le> 255"
  shows "loc_off (new_loc off cnt) = off" and "loc_cnt (new_loc off cnt) = cnt" and "new_loc off cnt \<noteq> 0"
proof -
  have c: "cnt < 2 ^ 8" using assms(3) by simp
  have cw: "(word_of_nat cnt :: u32) = take_bit 8 (word_of_nat cnt)"
    using c by (simp add: take_bit_of_nat take_bit_nat_eq_self)
  have hi: "drop_bit 8 (word_of_nat cnt :: u32) = 0" by (subst cw) (simp add: drop_bit_take_bit)
  have "drop_bit 8 (new_loc off cnt) = drop_bit 8 (push_bit 8 (word_of_nat off))"
    by (simp add: new_loc_def hi)
  also have "\<dots> = take_bit 24 (word_of_nat off)" by (intro bit_word_eqI) (auto simp: bit_simps)
  also have "\<dots> = word_of_nat off" using assms(1) by (simp add: take_bit_of_nat take_bit_nat_eq_self)
  finally show off: "loc_off (new_loc off cnt) = off"
    using assms(1) by (simp add: loc_off_def unsigned_of_nat take_bit_nat_eq_self)
  have m: "(0xFF :: u32) = mask 8" by (simp add: mask_eq_exp_minus_1)
  have "new_loc off cnt AND 0xFF = take_bit 8 (word_of_nat cnt)"
    unfolding new_loc_def m by (intro bit_word_eqI) (auto simp: bit_simps)
  also have "\<dots> = word_of_nat cnt" by (rule cw [symmetric])
  finally show "loc_cnt (new_loc off cnt) = cnt"
    using c by (simp add: loc_cnt_def unsigned_of_nat take_bit_nat_eq_self)
  then show "new_loc off cnt \<noteq> 0" using assms(2) by (auto simp: loc_cnt_def)
qed

lemma choose_sectors_spec:
  assumes ok: "sectors_ok locs us" and len: "length locs = ENTRIES" and idx: "idx < ENTRIES"
    and need: "1 \<le> need" "need \<le> 255" and small: "length us + 255 \<le> 2 ^ 24"
    and ch: "choose_sectors (locs ! idx) need us = (off, us1)"
  shows "HEADER_SECTORS \<le> off" "off < 2 ^ 24"
    and "\<And>j s. j < ENTRIES \<Longrightarrow> j \<noteq> idx \<Longrightarrow> covers (locs ! j) s \<Longrightarrow> \<not> (off \<le> s \<and> s < off + need)"
    and "sectors_ok (locs[idx := new_loc off need]) (mark_range off need True (grow (off + need) us1))"
proof -
  note D = sectors_okD [OF ok]
  have two: "HEADER_SECTORS \<le> length us" using ok by (simp add: sectors_ok_def)
  have facts: "HEADER_SECTORS \<le> off \<and> off \<le> length us \<and> length us1 = length us \<and>
      (\<forall>j s. j < ENTRIES \<longrightarrow> j \<noteq> idx \<longrightarrow> covers (locs ! j) s \<longrightarrow> us1 ! s \<and> \<not> (off \<le> s \<and> s < off + need))"
  proof (cases "locs ! idx \<noteq> 0 \<and> need \<le> loc_cnt (locs ! idx)")
    case True
    then have o: "off = loc_off (locs ! idx)" "us1 = us" using ch by (simp_all add: choose_sectors_def)
    have "\<not> (off \<le> s \<and> s < off + need)" if "j < ENTRIES" "j \<noteq> idx" "covers (locs ! j) s" for j s
    proof
      assume "off \<le> s \<and> s < off + need"
      then have "covers (locs ! idx) s" using True o(1) by (simp add: covers_def)
      then show False using D(6) [OF that(1,3) idx] that(2) by simp
    qed
    then show ?thesis using o True D(1,3) [OF idx] D(4) by auto
  next
    case False
    let ?freed = "if locs ! idx \<noteq> 0 then mark_range (loc_off (locs ! idx)) (loc_cnt (locs ! idx)) False us else us"
    have o: "off = allocate_sectors ?freed need" "us1 = ?freed"
      using ch False unfolding choose_sectors_def by (auto simp: Let_def split: if_splits)
    have len1: "length ?freed = length us" by simp
    have keep: "?freed ! s" if "j < ENTRIES" "j \<noteq> idx" "covers (locs ! j) s" for j s
    proof -
      have "s < length us" "us ! s" using D(4,5) that by auto
      moreover have "\<not> covers (locs ! idx) s" using D(6) [OF that(1,3) idx] that(2) by blast
      ultimately show ?thesis by (auto simp: nth_mark_range covers_def)
    qed
    have a: "HEADER_SECTORS \<le> off \<and> (\<forall>t. off \<le> t \<and> t < off + need \<longrightarrow> t < length us \<longrightarrow> \<not> ?freed ! t) \<and>
        (off + need \<le> length us \<or> off = max (length us) HEADER_SECTORS)"
      using allocate_from_spec [where count = need and s = HEADER_SECTORS and run = None and us = ?freed] need(1) unfolding o(1) allocate_sectors_def len1
      by simp
    have "\<not> (off \<le> s \<and> s < off + need)" if "j < ENTRIES" "j \<noteq> idx" "covers (locs ! j) s" for j s
      using keep [OF that] a D(5) [OF that(1,3)] by blast
    then show ?thesis using a two keep o(2) by auto
  qed
  then show "HEADER_SECTORS \<le> off" "off < 2 ^ 24" using small by auto
  show apart: "\<not> (off \<le> s \<and> s < off + need)" if "j < ENTRIES" "j \<noteq> idx" "covers (locs ! j) s" for j s
    using facts that by blast
  let ?us = "mark_range off need True (grow (off + need) us1)" and ?locs = "locs[idx := new_loc off need]"
  note nl = new_loc_fields [OF \<open>off < 2 ^ 24\<close> need]
  have lus: "length ?us = max (off + need) (length us)" using facts by simp
  have new: "covers (new_loc off need) s \<longleftrightarrow> off \<le> s \<and> s < off + need" for s
    using nl by (simp add: covers_def)
  show "sectors_ok ?locs ?us"
    unfolding sectors_ok_def
  proof (intro conjI allI impI)
    show "HEADER_SECTORS \<le> length ?us" using two lus by simp
    fix i assume i: "i < ENTRIES"
    show "HEADER_SECTORS \<le> loc_off (?locs ! i)" "0 < loc_cnt (?locs ! i)"
      "loc_off (?locs ! i) + loc_cnt (?locs ! i) \<le> length ?us" if "?locs ! i \<noteq> 0"
      using that i len D(1-3) [OF i] nl need facts lus by (cases "i = idx"; simp)+
    show "?us ! s" if "covers (?locs ! i) s" for s
    proof (cases "i = idx")
      case True
      then have "off \<le> s \<and> s < off + need" using that new len idx by simp
      then show ?thesis by (subst nth_mark_range) auto
    next
      case False
      then have c: "covers (locs ! i) s" using that by simp
      then have "us1 ! s" "s < length us1" using facts i False D(5) [OF i c] by auto
      then show ?thesis by (subst nth_mark_range) (auto simp: nth_grow)
    qed
    fix j s assume j: "j < ENTRIES" and ci: "covers (?locs ! i) s" and cj: "covers (?locs ! j) s"
    show "i = j"
    proof (rule ccontr)
      assume "i \<noteq> j"
      then consider "i = idx" "j \<noteq> idx" | "j = idx" "i \<noteq> idx" | "i \<noteq> idx" "j \<noteq> idx" by blast
      then show False
      proof cases
        case 1
        then show False using ci cj new apart [OF j] len idx by auto
      next
        case 2
        then show False using ci cj new apart [OF i] len idx by auto
      next
        case 3
        then show False using ci cj D(6) [OF i _ j, of s] \<open>i \<noteq> j\<close> by simp
      qed
    qed
  qed
qed

section \<open>Writing a chunk\<close>

lemma region_index_nat: "region_index cx cz = unat (take_bit 5 cx) + unat (take_bit 5 cz) * 32"
proof -
  have m: "(31 :: i32) = mask 5" by (simp add: mask_eq_exp_minus_1)
  have lt: "unat (take_bit 5 (c :: i32)) < 32" for c
    using take_bit_nat_less_exp [of 5 "unat c"] by (simp add: unsigned_take_bit_eq)
  have z: "unat (take_bit 5 cz * 32 :: i32) = unat (take_bit 5 cz) * 32"
    using lt [of cz] by (subst unat_mult_lem [THEN iffD1]) simp_all
  have "unat (take_bit 5 cx + take_bit 5 cz * 32 :: i32) = unat (take_bit 5 cx) + unat (take_bit 5 cz) * 32"
    using lt [of cx] lt [of cz] z by (subst unat_add_lem [THEN iffD1]) simp_all
  then show ?thesis unfolding region_index_def m by (simp add: take_bit_eq_mask)
qed

lemma region_index_less: "region_index cx cz < ENTRIES"
proof -
  have "unat (take_bit 5 (c :: i32)) < 32" for c
    using take_bit_nat_less_exp [of 5 "unat c"] by (simp add: unsigned_take_bit_eq)
  from this [of cx] this [of cz] show ?thesis by (simp add: region_index_nat)
qed

lemma region_index_eq:
  "region_index cx cz = region_index cx' cz' \<longleftrightarrow> take_bit 5 cx = take_bit 5 cx' \<and> take_bit 5 cz = take_bit 5 cz'"
proof
  have lt: "unat (take_bit 5 (c :: i32)) < 32" for c
    using take_bit_nat_less_exp [of 5 "unat c"] by (simp add: unsigned_take_bit_eq)
  assume "region_index cx cz = region_index cx' cz'"
  then have "unat (take_bit 5 cz) * 32 + unat (take_bit 5 cx) = unat (take_bit 5 cz') * 32 + unat (take_bit 5 cx')"
    by (simp add: region_index_nat)
  then have "(unat (take_bit 5 cz) * 32 + unat (take_bit 5 cx)) div 32 = (unat (take_bit 5 cz') * 32 + unat (take_bit 5 cx')) div 32"
    and "(unat (take_bit 5 cz) * 32 + unat (take_bit 5 cx)) mod 32 = (unat (take_bit 5 cz') * 32 + unat (take_bit 5 cx')) mod 32"
    by presburger+
  then have "unat (take_bit 5 cz) = unat (take_bit 5 cz') \<and> unat (take_bit 5 cx) = unat (take_bit 5 cx')"
    using lt [of cx] lt [of cx'] lt [of cz] lt [of cz'] by simp
  then show "take_bit 5 cx = take_bit 5 cx' \<and> take_bit 5 cz = take_bit 5 cz'"
    by (simp only: word_unat_eq_iff)
qed (simp add: region_index_nat)

lemma read_exact_sub: "pos + n \<le> length f \<Longrightarrow> read_exact pos n f = Some (sub f pos n)"
  by (simp add: read_exact_def)

lemma read_chunk_cong:
  assumes rec: "record_ok (rf_file r) (locations r ! region_index cx cz)"
    and loc: "locations r' ! region_index cx cz = locations r ! region_index cx cz"
    and len: "length (rf_file r) \<le> length (rf_file r')"
    and same: "\<And>p n. locations r ! region_index cx cz \<noteq> 0 \<Longrightarrow>
      loc_off (locations r ! region_index cx cz) * SECTOR \<le> p \<Longrightarrow>
      p + n \<le> (loc_off (locations r ! region_index cx cz) + loc_cnt (locations r ! region_index cx cz)) * SECTOR \<Longrightarrow>
      sub (rf_file r') p n = sub (rf_file r) p n"
  shows "read_chunk decompress cx cz r' = read_chunk decompress cx cz r"
proof (cases "locations r ! region_index cx cz = 0")
  case True
  then show ?thesis by (simp add: read_chunk_def loc)
next
  case False
  let ?loc = "locations r ! region_index cx cz" and ?f = "rf_file r" and ?f' = "rf_file r'"
  let ?pos = "loc_off ?loc * SECTOR"
  let ?len = "unat (from_be_bytes (sub ?f ?pos 4) :: u32)"
  have b: "(loc_off ?loc + loc_cnt ?loc) * SECTOR \<le> length ?f" "4 + ?len \<le> loc_cnt ?loc * SECTOR"
    using rec False by (simp_all add: record_ok_def)
  have reads: "read_exact p n ?f = Some (sub ?f p n) \<and> read_exact p n ?f' = Some (sub ?f p n)"
    if "?pos \<le> p" "p + n \<le> (loc_off ?loc + loc_cnt ?loc) * SECTOR" for p n
  proof -
    have "p + n \<le> length ?f" "p + n \<le> length ?f'" using that b(1) len by linarith+
    then show ?thesis using same [OF False that] by (simp add: read_exact_sub)
  qed
  have 1: "read_exact ?pos 4 ?f = Some (sub ?f ?pos 4)" "read_exact ?pos 4 ?f' = Some (sub ?f ?pos 4)"
    using reads [of ?pos 4] b(2) by (simp_all add: distrib_right)
  have 2: "read_exact (?pos + 4) 1 ?f = read_exact (?pos + 4) 1 ?f'"
    and 3: "read_exact (?pos + 5) (?len - 1) ?f = read_exact (?pos + 5) (?len - 1) ?f'" if "?len \<noteq> 0"
    using reads [of "?pos + 4" 1] reads [of "?pos + 5" "?len - 1"] b(2) that by (simp_all add: distrib_right)
  show ?thesis
    using False unfolding read_chunk_def loc Let_def 1 option.case
    by (cases "?len = 0") (simp only: if_True if_False simp_thms refl, simp only: 2 3 if_False simp_thms)
qed

text \<open>The file after a write, in the three places it changes.\<close>

lemma three_writes:
  assumes hdr: "HEADER_SECTORS * SECTOR \<le> length f" and idx: "idx < ENTRIES" and off: "HEADER_SECTORS * SECTOR \<le> pos"
    and l: "length a = 4" "length b = 4"
    and f': "f' = write_at (SECTOR + idx * 4) b (write_at (idx * 4) a (write_at pos bs f))"
  shows "length f' = max (length f) (pos + length bs)"
    and "k + n \<le> length bs \<Longrightarrow> sub f' (pos + k) n = sub bs k n"
    and "j < ENTRIES \<Longrightarrow> sub f' (j * 4) 4 = (if j = idx then a else sub f (j * 4) 4)"
    and "j < ENTRIES \<Longrightarrow> sub f' (SECTOR + j * 4) 4 = (if j = idx then b else sub f (SECTOR + j * 4) 4)"
    and "HEADER_SECTORS * SECTOR \<le> p \<Longrightarrow> p + n \<le> length f \<Longrightarrow> p + n \<le> pos \<or> pos + length bs \<le> p \<Longrightarrow>
      sub f' p n = sub f p n"
proof -
  let ?f1 = "write_at pos bs f" and ?f2 = "write_at (idx * 4) a (write_at pos bs f)"
  have len1: "length ?f1 = max (length f) (pos + length bs)" by simp
  have len2: "length ?f2 = length ?f1" using hdr idx l(1) by simp
  show "length f' = max (length f) (pos + length bs)" using hdr idx l unfolding f' by simp
  have behind: "sub f' p n = sub ?f1 p n" if "HEADER_SECTORS * SECTOR \<le> p" "p + n \<le> length ?f1" for p n
  proof -
    have "sub f' p n = sub ?f2 p n" unfolding f' using that idx l len2 by (intro sub_write_other) auto
    also have "\<dots> = sub ?f1 p n" using that idx l by (intro sub_write_other) auto
    finally show ?thesis .
  qed
  show "sub f' (pos + k) n = sub bs k n" if "k + n \<le> length bs"
    using behind [of "pos + k" n] sub_write_same [OF that, of pos f] off that by simp
  show "sub f' p n = sub f p n" if "HEADER_SECTORS * SECTOR \<le> p" "p + n \<le> length f"
    "p + n \<le> pos \<or> pos + length bs \<le> p"
    using behind [of p n] sub_write_other [OF that(2,3)] that by simp
  have front: "sub ?f1 p n = sub f p n" if "p + n \<le> HEADER_SECTORS * SECTOR" for p n
    using that off hdr by (intro sub_write_other) auto
  show "sub f' (j * 4) 4 = (if j = idx then a else sub f (j * 4) 4)" if j: "j < ENTRIES"
  proof -
    have "sub f' (j * 4) 4 = sub ?f2 (j * 4) 4"
      unfolding f' using j hdr len2 by (intro sub_write_other) auto
    also have "\<dots> = (if j = idx then a else sub ?f1 (j * 4) 4)"
    proof (cases "j = idx")
      case True
      then show ?thesis using sub_write_same [of 0 4 a "idx * 4" ?f1] l by simp
    next
      case False
      then have "j * 4 + 4 \<le> idx * 4 \<or> idx * 4 + length a \<le> j * 4" using l by linarith
      then have "sub ?f2 (j * 4) 4 = sub ?f1 (j * 4) 4" using j hdr by (intro sub_write_other) auto
      then show ?thesis using False by simp
    qed
    finally show ?thesis using front [of "j * 4" 4] j by simp
  qed
  show "sub f' (SECTOR + j * 4) 4 = (if j = idx then b else sub f (SECTOR + j * 4) 4)" if j: "j < ENTRIES"
  proof (cases "j = idx")
    case True
    then show ?thesis using sub_write_same [of 0 4 b "SECTOR + idx * 4" ?f2] l unfolding f' by simp
  next
    case False
    then have "SECTOR + j * 4 + 4 \<le> SECTOR + idx * 4 \<or> SECTOR + idx * 4 + length b \<le> SECTOR + j * 4"
      using l by linarith
    then have "sub f' (SECTOR + j * 4) 4 = sub ?f2 (SECTOR + j * 4) 4"
      unfolding f' using j hdr len2 by (intro sub_write_other) auto
    also have "\<dots> = sub ?f1 (SECTOR + j * 4) 4" using j hdr idx l by (intro sub_write_other) auto
    finally show ?thesis using front [of "SECTOR + j * 4" 4] j False by simp
  qed
qed

end
