(* ===== verification/Region_Writes.thy ===== *)
theory Region_Writes
  imports Region_Laws
begin

text \<open>Writing, reading back and reopening a region file.\<close>

definition payload_sectors :: "u8 list \<Rightarrow> nat" where
  "payload_sectors z = div_ceil (4 + 1 + length z) SECTOR"

lemma payload_sectors_bounds: "5 + length z \<le> payload_sectors z * SECTOR" "1 \<le> payload_sectors z"
proof -
  show a: "5 + length z \<le> payload_sectors z * SECTOR"
    using div_ceil_le [of SECTOR "4 + 1 + length z"] by (simp add: payload_sectors_def)
  then show "1 \<le> payload_sectors z" by (cases "payload_sectors z") auto
qed

definition block_bytes :: "u8 list \<Rightarrow> u8 list" where
  "block_bytes z = (to_be_bytes 4 (word_of_nat (length z + 1) :: u32) @ [COMPRESSION_ZLIB] @ z) @
     replicate (payload_sectors z * SECTOR - (5 + length z)) 0"

lemma length_block_bytes: "length (block_bytes z) = payload_sectors z * SECTOR"
  using payload_sectors_bounds [of z] by (simp add: block_bytes_def)

lemma block_bytes_parts:
  "sub (block_bytes z) 0 4 = to_be_bytes 4 (word_of_nat (length z + 1) :: u32)"
  "sub (block_bytes z) 4 1 = [COMPRESSION_ZLIB]"
  "sub (block_bytes z) 5 (length z) = z"
  by (simp_all add: block_bytes_def)

lemma write_chunk_eq:
  assumes "payload_sectors (compress p) \<le> 255"
    and "choose_sectors (locations r ! region_index cx cz) (payload_sectors (compress p)) (used r) = (off, us1)"
  shows "write_chunk compress cx cz p ts r = Inr
    \<lparr>rf_file = write_at (SECTOR + region_index cx cz * 4) (to_be_bytes 4 ((timestamps r)[region_index cx cz := ts] ! region_index cx cz))
       (write_at (region_index cx cz * 4) (to_be_bytes 4 ((locations r)[region_index cx cz := new_loc off (payload_sectors (compress p))] ! region_index cx cz))
         (write_at (off * SECTOR) (block_bytes (compress p)) (rf_file r))),
     locations = (locations r)[region_index cx cz := new_loc off (payload_sectors (compress p))],
     timestamps = (timestamps r)[region_index cx cz := ts],
     used = mark_range off (payload_sectors (compress p)) True (grow (off + payload_sectors (compress p)) us1)\<rparr>"
proof -
  have b: "(to_be_bytes 4 (word_of_nat (length z + 1) :: u32) @ [COMPRESSION_ZLIB] @ z) @
     replicate (payload_sectors z * SECTOR - length (to_be_bytes 4 (word_of_nat (length z + 1) :: u32) @ [COMPRESSION_ZLIB] @ z)) 0
     = block_bytes z" for z
    by (simp add: block_bytes_def)
  have lt: "\<not> 255 < payload_sectors (compress p)" using assms(1) by simp
  show ?thesis
    unfolding write_chunk_def Let_def
    unfolding payload_sectors_def [symmetric] if_not_P [OF lt] assms(2) case_prod_conv b
    by (simp add: write_header_entry_def new_loc_def)
qed

lemma write_chunk_state:
  assumes ok: "region_ok r" and small: "length (used r) + 255 \<le> 2 ^ 24"
    and fits: "payload_sectors (compress p) \<le> 255"
  obtains r' off where "write_chunk compress cx cz p ts r = Inr r'" and "region_ok r'"
    and "locations r' = (locations r)[region_index cx cz := new_loc off (payload_sectors (compress p))]"
    and "loc_off (locations r' ! region_index cx cz) = off"
    and "locations r' ! region_index cx cz \<noteq> 0"
    and "length (rf_file r) \<le> length (rf_file r')"
    and "(off + payload_sectors (compress p)) * SECTOR \<le> length (rf_file r')"
    and "\<And>k n. k + n \<le> payload_sectors (compress p) * SECTOR \<Longrightarrow>
      sub (rf_file r') (off * SECTOR + k) n = sub (block_bytes (compress p)) k n"
    and "\<And>j q n. j < ENTRIES \<Longrightarrow> j \<noteq> region_index cx cz \<Longrightarrow> locations r ! j \<noteq> 0 \<Longrightarrow>
      loc_off (locations r ! j) * SECTOR \<le> q \<Longrightarrow>
      q + n \<le> (loc_off (locations r ! j) + loc_cnt (locations r ! j)) * SECTOR \<Longrightarrow>
      sub (rf_file r') q n = sub (rf_file r) q n"
    and "length (used r') \<le> length (used r) + payload_sectors (compress p)"
proof -
  define idx need z where d: "idx = region_index cx cz" "need = payload_sectors (compress p)" "z = compress p"
  obtain off us1 where ch: "choose_sectors (locations r ! idx) need (used r) = (off, us1)" by fastforce
  have idx: "idx < ENTRIES" unfolding d by (rule region_index_less)
  have need: "1 \<le> need" "need \<le> 255" using payload_sectors_bounds(2) fits by (simp_all add: d)
  have hdr: "length (locations r) = ENTRIES" "length (timestamps r) = ENTRIES"
    "HEADER_SECTORS * SECTOR \<le> length (rf_file r)"
    and ent: "\<And>i. i < ENTRIES \<Longrightarrow> sub (rf_file r) (i * 4) 4 = to_be_bytes 4 (locations r ! i)"
      "\<And>i. i < ENTRIES \<Longrightarrow> sub (rf_file r) (SECTOR + i * 4) 4 = to_be_bytes 4 (timestamps r ! i)"
    and sec: "sectors_ok (locations r) (used r)" and bound: "length (rf_file r) \<le> length (used r) * SECTOR"
    and recs: "\<And>i. i < ENTRIES \<Longrightarrow> record_ok (rf_file r) (locations r ! i)"
    using ok unfolding region_ok_def header_ok_def by blast+
  note cs = choose_sectors_spec [OF sec hdr(1) idx need small ch]
  note nl = new_loc_fields [OF cs(2) need]
  define a b f' where ab: "a = to_be_bytes 4 (new_loc off need)" "b = to_be_bytes 4 ts"
    "f' = write_at (SECTOR + idx * 4) b (write_at (idx * 4) a (write_at (off * SECTOR) (block_bytes z) (rf_file r)))"
  have offS: "HEADER_SECTORS * SECTOR \<le> off * SECTOR" using cs(1) by simp
  have l4: "length a = 4" "length b = 4" by (simp_all add: ab)
  note tw = three_writes [OF hdr(3) idx offS l4 ab(3)]
  have lb: "length (block_bytes z) = need * SECTOR" by (simp add: length_block_bytes d)
  define r' where r': "r' = \<lparr>rf_file = f', locations = (locations r)[idx := new_loc off need],
    timestamps = (timestamps r)[idx := ts], used = mark_range off need True (grow (off + need) us1)\<rparr>"
  have w: "write_chunk compress cx cz p ts r = Inr r'"
    using write_chunk_eq [where compress = compress and p = p, OF fits ch [unfolded d], of ts] idx hdr by (simp add: r' ab d)
  have len': "length f' = max (length (rf_file r)) ((off + need) * SECTOR)"
    using tw(1) lb by (simp add: distrib_right)
  have other: "sub f' q n = sub (rf_file r) q n"
    if j: "j < ENTRIES" "j \<noteq> idx" "locations r ! j \<noteq> 0" and q: "loc_off (locations r ! j) * SECTOR \<le> q"
      "q + n \<le> (loc_off (locations r ! j) + loc_cnt (locations r ! j)) * SECTOR" for j q n
  proof -
    let ?o = "loc_off (locations r ! j)" and ?c = "loc_cnt (locations r ! j)"
    note jd = sectors_okD(1-3) [OF sec j(1) j(3)]
    have apart: "?o + ?c \<le> off \<or> off + need \<le> ?o"
    proof (rule ccontr)
      assume "\<not> (?o + ?c \<le> off \<or> off + need \<le> ?o)"
      then have "covers (locations r ! j) (max ?o off) \<and> off \<le> max ?o off \<and> max ?o off < off + need"
        using j(3) jd(2) need(1) by (auto simp: covers_def)
      then show False using cs(3) [OF j(1,2)] by blast
    qed
    have "(?o + ?c) * SECTOR \<le> off * SECTOR \<or> (off + need) * SECTOR \<le> ?o * SECTOR"
      using apart by (meson mult_le_mono1)
    then have "q + n \<le> off * SECTOR \<or> off * SECTOR + length (block_bytes z) \<le> q"
      using q lb by (auto simp: distrib_right)
    moreover have "HEADER_SECTORS * SECTOR \<le> q" using q(1) jd(1) by simp
    moreover have "q + n \<le> length (rf_file r)" using recs [OF j(1)] j(3) q(2) unfolding record_ok_def by linarith
    ultimately show ?thesis by (intro tw(5))
  qed
  have same: "sub f' (off * SECTOR + k) n = sub (block_bytes z) k n" if "k + n \<le> need * SECTOR" for k n
    using tw(2) [of k n] that lb by simp
  have zlen: "unat (word_of_nat (length z + 1) :: u32) = length z + 1"
  proof -
    have "length z + 1 < 2 ^ 32" using payload_sectors_bounds(1) [of z] need(2) d by simp
    then show ?thesis by (simp add: unsigned_of_nat take_bit_nat_eq_self del: of_nat_add of_nat_Suc)
  qed
  have rec': "record_ok f' (locations r' ! i)" if i: "i < ENTRIES" for i
  proof (cases "i = idx")
    case True
    have "sub f' (off * SECTOR) 4 = to_be_bytes 4 (word_of_nat (length z + 1) :: u32)"
      using same [of 0 4] need(1) block_bytes_parts(1) [of z] by simp
    then show ?thesis
      using True idx hdr(1) nl len' zlen payload_sectors_bounds(1) [of z] d
      by (simp add: record_ok_def r' from_to_be_bytes_full)
  next
    case False
    then have li: "locations r' ! i = locations r ! i" by (simp add: r')
    show ?thesis
      unfolding li record_ok_def
    proof (intro impI)
      assume nz: "locations r ! i \<noteq> 0"
      have "sub f' (loc_off (locations r ! i) * SECTOR) 4 = sub (rf_file r) (loc_off (locations r ! i) * SECTOR) 4"
        using sectors_okD(2) [OF sec i nz] by (intro other [OF i False nz]) simp_all
      then show "(loc_off (locations r ! i) + loc_cnt (locations r ! i)) * SECTOR \<le> length f' \<and>
          4 + unat (from_be_bytes (sub f' (loc_off (locations r ! i) * SECTOR) 4) :: u32)
            \<le> loc_cnt (locations r ! i) * SECTOR"
        using recs [OF i] nz len' unfolding record_ok_def by (metis max.coboundedI1)
    qed
  qed
  have hdr': "header_ok r'"
    unfolding header_ok_def
  proof (intro conjI allI impI)
    show "length (locations r') = ENTRIES" "length (timestamps r') = ENTRIES" using hdr by (simp_all add: r')
    show "HEADER_SECTORS * SECTOR \<le> length (rf_file r')" using hdr(3) len' by (simp add: r')
    fix i assume i: "i < ENTRIES"
    show "sub (rf_file r') (i * 4) 4 = to_be_bytes 4 (locations r' ! i)"
      using tw(3) [OF i] ent(1) [OF i] hdr(1) idx by (simp add: r' ab)
    show "sub (rf_file r') (SECTOR + i * 4) 4 = to_be_bytes 4 (timestamps r' ! i)"
      using tw(4) [OF i] ent(2) [OF i] hdr(2) idx by (simp add: r' ab)
  qed
  have lus: "length us1 = length (used r)"
    using ch unfolding choose_sectors_def by (auto simp: Let_def split: if_splits)
  have "length (rf_file r') \<le> length (used r') * SECTOR"
    using len' bound lus by (auto simp: r' max_def)
  then have ok': "region_ok r'" unfolding region_ok_def using hdr' cs(4) rec' by (simp add: r')
  have offu: "off \<le> length (used r)"
  proof (cases "locations r ! idx \<noteq> 0 \<and> need \<le> loc_cnt (locations r ! idx)")
    case True
    then show ?thesis using ch sectors_okD(3) [OF sec idx] by (simp add: choose_sectors_def)
  next
    case False
    have two: "HEADER_SECTORS \<le> length (used r)" using sec by (simp add: sectors_ok_def)
    have "off = allocate_sectors us1 need"
      using ch False unfolding choose_sectors_def by (auto simp: Let_def split: if_splits)
    then show ?thesis
      using allocate_from_spec [where count = need and s = HEADER_SECTORS and run = None and us = us1] need(1) two lus
      by (auto simp: allocate_sectors_def)
  qed
  show thesis
  proof (rule that [of r' off])
    show "write_chunk compress cx cz p ts r = Inr r'" "region_ok r'" by fact+
    show "locations r' = (locations r)[region_index cx cz := new_loc off (payload_sectors (compress p))]"
      by (simp add: r' d)
    show "loc_off (locations r' ! region_index cx cz) = off" "locations r' ! region_index cx cz \<noteq> 0"
      using nl idx hdr(1) by (simp_all add: r' d)
    show "length (rf_file r) \<le> length (rf_file r')"
      "(off + payload_sectors (compress p)) * SECTOR \<le> length (rf_file r')" using len' by (simp_all add: r' d)
    show "sub (rf_file r') (off * SECTOR + k) n = sub (block_bytes (compress p)) k n"
      if "k + n \<le> payload_sectors (compress p) * SECTOR" for k n using same that by (simp add: r' d)
    show "sub (rf_file r') q n = sub (rf_file r) q n"
      if "j < ENTRIES" "j \<noteq> region_index cx cz" "locations r ! j \<noteq> 0"
        "loc_off (locations r ! j) * SECTOR \<le> q"
        "q + n \<le> (loc_off (locations r ! j) + loc_cnt (locations r ! j)) * SECTOR" for j q n
      using other [of j q n] that by (simp add: r' d)
    show "length (used r') \<le> length (used r) + payload_sectors (compress p)" using lus offu by (simp add: r' d)
  qed
qed


section \<open>Opening a file\<close>

lemma nth_claim_entry:
  "s < length (claim_entry loc us) \<Longrightarrow> claim_entry loc us ! s \<longleftrightarrow> covers loc s \<or> (s < length us \<and> us ! s)"
  by (cases "loc = 0") (auto simp: claim_entry_def covers_def nth_mark_range nth_grow split: if_splits)

lemma length_claim_entry: "length us \<le> length (claim_entry loc us)" "covers loc s \<Longrightarrow> s < length (claim_entry loc us)"
  by (auto simp: claim_entry_def covers_def)

lemma length_claims: "length us \<le> length (fold claim_entry ls us)"
  by (induction ls arbitrary: us) (auto intro: order_trans [OF length_claim_entry(1)])

lemma claims_cover: "loc \<in> set ls \<Longrightarrow> covers loc s \<Longrightarrow> s < length (fold claim_entry ls us)"
proof (induction ls arbitrary: us)
  case (Cons l ls)
  show ?case
  proof (cases "loc = l")
    case True
    then have "s < length (claim_entry l us)" using Cons.prems by (simp add: length_claim_entry)
    then show ?thesis using length_claims [of "claim_entry l us" ls] by simp
  next
    case False
    then show ?thesis using Cons by simp
  qed
qed simp

lemma nth_claims:
  "s < length (fold claim_entry ls us) \<Longrightarrow>
   fold claim_entry ls us ! s \<longleftrightarrow> (\<exists>loc \<in> set ls. covers loc s) \<or> (s < length us \<and> us ! s)"
proof (induction ls arbitrary: us)
  case (Cons l ls)
  have "fold claim_entry (l # ls) us ! s \<longleftrightarrow>
      (\<exists>loc \<in> set ls. covers loc s) \<or> (s < length (claim_entry l us) \<and> claim_entry l us ! s)"
    using Cons by simp
  also have "\<dots> \<longleftrightarrow> (\<exists>loc \<in> set ls. covers loc s) \<or> covers l s \<or> (s < length us \<and> us ! s)"
    using nth_claim_entry [of s l us] length_claim_entry(1) [of us l] length_claim_entry(2) [of l s us] by auto
  finally show ?case by auto
qed simp

lemma read_table_header:
  assumes "length xs = ENTRIES" and "\<And>i. i < ENTRIES \<Longrightarrow> sub f (pos + i * 4) 4 = to_be_bytes 4 (xs ! i)"
  shows "read_table pos f = xs"
proof (rule nth_equalityI)
  show "length (read_table pos f) = length xs" using assms(1) by (simp add: read_table_def)
  fix i assume "i < length (read_table pos f)"
  then have i: "i < ENTRIES" by (simp add: read_table_def)
  have "read_table pos f ! i = from_be_bytes (sub f (pos + i * 4) 4)"
    using i by (simp add: read_table_def mult.commute)
  then show "read_table pos f ! i = xs ! i" using assms(2) [OF i] by (simp add: from_to_be_bytes_full)
qed

lemma open_region_used:
  assumes "s < length (used (open_region f))"
  shows "used (open_region f) ! s \<longleftrightarrow>
    s < HEADER_SECTORS \<or> (\<exists>loc \<in> set (locations (open_region f)). covers loc s)"
proof -
  obtain f' locs times where t: "(if length f < SECTOR * HEADER_SECTORS
         then (set_len (SECTOR * HEADER_SECTORS) f, replicate ENTRIES 0, replicate ENTRIES 0)
         else (f, read_table 0 f, read_table SECTOR f)) = (f', locs, times)"
    by (metis prod_cases3)
  define us where "us = mark_range 0 HEADER_SECTORS True
    (replicate (max (div_ceil (length f') SECTOR) HEADER_SECTORS) False)"
  have o: "open_region f = \<lparr>rf_file = f', locations = locs, timestamps = times, used = fold claim_entry locs us\<rparr>"
    unfolding open_region_def Let_def t case_prod_conv us_def ..
  have "(s < length us \<and> us ! s) = (s < HEADER_SECTORS)" by (auto simp: us_def nth_mark_range split: if_splits)
  then show ?thesis using assms nth_claims [of s locs us] unfolding o by auto
qed

lemma open_region_saved:
  assumes "header_ok r"
  shows "rf_file (open_region (rf_file r)) = rf_file r"
    and "locations (open_region (rf_file r)) = locations r"
    and "timestamps (open_region (rf_file r)) = timestamps r"
    and "HEADER_SECTORS \<le> length (used (open_region (rf_file r)))"
    and "div_ceil (length (rf_file r)) SECTOR \<le> length (used (open_region (rf_file r)))"
proof -
  have h: "length (locations r) = ENTRIES" "length (timestamps r) = ENTRIES"
    "\<not> length (rf_file r) < SECTOR * HEADER_SECTORS"
    "\<And>i. i < ENTRIES \<Longrightarrow> sub (rf_file r) (0 + i * 4) 4 = to_be_bytes 4 (locations r ! i)"
    "\<And>i. i < ENTRIES \<Longrightarrow> sub (rf_file r) (SECTOR + i * 4) 4 = to_be_bytes 4 (timestamps r ! i)"
    using assms unfolding header_ok_def by auto
  have t: "read_table 0 (rf_file r) = locations r" "read_table SECTOR (rf_file r) = timestamps r"
    using read_table_header [OF h(1,4)] read_table_header [OF h(2,5)] by blast+
  note o = open_region_def [of "rf_file r", unfolded if_not_P [OF h(3)] t Let_def case_prod_conv]
  show "rf_file (open_region (rf_file r)) = rf_file r" "locations (open_region (rf_file r)) = locations r"
    "timestamps (open_region (rf_file r)) = timestamps r"
    unfolding o by simp_all
  have "HEADER_SECTORS \<le> length (mark_range 0 HEADER_SECTORS True
      (replicate (max (div_ceil (length (rf_file r)) SECTOR) HEADER_SECTORS) False))" by simp
  also have "\<dots> \<le> length (used (open_region (rf_file r)))" unfolding o region_file.simps by (rule length_claims)
  finally show "HEADER_SECTORS \<le> length (used (open_region (rf_file r)))" .
  have "div_ceil (length (rf_file r)) SECTOR \<le> length (mark_range 0 HEADER_SECTORS True
      (replicate (max (div_ceil (length (rf_file r)) SECTOR) HEADER_SECTORS) False))" by simp
  also have "\<dots> \<le> length (used (open_region (rf_file r)))"
    unfolding o region_file.simps by (rule length_claims)
  finally show "div_ceil (length (rf_file r)) SECTOR \<le> length (used (open_region (rf_file r)))" .
qed

lemma open_region_ok:
  assumes "region_ok r"
  shows "region_ok (open_region (rf_file r))"
proof -
  let ?r = "open_region (rf_file r)"
  have hdr: "header_ok r" and sec: "sectors_ok (locations r) (used r)"
    and bound: "length (rf_file r) \<le> length (used r) * SECTOR"
    and recs: "\<And>i. i < ENTRIES \<Longrightarrow> record_ok (rf_file r) (locations r ! i)"
    using assms by (auto simp: region_ok_def)
  note saved = open_region_saved [OF hdr]
  have mem: "locations r ! i \<in> set (locations r)" if "i < ENTRIES" for i
    using that hdr by (simp add: header_ok_def)
  have cov: "s < length (used ?r)" if "i < ENTRIES" "covers (locations r ! i) s" for i s
  proof -
    have "used ?r = fold claim_entry (locations ?r) (mark_range 0 HEADER_SECTORS True
        (replicate (max (div_ceil (length (rf_file ?r)) SECTOR) HEADER_SECTORS) False))"
      by (simp add: open_region_def Let_def)
    then show ?thesis using claims_cover [OF mem [OF that(1)] that(2)] saved(2) by simp
  qed
  have "sectors_ok (locations r) (used ?r)"
    unfolding sectors_ok_def
  proof (intro conjI allI impI)
    show "HEADER_SECTORS \<le> length (used ?r)" by (rule saved(4))
    fix i assume i: "i < ENTRIES"
    show "HEADER_SECTORS \<le> loc_off (locations r ! i)" "0 < loc_cnt (locations r ! i)" if "locations r ! i \<noteq> 0"
      using sectors_okD(1,2) [OF sec i] that by auto
    show "loc_off (locations r ! i) + loc_cnt (locations r ! i) \<le> length (used ?r)" if "locations r ! i \<noteq> 0"
    proof -
      have "covers (locations r ! i) (loc_off (locations r ! i) + loc_cnt (locations r ! i) - 1)"
        using that sectors_okD(2) [OF sec i] by (auto simp: covers_def)
      from cov [OF i this] show ?thesis by simp
    qed
    show "used ?r ! s" if "covers (locations r ! i) s" for s
      using open_region_used [OF cov [OF i that]] mem [OF i] that saved(2) by auto
    fix j s assume "j < ENTRIES" "covers (locations r ! i) s" "covers (locations r ! j) s"
    then show "i = j" using sectors_okD(6) [OF sec i] by blast
  qed
  moreover have "length (rf_file r) \<le> length (used ?r) * SECTOR"
  proof -
    have "div_ceil (length (rf_file r)) SECTOR \<le> length (used ?r)" by (rule saved(5))
    then have "div_ceil (length (rf_file r)) SECTOR * SECTOR \<le> length (used ?r) * SECTOR" by (rule mult_le_mono1)
    then show ?thesis using div_ceil_le [of SECTOR "length (rf_file r)"] by simp
  qed
  ultimately show ?thesis using hdr recs saved(1-4) by (simp add: region_ok_def header_ok_def)
qed

lemma length_claims_le:
  "length us \<le> n \<Longrightarrow> (\<And>loc. loc \<in> set ls \<Longrightarrow> loc \<noteq> 0 \<Longrightarrow> loc_off loc + loc_cnt loc \<le> n) \<Longrightarrow>
   length (fold claim_entry ls us) \<le> n"
  by (induction ls arbitrary: us) (auto simp: claim_entry_def)

text \<open>Reopening does not need more sectors.\<close>

lemma open_region_used_length:
  assumes "region_ok r"
  shows "length (used (open_region (rf_file r))) \<le> length (used r)"
proof -
  let ?r = "open_region (rf_file r)"
  have hdr: "header_ok r" and sec: "sectors_ok (locations r) (used r)"
    and bound: "length (rf_file r) \<le> length (used r) * SECTOR"
    using assms by (auto simp: region_ok_def)
  note saved = open_region_saved [OF hdr]
  have "used ?r = fold claim_entry (locations ?r) (mark_range 0 HEADER_SECTORS True
      (replicate (max (div_ceil (length (rf_file ?r)) SECTOR) HEADER_SECTORS) False))"
    by (simp add: open_region_def Let_def)
  moreover have "div_ceil (length (rf_file r)) SECTOR \<le> length (used r)"
    using bound by (simp add: div_ceil_def less_mult_imp_div_less less_Suc_eq_le [symmetric])
  moreover have "HEADER_SECTORS \<le> length (used r)" using sec by (simp add: sectors_ok_def)
  moreover have "loc_off loc + loc_cnt loc \<le> length (used r)" if "loc \<in> set (locations r)" "loc \<noteq> 0" for loc
    using that sectors_okD(3) [OF sec] hdr by (metis header_ok_def in_set_conv_nth)
  ultimately show ?thesis unfolding saved(1,2) by (simp add: length_claims_le)
qed

lemma open_empty: "open_region [] = \<lparr>rf_file = replicate (SECTOR * HEADER_SECTORS) 0, locations = replicate ENTRIES 0,
  timestamps = replicate ENTRIES 0, used = [True, True]\<rparr>"
proof -
  have c: "(claim_entry 0 ^^ n) us = us" for n us
    by (induction n) (auto simp: claim_entry_def)
  have "div_ceil (SECTOR * HEADER_SECTORS) SECTOR = 2" by (simp add: div_ceil_def)
  then show ?thesis
    by (simp add: open_region_def Let_def set_len_def c mark_range_def numeral_2_eq_2 replicate_app_Cons_same)
qed

lemma open_empty_ok: "region_ok (open_region [])"
proof -
  have z: "to_be_bytes 4 (0 :: u32) = replicate 4 0" by (simp add: eval_nat_numeral)
  have "sub (replicate (SECTOR * HEADER_SECTORS) (0 :: u8)) p 4 = replicate 4 0" if "p + 4 \<le> SECTOR * HEADER_SECTORS" for p
    using that by (simp add: min_def)
  then show ?thesis
    unfolding open_empty region_ok_def header_ok_def sectors_ok_def record_ok_def covers_def by (simp add: z)
qed


section \<open>A region as a map of chunks\<close>

definition unpacked :: "(u8 list \<Rightarrow> 'e + u8 list) \<Rightarrow> u8 list \<Rightarrow> 'e persistence_error + u8 list option" where
  "unpacked decompress z = (case decompress z of Inl e \<Rightarrow> Inl (Zlib e) | Inr out \<Rightarrow> Inr (Some out))"

lemma read_written:
  assumes loc: "locations r' ! region_index x z \<noteq> 0" "loc_off (locations r' ! region_index x z) = off"
    and len: "(off + payload_sectors (compress p)) * SECTOR \<le> length (rf_file r')" "payload_sectors (compress p) \<le> 255"
    and same: "\<And>k n. k + n \<le> payload_sectors (compress p) * SECTOR \<Longrightarrow>
      sub (rf_file r') (off * SECTOR + k) n = sub (block_bytes (compress p)) k n"
  shows "read_chunk decompress x z r' = unpacked decompress (compress p)"
proof -
  let ?z = "compress p" and ?w = "word_of_nat (length (compress p) + 1) :: u32"
  have b: "5 + length ?z \<le> payload_sectors ?z * SECTOR" by (rule payload_sectors_bounds)
  have reads: "read_exact (off * SECTOR + k) n (rf_file r') = Some (sub (block_bytes ?z) k n)"
    if "k + n \<le> payload_sectors ?z * SECTOR" for k n
  proof -
    have "off * SECTOR + k + n \<le> length (rf_file r')" using that len(1) by (simp add: distrib_right)
    then show ?thesis using same [OF that] by (simp add: read_exact_sub)
  qed
  have r: "read_exact (off * SECTOR) 4 (rf_file r') = Some (to_be_bytes 4 ?w)"
    "read_exact (off * SECTOR + 4) 1 (rf_file r') = Some [COMPRESSION_ZLIB]"
    "read_exact (off * SECTOR + 5) (length ?z) (rf_file r') = Some ?z"
    using reads [of 0 4] reads [of 4 1] reads [of 5 "length ?z"] b block_bytes_parts [of ?z] by simp_all
  have "length ?z + 1 < 2 ^ 32" using b len(2) by simp
  then have w: "unat ?w = length ?z + 1"
    by (simp add: unsigned_of_nat take_bit_nat_eq_self del: of_nat_add of_nat_Suc)
  have f: "from_be_bytes (to_be_bytes 4 ?w) = ?w" by (simp add: from_to_be_bytes_full del: of_nat_add of_nat_Suc)
  show ?thesis
    unfolding read_chunk_def Let_def if_not_P [OF loc(1)] loc(2) r option.case f w by (simp add: r unpacked_def)
qed

lemma write_chunk_spec:
  fixes decompress :: "u8 list \<Rightarrow> 'e + u8 list"
  assumes "region_ok r" and "length (used r) + 255 \<le> 2 ^ 24"
  shows "if payload_sectors (compress p) \<le> 255 then
      \<exists>r'. write_chunk compress cx cz p ts r = (Inr r' :: 'e persistence_error + region_file) \<and> region_ok r' \<and>
        length (used r') \<le> length (used r) + payload_sectors (compress p) \<and>
        (\<forall>x z. read_chunk decompress x z r' =
          (if region_index x z = region_index cx cz then unpacked decompress (compress p) else read_chunk decompress x z r))
    else \<exists>msg. write_chunk compress cx cz p ts r = (Inl (Corrupt msg) :: 'e persistence_error + region_file)"
proof (cases "payload_sectors (compress p) \<le> 255")
  case False
  then show ?thesis by (simp add: write_chunk_def Let_def payload_sectors_def)
next
  case fits: True
  obtain r' off where w: "write_chunk compress cx cz p ts r = (Inr r' :: 'e persistence_error + region_file)" "region_ok r'"
    and loc: "locations r' = (locations r)[region_index cx cz := new_loc off (payload_sectors (compress p))]"
      "loc_off (locations r' ! region_index cx cz) = off" "locations r' ! region_index cx cz \<noteq> 0"
    and len: "length (rf_file r) \<le> length (rf_file r')"
      "(off + payload_sectors (compress p)) * SECTOR \<le> length (rf_file r')"
    and same: "\<And>k n. k + n \<le> payload_sectors (compress p) * SECTOR \<Longrightarrow>
      sub (rf_file r') (off * SECTOR + k) n = sub (block_bytes (compress p)) k n"
    and other: "\<And>j q n. j < ENTRIES \<Longrightarrow> j \<noteq> region_index cx cz \<Longrightarrow> locations r ! j \<noteq> 0 \<Longrightarrow>
      loc_off (locations r ! j) * SECTOR \<le> q \<Longrightarrow>
      q + n \<le> (loc_off (locations r ! j) + loc_cnt (locations r ! j)) * SECTOR \<Longrightarrow>
      sub (rf_file r') q n = sub (rf_file r) q n"
    and used: "length (used r') \<le> length (used r) + payload_sectors (compress p)"
    using write_chunk_state [where compress = compress and p = p, OF assms(1,2) fits] by blast
  have "read_chunk decompress x z r' = unpacked decompress (compress p)" if "region_index x z = region_index cx cz" for x z
    using loc(2,3) that len(2) fits same by (intro read_written) auto
  moreover have "read_chunk decompress x z r' = read_chunk decompress x z r"
    if "region_index x z \<noteq> region_index cx cz" for x z
  proof (rule read_chunk_cong)
    show "record_ok (rf_file r) (locations r ! region_index x z)"
      using assms(1) region_index_less by (simp add: region_ok_def)
    show "locations r' ! region_index x z = locations r ! region_index x z" using loc(1) that by simp
    show "length (rf_file r) \<le> length (rf_file r')" by (rule len(1))
  qed (rule other [OF region_index_less that])
  ultimately show ?thesis using w used fits by auto
qed

text \<open>C25: writing a chunk to a consistent region file succeeds whenever its compressed payload fits 255
  sectors: the region stays consistent (no two chunks share a sector, every entry lies in the file, the
  header on disk is the one in memory), the chunk reads back as written, and every other chunk of the
  region reads as before. Larger payloads are refused.\<close>

theorem write_chunk_updates:
  fixes decompress :: "u8 list \<Rightarrow> 'e + u8 list"
  assumes "region_ok r" and "length (used r) + 255 \<le> 2 ^ 24" and "decompress (compress p) = Inr p"
  shows "if payload_sectors (compress p) \<le> 255 then
      \<exists>r'. write_chunk compress cx cz p ts r = (Inr r' :: 'e persistence_error + region_file) \<and> region_ok r' \<and>
        length (used r') \<le> length (used r) + payload_sectors (compress p) \<and>
        (\<forall>x z. read_chunk decompress x z r' =
          (if region_index x z = region_index cx cz then Inr (Some p) else read_chunk decompress x z r))
    else \<exists>msg. write_chunk compress cx cz p ts r = (Inl (Corrupt msg) :: 'e persistence_error + region_file)"
  using write_chunk_spec [where decompress = decompress and compress = compress and p = p, OF assms(1,2)]
  by (simp only: unpacked_def assms(3) sum.case)

lemma write_chunk_updates_witness:
  "\<exists>r'. write_chunk id 3 (- 1) [1, 2, 3] 7 (open_region []) = (Inr r' :: nat persistence_error + region_file) \<and>
     (\<forall>x z. read_chunk Inr x z r' = (if region_index x z = region_index 3 (- 1) then Inr (Some [1, 2, 3])
       else (read_chunk Inr x z (open_region []) :: nat persistence_error + u8 list option)))"
proof -
  have "payload_sectors (id [1, 2, 3]) \<le> 255" by (simp add: payload_sectors_def div_ceil_def)
  moreover have "length (used (open_region [])) + 255 \<le> 2 ^ 24" by (simp add: open_empty)
  ultimately show ?thesis
    using write_chunk_updates [OF open_empty_ok, where compress = id and decompress = Inr and p = "[1, 2, 3]"
        and cx = 3 and cz = "- 1" and ts = 7] by auto
qed

text \<open>C30: a consistent region file survives being closed and reopened: the header read back from disk is
  the one in memory, every chunk reads as before, the reopened region is consistent again, and exactly the
  sectors of the header and of the stored chunks are marked used.\<close>

theorem reopened_region_is_the_same:
  assumes "region_ok r"
  shows "region_ok (open_region (rf_file r)) \<and> rf_file (open_region (rf_file r)) = rf_file r \<and>
    locations (open_region (rf_file r)) = locations r \<and> timestamps (open_region (rf_file r)) = timestamps r \<and>
    (\<forall>x z. read_chunk decompress x z (open_region (rf_file r)) = read_chunk decompress x z r) \<and>
    (\<forall>s < length (used (open_region (rf_file r))).
       used (open_region (rf_file r)) ! s = (s < HEADER_SECTORS \<or> (\<exists>loc \<in> set (locations r). covers loc s)))"
proof (intro conjI allI impI)
  have hdr: "header_ok r" using assms by (simp add: region_ok_def)
  note saved = open_region_saved [OF hdr]
  show "region_ok (open_region (rf_file r))" by (rule open_region_ok [OF assms])
  show "rf_file (open_region (rf_file r)) = rf_file r" "locations (open_region (rf_file r)) = locations r"
    "timestamps (open_region (rf_file r)) = timestamps r" by (fact saved)+
  show "read_chunk decompress x z (open_region (rf_file r)) = read_chunk decompress x z r" for x z
    unfolding read_chunk_def saved(1,2) ..
  fix s assume "s < length (used (open_region (rf_file r)))"
  then show "used (open_region (rf_file r)) ! s = (s < HEADER_SECTORS \<or> (\<exists>loc \<in> set (locations r). covers loc s))"
    by (simp add: open_region_used saved)
qed

lemma reopened_region_is_the_same_witness:
  "read_chunk Inr 3 4 (open_region (rf_file (open_region []))) = (read_chunk Inr 3 4 (open_region []) :: nat persistence_error + u8 list option) \<and>
   region_ok (open_region (rf_file (open_region [])))"
  using reopened_region_is_the_same [OF open_empty_ok, where decompress = Inr] by blast

text \<open>When a chunk is rewritten in place and needs fewer sectors than it has, the sectors it no longer
  needs stay marked used although no entry names them, so nothing allocates them until the file is
  reopened.\<close>

theorem shrinking_leaks_sectors:
  assumes "region_ok r" and "length (used r) + 255 \<le> 2 ^ 24"
    and "locations r ! region_index cx cz \<noteq> 0"
    and "payload_sectors (compress p) < loc_cnt (locations r ! region_index cx cz)"
    and "loc_off (locations r ! region_index cx cz) + payload_sectors (compress p) \<le> s"
    and "s < loc_off (locations r ! region_index cx cz) + loc_cnt (locations r ! region_index cx cz)"
  shows "\<exists>r'. write_chunk compress cx cz p ts r = Inr r' \<and> used r' ! s \<and>
    (\<forall>loc \<in> set (locations r'). \<not> covers loc s)"
proof -
  let ?loc = "locations r ! region_index cx cz" and ?need = "payload_sectors (compress p)"
  have sec: "sectors_ok (locations r) (used r)" and len: "length (locations r) = ENTRIES"
    using assms(1) by (auto simp: region_ok_def header_ok_def)
  note D = sectors_okD [OF sec]
  have cov: "covers ?loc s" using assms(3,5,6) by (simp add: covers_def)
  have fits: "?need \<le> 255"
  proof -
    have "loc_cnt ?loc \<le> 255"
      unfolding loc_cnt_def using word_and_le1 [of ?loc "0xFF"] by (simp add: word_le_nat_alt)
    then show ?thesis using assms(4) by simp
  qed
  have ch: "choose_sectors ?loc ?need (used r) = (loc_off ?loc, used r)"
    using assms(3,4) by (simp add: choose_sectors_def)
  have off: "loc_off ?loc < 2 ^ 24" using D(3) [OF region_index_less assms(3)] assms(2) by linarith
  note nl = new_loc_fields [OF off payload_sectors_bounds(2) fits]
  have "\<not> covers ((locations r)[region_index cx cz := new_loc (loc_off ?loc) ?need] ! i) s" if i: "i < ENTRIES" for i
  proof (cases "i = region_index cx cz")
    case True
    then show ?thesis using nl assms(5) len region_index_less [of cx cz] by (simp add: covers_def)
  next
    case False
    then show ?thesis using D(6) [OF i _ region_index_less cov] by auto
  qed
  then have none: "\<forall>loc \<in> set ((locations r)[region_index cx cz := new_loc (loc_off ?loc) ?need]). \<not> covers loc s"
    using len by (metis in_set_conv_nth length_list_update)
  have "used r ! s" "s < length (used r)" using D(4,5) [OF region_index_less cov] by auto
  then have "mark_range (loc_off ?loc) ?need True (grow (loc_off ?loc + ?need) (used r)) ! s"
    by (subst nth_mark_range) (auto simp: nth_grow)
  then show ?thesis
    using none by (simp add: write_chunk_eq [where compress = compress and p = p, OF fits ch])
qed

lemma two_sectors_written:
  "\<exists>r. write_chunk id 0 0 (replicate 5000 0) 7 (open_region []) = (Inr r :: nat persistence_error + region_file) \<and>
     region_ok r \<and> length (used r) \<le> 4 \<and> locations r ! region_index 0 0 = new_loc 2 2"
proof -
  have plain: "payload_sectors (replicate 5000 0) = 2" by (simp add: payload_sectors_def div_ceil_def)
  then have two: "payload_sectors (id (replicate 5000 0)) = 2" by simp
  have fits: "payload_sectors (id (replicate 5000 0)) \<le> 255" by (simp only: two)
  have small: "length (used (open_region [])) + 255 \<le> 2 ^ 24" by (simp add: open_empty)
  have zero: "locations (open_region []) ! region_index 0 0 = 0"
    unfolding open_empty using region_index_less [of 0 0] by simp
  have full: "allocate_from [True, True] 2 HEADER_SECTORS None = 2" by (subst allocate_from.simps) simp
  have us: "used (open_region []) = [True, True]" by (simp add: open_empty)
  have ch: "choose_sectors (locations (open_region []) ! region_index 0 0) (payload_sectors (id (replicate 5000 0)))
      (used (open_region [])) = (2, [True, True])"
    unfolding zero two us using full by (simp add: choose_sectors_def allocate_sectors_def)
  obtain r where r: "write_chunk id 0 0 (replicate 5000 0) 7 (open_region []) = (Inr r :: nat persistence_error + region_file)"
    "region_ok r" "length (used r) \<le> length (used (open_region [])) + payload_sectors (id (replicate 5000 0))"
    by (rule write_chunk_state [where compress = id and p = "replicate 5000 0", OF open_empty_ok small fits]) (rule that; assumption)
  have "locations r = (locations (open_region []))[region_index 0 0 := new_loc 2 2]"
    using r(1) unfolding write_chunk_eq [where compress = id and p = "replicate 5000 0", OF fits ch, of 7] sum.inject two by (metis region_file.select_convs(2))
  moreover have "length (locations (open_region [])) = ENTRIES" by (simp add: open_empty)
  ultimately have "locations r ! region_index 0 0 = new_loc 2 2" using region_index_less [of 0 0] by simp
  then show ?thesis using r plain by (auto simp: open_empty)
qed

lemma shrinking_leaks_sectors_witness:
  "\<exists>r r'. write_chunk id 0 0 (replicate 5000 0) 7 (open_region []) = (Inr r :: nat persistence_error + region_file) \<and>
     write_chunk id 0 0 [1] 8 r = (Inr r' :: nat persistence_error + region_file) \<and> used r' ! 3 \<and>
     (\<forall>loc \<in> set (locations r'). \<not> covers loc 3)"
proof -
  obtain r where r: "write_chunk id 0 0 (replicate 5000 0) 7 (open_region []) = (Inr r :: nat persistence_error + region_file)"
    "region_ok r" "length (used r) \<le> 4" "locations r ! region_index 0 0 = new_loc 2 2"
    using two_sectors_written by blast
  have loc: "loc_off (new_loc 2 2) = 2" "loc_cnt (new_loc 2 2) = 2" "new_loc 2 2 \<noteq> 0"
    using new_loc_fields [of 2 2] by simp_all
  have "payload_sectors (id [1]) = 1" by (simp add: payload_sectors_def div_ceil_def)
  then show ?thesis
    using shrinking_leaks_sectors [of r 0 0 id "[1]" 3 8] r loc by auto
qed

end
