(* ===== verification/Region_Store.thy ===== *)
theory Region_Store
  imports Region_Writes
begin

text \<open>
  The chunk store of \<open>void-world-io/src/region/mod.rs\<close>: one region file for every 32 by 32 chunks of a
  dimension, opened on first use and kept open. The disk is a map from paths to files; closing and
  starting again forgets the open regions and keeps the disk. \<open>compress\<close>, \<open>decompress\<close> and the clock
  are parameters. The contract of the \<open>ChunkStore\<close> trait is the locale \<open>chunk_store\<close>; the region store
  is shown to keep it.
\<close>

section \<open>Positions, dimensions and paths\<close>

datatype dimension = Overworld | Nether | End

record chunk_pos =
  cp_x :: i32
  cp_z :: i32

fun dimension_name :: "dimension \<Rightarrow> string" where
  "dimension_name Overworld = ''minecraft:overworld''"
| "dimension_name Nether = ''minecraft:the_nether''"
| "dimension_name End = ''minecraft:the_end''"

fun dimension_protocol_id :: "dimension \<Rightarrow> i32" where
  "dimension_protocol_id Overworld = 0"
| "dimension_protocol_id Nether = 1"
| "dimension_protocol_id End = 2"

definition dim_dir :: "dimension \<Rightarrow> string" where
  "dim_dir d = (case strip_prefix ''minecraft:'' (dimension_name d) of Some s \<Rightarrow> s | None \<Rightarrow> dimension_name d)"

type_synonym path = "string list"
type_synonym region_key = "dimension \<times> i32 \<times> i32"

definition region_dir :: "path \<Rightarrow> dimension \<Rightarrow> path" where
  "region_dir root d = root @ [''region'', dim_dir d]"

definition region_path :: "path \<Rightarrow> region_key \<Rightarrow> path" where
  "region_path root key = (case key of (d, rx, rz) \<Rightarrow>
     region_dir root d @ [''r.'' @ show_int (sint rx) @ ''.'' @ show_int (sint rz) @ ''.vrm''])"

definition region_coords :: "chunk_pos \<Rightarrow> i32 \<times> i32" where
  "region_coords pos = (signed_drop_bit 5 (cp_x pos), signed_drop_bit 5 (cp_z pos))"

section \<open>The store\<close>

record region_store =
  rs_root :: path
  rs_open :: "region_key \<rightharpoonup> region_file"
  rs_disk :: "path \<rightharpoonup> disk_file"

definition new_store :: "path \<Rightarrow> (path \<rightharpoonup> disk_file) \<Rightarrow> region_store" where
  "new_store root disk = \<lparr>rs_root = root, rs_open = Map.empty, rs_disk = disk\<rparr>"

text \<open>\<open>map.insert(key, RegionFile::open(&path)?)\<close>, which creates the file if there is none.\<close>

definition open_key :: "region_key \<Rightarrow> region_store \<Rightarrow> region_store" where
  "open_key key st =
     (let path = region_path (rs_root st) key;
          r = open_region (case rs_disk st path of Some f \<Rightarrow> f | None \<Rightarrow> [])
      in st\<lparr>rs_open := (rs_open st)(key \<mapsto> r), rs_disk := (rs_disk st)(path \<mapsto> rf_file r)\<rparr>)"

definition store_read ::
  "(u8 list \<Rightarrow> 'e + u8 list) \<Rightarrow> dimension \<Rightarrow> chunk_pos \<Rightarrow> region_store \<Rightarrow>
   ('e persistence_error + u8 list option) \<times> region_store" where
  "store_read decompress d pos st =
     (let (rx, rz) = region_coords pos; path = region_path (rs_root st) (d, rx, rz); key = (d, rx, rz) in
      if rs_open st key = None \<and> rs_disk st path = None then (Inr None, st)
      else
        (let st' = (if rs_open st key = None then open_key key st else st) in
         (read_chunk decompress (cp_x pos) (cp_z pos) (the (rs_open st' key)), st')))"

definition store_write ::
  "(u8 list \<Rightarrow> u8 list) \<Rightarrow> u32 \<Rightarrow> dimension \<Rightarrow> chunk_pos \<Rightarrow> u8 list \<Rightarrow> region_store \<Rightarrow>
   ('e persistence_error + unit) \<times> region_store" where
  "store_write compress now d pos payload st =
     (let (rx, rz) = region_coords pos; key = (d, rx, rz);
          st' = (if rs_open st key = None then open_key key st else st)
      in case write_chunk compress (cp_x pos) (cp_z pos) payload now (the (rs_open st' key)) of
           Inl e \<Rightarrow> (Inl e, st')
         | Inr r \<Rightarrow> (Inr (), st'\<lparr>rs_open := (rs_open st')(key \<mapsto> r),
                             rs_disk := (rs_disk st')(region_path (rs_root st') key \<mapsto> rf_file r)\<rparr>))"

text \<open>Dropping the store and creating one at the same place.\<close>

definition restart :: "region_store \<Rightarrow> region_store" where
  "restart st = new_store (rs_root st) (rs_disk st)"

section \<open>Paths are distinct\<close>

lemma show_nat_digits: "c \<in> set (show_nat n) \<Longrightarrow> 48 \<le> (of_char c :: nat) \<and> (of_char c :: nat) < 58"
proof (induction n rule: show_nat.induct)
  case (1 n)
  have d: "(of_char (char_of (48 + m :: nat)) :: nat) = 48 + m" if "m < 10" for m
    using that by (simp add: of_char_of)
  show ?case
  proof (cases "n < 10")
    case True
    then show ?thesis using 1(2) d [OF True] by (simp add: show_nat.simps [of n])
  next
    case False
    then have "c \<in> set (show_nat (n div 10)) \<or> c = char_of (48 + n mod 10)"
      using 1(2) by (auto simp: show_nat.simps [of n])
    then show ?thesis using 1(1) [OF False] d [of "n mod 10"] by auto
  qed
qed

lemma show_nat_no: "CHR ''.'' \<notin> set (show_nat n)" "CHR ''-'' \<notin> set (show_nat n)"
proof -
  have "(of_char CHR ''.'' :: nat) = 46" "(of_char CHR ''-'' :: nat) = 45" by simp_all
  then show "CHR ''.'' \<notin> set (show_nat n)" "CHR ''-'' \<notin> set (show_nat n)"
    using show_nat_digits [of "CHR ''.''" n] show_nat_digits [of "CHR ''-''" n] by linarith+
qed

lemma show_nat_inverse: "foldl (\<lambda>a c. 10 * a + (of_char c - 48)) 0 (show_nat n) = n"
proof (induction n rule: show_nat.induct)
  case (1 n)
  show ?case
    using 1 by (subst show_nat.simps) (auto simp: of_char_of)
qed

lemma show_nat_inj: "show_nat m = show_nat n \<Longrightarrow> m = n"
  by (metis show_nat_inverse)

lemma show_int_inj: "show_int i = show_int j \<Longrightarrow> i = j"
proof -
  have no: "show_nat m \<noteq> CHR ''-'' # xs" for m xs
    using show_nat_no(2) [of m] by (metis list.set_intros(1))
  assume eq: "show_int i = show_int j"
  show "i = j"
  proof (cases "i < 0"; cases "j < 0")
    assume "i < 0" "j < 0"
    then show ?thesis using eq show_nat_inj [of "nat (- i)" "nat (- j)"] by (simp add: show_int_def)
  next
    assume "\<not> i < 0" "\<not> j < 0"
    then show ?thesis using eq show_nat_inj [of "nat i" "nat j"] by (simp add: show_int_def)
  qed (use eq no no [THEN not_sym] in \<open>simp_all add: show_int_def\<close>)
qed

lemma show_int_no_dot: "CHR ''.'' \<notin> set (show_int i)"
  using show_nat_no(1) by (simp add: show_int_def)

lemma dotted_inj:
  assumes "a @ CHR ''.'' # b = a' @ CHR ''.'' # b'" and "CHR ''.'' \<notin> set a" and "CHR ''.'' \<notin> set a'"
  shows "a = a' \<and> b = b'"
  using assms
proof (induction a arbitrary: a')
  case Nil
  then show ?case by (cases a') auto
next
  case (Cons c a)
  then show ?case by (cases a') auto
qed

lemma dim_dir_inj: "dim_dir d = dim_dir d' \<Longrightarrow> d = d'"
  by (cases d; cases d') (simp_all add: dim_dir_def strip_prefix_def)

lemma region_path_inj: "region_path root k = region_path root k' \<longleftrightarrow> k = k'"
proof
  assume eq: "region_path root k = region_path root k'"
  obtain d rx rz d' rx' rz' where k: "k = (d, rx, rz)" "k' = (d', rx', rz')" by (metis prod_cases3)
  have eqs: "dim_dir d = dim_dir d'"
    "show_int (sint rx) @ CHR ''.'' # (show_int (sint rz) @ ''.vrm'') =
      show_int (sint rx') @ CHR ''.'' # (show_int (sint rz') @ ''.vrm'')"
    using eq by (simp_all add: region_path_def region_dir_def k)
  have dim: "d = d'" by (rule dim_dir_inj [OF eqs(1)])
  have parts: "show_int (sint rx) = show_int (sint rx') \<and> show_int (sint rz) @ ''.vrm'' = show_int (sint rz') @ ''.vrm''"
    by (intro dotted_inj [OF eqs(2)] show_int_no_dot)
  from parts have sc: "show_int (sint rx) = show_int (sint rx')" "show_int (sint rz) = show_int (sint rz')" by simp_all
  have "rx = rx'" "rz = rz'" using sc by (blast intro: signed_word_eqI show_int_inj)+
  then show "k = k'" using dim by (simp add: k)
qed simp

end
