(* ===== verification/Chunk_Data.thy ===== *)
theory Chunk_Data
  imports Chunk_Cells Nbt_Tree Region_Store "HOL-Library.AList"
begin

text \<open>
  A loaded chunk (\<open>void/src/world/chunk_entity.rs\<close>): its sections, and the block entities that sit on
  blocks which host them (\<open>void/src/world/block_entity.rs\<close>, \<open>void-protocol/src/block_entity.rs\<close>). The
  hash maps of block entities are association lists without duplicate keys, in the order they happen
  to be iterated in; nothing depends on that order. The registry of block entity types is generated
  data and a parameter. A panic is \<open>None\<close>, overflow checks and \<open>debug_assert!\<close> included.
\<close>

section \<open>Positions\<close>

record block_position =
  bp_x :: i32
  bp_y :: i16
  bp_z :: i32

record local_block_pos =
  lb_x :: u8
  lb_y :: i16
  lb_z :: u8

definition div_euclid16 :: "i32 \<Rightarrow> i32" where
  "div_euclid16 v = word_of_int (sint v div 16)"

definition rem_euclid16 :: "i32 \<Rightarrow> i32" where
  "rem_euclid16 v = word_of_int (sint v mod 16)"

definition i32_checked :: "int \<Rightarrow> i32 option" where
  "i32_checked i = (if - (2 ^ 31) \<le> i \<and> i < 2 ^ 31 then Some (word_of_int i) else None)"

definition chunk_of :: "block_position \<Rightarrow> chunk_pos" where
  "chunk_of pos = \<lparr>cp_x = div_euclid16 (bp_x pos), cp_z = div_euclid16 (bp_z pos)\<rparr>"

definition local_of :: "chunk_pos \<Rightarrow> block_position \<Rightarrow> local_block_pos option" where
  "local_of chunk pos =
     (if chunk_of pos = chunk
      then Some \<lparr>lb_x = ucast (rem_euclid16 (bp_x pos)), lb_y = bp_y pos,
                 lb_z = ucast (rem_euclid16 (bp_z pos))\<rparr>
      else None)"

definition in_chunk :: "chunk_pos \<Rightarrow> local_block_pos \<Rightarrow> block_position option" where
  "in_chunk chunk l =
     do {
       x \<leftarrow> i32_checked (sint (cp_x chunk) * 16 + uint (lb_x l));
       z \<leftarrow> i32_checked (sint (cp_z chunk) * 16 + uint (lb_z l));
       Some \<lparr>bp_x = x, bp_y = lb_y l, bp_z = z\<rparr>
     }"

abbreviation CHUNK_MIN_Y :: int where "CHUNK_MIN_Y \<equiv> - 64"
abbreviation CHUNK_MAX_Y :: int where "CHUNK_MAX_Y \<equiv> 319"

definition world_y_to_section :: "i32 \<Rightarrow> (nat \<times> u8) option" where
  "world_y_to_section world_y =
     (if CHUNK_MIN_Y \<le> sint world_y \<and> sint world_y \<le> CHUNK_MAX_Y then
        (let shifted = nat (sint world_y - CHUNK_MIN_Y)
         in Some (shifted div 16, word_of_nat (shifted mod 16)))
      else None)"

section \<open>Block entities\<close>

record block_entity_kind =
  kind_id :: i32
  kind_name :: string

text \<open>The generated tables: type id of a name, name of a type id, type of a block state.\<close>

record kind_registry =
  type_id :: "string \<Rightarrow> i32 option"
  type_name :: "i32 \<Rightarrow> string option"
  state_type :: "i32 \<Rightarrow> string option"

definition kind_from_name :: "kind_registry \<Rightarrow> string \<Rightarrow> block_entity_kind option" where
  "kind_from_name reg n =
     do { i \<leftarrow> type_id reg n; n' \<leftarrow> type_name reg i; Some \<lparr>kind_id = i, kind_name = n'\<rparr> }"

definition kind_from_id :: "kind_registry \<Rightarrow> i32 \<Rightarrow> block_entity_kind option" where
  "kind_from_id reg i = do { n \<leftarrow> type_name reg i; Some \<lparr>kind_id = i, kind_name = n\<rparr> }"

definition kind_for_block_state :: "kind_registry \<Rightarrow> i32 \<Rightarrow> block_entity_kind option" where
  "kind_for_block_state reg block_state_id =
     do { n \<leftarrow> state_type reg block_state_id; kind_from_name reg n }"

definition hosted_by :: "kind_registry \<Rightarrow> block_entity_kind \<Rightarrow> i32 \<Rightarrow> bool" where
  "hosted_by reg k block_state_id \<longleftrightarrow> kind_for_block_state reg block_state_id = Some k"

record block_entity =
  be_kind :: block_entity_kind
  be_data :: compound

datatype block_entity_error =
    ChunkNotLoaded
  | OutsideWorld
  | WrongBlock i32 block_entity_kind

section \<open>Chunks\<close>

record chunk_heightmaps =
  motion_blocking :: "i64 list"

record light_data =
  sky_light_mask :: "u64 list"
  block_light_mask :: "u64 list"
  empty_sky_light_mask :: "u64 list"
  empty_block_light_mask :: "u64 list"
  sky_light_arrays :: "u8 list list"
  block_light_arrays :: "u8 list list"

definition empty_heightmaps :: chunk_heightmaps where
  "empty_heightmaps = \<lparr>motion_blocking = replicate 37 0\<rparr>"

definition empty_light :: light_data where
  "empty_light = \<lparr>sky_light_mask = [0], block_light_mask = [0], empty_sky_light_mask = [0x3FFFFFF],
     empty_block_light_mask = [0x3FFFFFF], sky_light_arrays = [], block_light_arrays = []\<rparr>"

definition full_sky_light :: light_data where
  "full_sky_light = \<lparr>sky_light_mask = [0x3FFFFFF], block_light_mask = [0], empty_sky_light_mask = [0],
     empty_block_light_mask = [0x3FFFFFF], sky_light_arrays = replicate 26 (replicate 2048 0xFF),
     block_light_arrays = []\<rparr>"

record chunk_data =
  sections :: "chunk_section list"
  heightmaps :: chunk_heightmaps
  light :: light_data
  block_entities :: "(local_block_pos \<times> block_entity) list"
  pending_block_entities :: "(local_block_pos \<times> block_entity_kind) list"

definition new_chunk_data :: "chunk_section list \<Rightarrow> chunk_heightmaps \<Rightarrow> light_data \<Rightarrow> chunk_data" where
  "new_chunk_data ss h l = \<lparr>sections = ss, heightmaps = h, light = l, block_entities = [],
     pending_block_entities = []\<rparr>"

definition get_block :: "u8 \<Rightarrow> i32 \<Rightarrow> u8 \<Rightarrow> chunk_data \<Rightarrow> i32 option option" where
  "get_block x world_y z cd =
     (case world_y_to_section world_y of
        None \<Rightarrow> Some None
      | Some (section_idx, local_y) \<Rightarrow>
          (case slice_get (sections cd) section_idx of
             None \<Rightarrow> Some None
           | Some s \<Rightarrow> map_option Some (get_block_state x local_y z s)))"

definition set_block ::
  "kind_registry \<Rightarrow> u8 \<Rightarrow> i32 \<Rightarrow> u8 \<Rightarrow> i32 \<Rightarrow> chunk_data \<Rightarrow> (i32 option \<times> chunk_data) option" where
  "set_block reg x world_y z block_state_id cd =
     (case world_y_to_section world_y of
        None \<Rightarrow> Some (None, cd)
      | Some (section_idx, local_y) \<Rightarrow>
          (case slice_get (sections cd) section_idx of
             None \<Rightarrow> Some (None, cd)
           | Some s \<Rightarrow>
               (case set_block_state x local_y z block_state_id s of
                  None \<Rightarrow> None
                | Some (previous, s') \<Rightarrow>
                    (let cd' = cd\<lparr>sections := (sections cd)[section_idx := s']\<rparr> in
                     if previous \<noteq> block_state_id \<and> block_entities cd \<noteq> [] then
                       (let l = \<lparr>lb_x = x, lb_y = ucast world_y, lb_z = z\<rparr>;
                            stale = (case map_of (block_entities cd) l of
                                       Some be \<Rightarrow> \<not> hosted_by reg (be_kind be) block_state_id
                                     | None \<Rightarrow> False)
                        in if stale then
                             Some (Some previous, cd'\<lparr>
                               block_entities := AList.delete l (block_entities cd),
                               pending_block_entities := AList.delete l (pending_block_entities cd)\<rparr>)
                           else Some (Some previous, cd'))
                     else Some (Some previous, cd')))))"

definition block_entity_of :: "chunk_pos \<Rightarrow> block_position \<Rightarrow> chunk_data \<Rightarrow> block_entity option option" where
  "block_entity_of chunk pos cd =
     do { l \<leftarrow> local_of chunk pos; Some (map_of (block_entities cd) l) }"

definition all_block_entities :: "chunk_pos \<Rightarrow> chunk_data \<Rightarrow> (block_position \<times> block_entity) list option" where
  "all_block_entities chunk cd =
     those (map (\<lambda>(l, be). map_option (\<lambda>p. (p, be)) (in_chunk chunk l)) (block_entities cd))"

definition set_block_entity ::
  "kind_registry \<Rightarrow> chunk_pos \<Rightarrow> block_position \<Rightarrow> block_entity \<Rightarrow> chunk_data \<Rightarrow>
   ((block_entity_error + block_entity option) \<times> chunk_data) option" where
  "set_block_entity reg chunk pos be cd =
     do {
       l \<leftarrow> local_of chunk pos;
       state \<leftarrow> get_block (lb_x l) (scast (lb_y l)) (lb_z l) cd;
       Some (case state of
           None \<Rightarrow> (Inl OutsideWorld, cd)
         | Some bs \<Rightarrow>
             if hosted_by reg (be_kind be) bs then
               (Inr (map_of (block_entities cd) l),
                cd\<lparr>pending_block_entities := AList.update l (be_kind be) (pending_block_entities cd),
                   block_entities := AList.update l be (block_entities cd)\<rparr>)
             else (Inl (WrongBlock bs (be_kind be)), cd))
     }"

fun restore_block_entities ::
  "kind_registry \<Rightarrow> chunk_pos \<Rightarrow> (block_position \<times> block_entity) list \<Rightarrow> chunk_data \<Rightarrow> chunk_data option" where
  "restore_block_entities reg chunk [] cd = Some cd"
| "restore_block_entities reg chunk ((pos, be) # rest) cd =
     do {
       l \<leftarrow> local_of chunk pos;
       state \<leftarrow> get_block (lb_x l) (scast (lb_y l)) (lb_z l) cd;
       restore_block_entities reg chunk rest
         (if (case state of Some s \<Rightarrow> hosted_by reg (be_kind be) s | None \<Rightarrow> False)
          then cd\<lparr>block_entities := AList.update l be (block_entities cd)\<rparr> else cd)
     }"

definition remove_block_entity ::
  "chunk_pos \<Rightarrow> block_position \<Rightarrow> chunk_data \<Rightarrow> (block_entity option \<times> chunk_data) option" where
  "remove_block_entity chunk pos cd =
     do {
       l \<leftarrow> local_of chunk pos;
       Some (case map_of (block_entities cd) l of
           None \<Rightarrow> (None, cd)
         | Some removed \<Rightarrow>
             (Some removed, cd\<lparr>block_entities := AList.delete l (block_entities cd),
                pending_block_entities := AList.update l (be_kind removed) (pending_block_entities cd)\<rparr>))
     }"

definition take_pending_block_entities ::
  "chunk_pos \<Rightarrow> chunk_data \<Rightarrow> ((block_position \<times> block_entity_kind) list \<times> chunk_data) option" where
  "take_pending_block_entities chunk cd =
     do {
       ps \<leftarrow> those (map (\<lambda>(l, k). map_option (\<lambda>p. (p, k)) (in_chunk chunk l)) (pending_block_entities cd));
       Some (ps, cd\<lparr>pending_block_entities := []\<rparr>)
     }"

definition has_pending_block_entities :: "chunk_data \<Rightarrow> bool" where
  "has_pending_block_entities cd \<longleftrightarrow> pending_block_entities cd \<noteq> []"

end
