(* ===== verification/Chunk_World.thy ===== *)
theory Chunk_World
  imports Chunk_Data
begin

text \<open>
  A chunk is an array of blocks between y = -64 and y = 319 whose block entities sit on blocks that host
  them: what each operation of \<open>Chunk_Data\<close> does to the blocks, and that all keep the invariant.
\<close>

section \<open>Heights\<close>

lemma world_y_Some:
  "world_y_to_section y = Some (i, ly) \<longleftrightarrow> - 64 \<le> sint y \<and> sint y \<le> 319 \<and>
     i = nat (sint y + 64) div 16 \<and> ly = word_of_nat (nat (sint y + 64) mod 16)"
  by (auto simp: world_y_to_section_def Let_def)

lemma small_u8: "n < 256 \<Longrightarrow> unat (word_of_nat n :: u8) = n"
  by (simp add: unsigned_of_nat take_bit_nat_eq_self)

lemma local_y_less: "world_y_to_section y = Some (i, ly) \<Longrightarrow> ly < 16"
  by (auto simp: world_y_Some word_less_nat_alt small_u8)

lemma world_y_inj:
  assumes "world_y_to_section y = Some (i, ly)" and "world_y_to_section y' = Some (i, ly)"
  shows "y = y'"
proof -
  let ?n = "nat (sint y + 64)" and ?m = "nat (sint y' + 64)"
  have y: "- 64 \<le> sint y" "- 64 \<le> sint y'" "?n div 16 = ?m div 16"
    "(word_of_nat (?n mod 16) :: u8) = word_of_nat (?m mod 16)"
    using assms by (simp_all add: world_y_Some)
  have "?n mod 16 < 256" "?m mod 16 < 256" by simp_all
  then have "?n mod 16 = ?m mod 16" using y(4) small_u8 by metis
  then have "?n = ?m" using y(3) by (metis div_mult_mod_eq)
  then have "sint y = sint y'" using y(1,2) by simp
  then show ?thesis by (rule signed_word_eqI)
qed

lemma scast_i16: "- 64 \<le> sint y \<Longrightarrow> sint y \<le> 319 \<Longrightarrow> scast (ucast y :: i16) = (y :: i32)"
proof -
  assume y: "- 64 \<le> sint y" "sint y \<le> 319"
  have "take_bit 16 (sint y) = take_bit 16 (uint y)" by (simp add: sint_uint take_bit_signed_take_bit)
  then have "take_bit 16 (uint y + 32768) = take_bit 16 (sint y + 32768)" by (metis take_bit_add)
  then have "sint (ucast y :: i16) = signed_take_bit 15 (sint y)"
    by (simp add: signed_ucast_eq signed_take_bit_eq_take_bit_shift)
  also have "\<dots> = sint y" using y by (intro signed_take_bit_int_eq_self) auto
  finally show "scast (ucast y :: i16) = y" by (simp add: scast_eq)
qed

lemma ucast_scast_i16: "ucast (scast w :: i32) = (w :: i16)"
  by (rule bit_word_eqI) (auto simp: bit_simps)

section \<open>The blocks of a chunk\<close>

definition sections_ok :: "chunk_data \<Rightarrow> bool" where
  "sections_ok cd \<longleftrightarrow> (\<forall>s \<in> set (sections cd). palette_ok 4096 (block_state s) \<and>
     block_count s = word_of_nat (solid (block_state s)))"

text \<open>The section a write at height \<open>y\<close> goes to, if there is one, can take the block: see \<open>has_room\<close>.\<close>

definition chunk_room :: "i32 \<Rightarrow> i32 \<Rightarrow> chunk_data \<Rightarrow> bool" where
  "chunk_room y v cd \<longleftrightarrow>
     (case world_y_to_section y of
        Some (i, _) \<Rightarrow> i < length (sections cd) \<longrightarrow> has_room v (block_state (sections cd ! i))
      | None \<Rightarrow> True)"

lemma get_block_congI: "sections cd' = sections cd \<Longrightarrow> get_block x y z cd' = get_block x y z cd"
  by (simp only: get_block_def)

lemma get_block_at:
  "world_y_to_section y = Some (i, ly) \<Longrightarrow> get_block x y z cd =
     (if i < length (sections cd) then map_option Some (get_block_state x ly z (sections cd ! i)) else Some None)"
  by (simp add: get_block_def slice_get_def)

lemma get_block_outside: "world_y_to_section y = None \<Longrightarrow> get_block x y z cd = Some None"
  by (simp add: get_block_def)

lemma get_block_total:
  assumes "sections_ok cd" and "x < 16" and "z < 16"
  shows "\<exists>b. get_block x y z cd = Some b"
proof (cases "world_y_to_section y")
  case None
  then show ?thesis by (simp add: get_block_def)
next
  case (Some q)
  then obtain i ly where q: "world_y_to_section y = Some (i, ly)" by (cases q) auto
  obtain k where k: "local_index x ly z = Some k"
    using assms(2,3) local_y_less [OF q] by (simp add: local_index_def)
  have "palette_ok 4096 (block_state (sections cd ! i))" if "i < length (sections cd)"
    using assms(1) that by (auto simp: sections_ok_def)
  then show ?thesis
    by (simp add: get_block_at [OF q] get_block_state_def k palette_entry_cell [OF _ local_index_less [OF k]])
qed

lemma set_block_spec:
  assumes ok: "sections_ok cd" and room: "chunk_room y v cd" and xz: "x < 16" "z < 16"
  obtains old cd' where "set_block reg x y z v cd = Some (old, cd')" and "get_block x y z cd = Some old"
    and "sections_ok cd'"
    and "\<And>x' y' z'. get_block x' y' z' cd' =
      (if x' = x \<and> y' = y \<and> z' = z \<and> old \<noteq> None then Some (Some v) else get_block x' y' z' cd)"
    and "block_entities cd' = (if old \<noteq> None \<and> old \<noteq> Some v \<and>
        (\<exists>be. map_of (block_entities cd) \<lparr>lb_x = x, lb_y = ucast y, lb_z = z\<rparr> = Some be \<and> \<not> hosted_by reg (be_kind be) v)
      then AList.delete \<lparr>lb_x = x, lb_y = ucast y, lb_z = z\<rparr> (block_entities cd) else block_entities cd)"
    and "pending_block_entities cd' = pending_block_entities cd \<or>
      pending_block_entities cd' = AList.delete \<lparr>lb_x = x, lb_y = ucast y, lb_z = z\<rparr> (pending_block_entities cd)"
proof (cases "world_y_to_section y")
  case None
  then show thesis using ok by (intro that [of None cd]) (auto simp: set_block_def get_block_def)
next
  case (Some q)
  then obtain i ly where q: "world_y_to_section y = Some (i, ly)" by (cases q) auto
  show thesis
  proof (cases "i < length (sections cd)")
    case False
    then show thesis using ok by (intro that [of None cd]) (auto simp: set_block_def get_block_at [OF q] q slice_get_def)
  next
    case True
    let ?s = "sections cd ! i" and ?l = "\<lparr>lb_x = x, lb_y = ucast y, lb_z = z\<rparr> :: local_block_pos"
    have get: "slice_get (sections cd) i = Some ?s" using True by simp
    have s: "palette_ok 4096 (block_state ?s)" "block_count ?s = word_of_nat (solid (block_state ?s))"
      "has_room v (block_state ?s)"
      using ok room True by (auto simp: sections_ok_def chunk_room_def q)
    obtain k where k: "local_index x ly z = Some k"
      using xz local_y_less [OF q] by (simp add: local_index_def)
    obtain old s' where s': "set_block_state x ly z v ?s = Some (old, s')"
      "get_block_state x ly z ?s = Some old"
      "palette_ok 4096 (block_state s')" "block_count s' = word_of_nat (solid (block_state s'))"
      and cells: "\<And>x' y' z'. get_block_state x' y' z' s' =
        (if x' = x \<and> y' = ly \<and> z' = z then Some v else get_block_state x' y' z' ?s)"
      using set_block_state_get [OF s(1,3) k s(2)] by blast
    define cd1 where "cd1 = cd\<lparr>sections := (sections cd)[i := s']\<rparr>"
    have sec1: "sections cd1 = (sections cd)[i := s']" by (simp add: cd1_def)
    have reads: "get_block x' y' z' cd1 =
        (if x' = x \<and> y' = y \<and> z' = z then Some (Some v) else get_block x' y' z' cd)" for x' y' z'
    proof (cases "world_y_to_section y'")
      case None
      then show ?thesis using q by (auto simp: get_block_outside)
    next
      case (Some r)
      then obtain i' ly' where r: "world_y_to_section y' = Some (i', ly')" by (cases r) auto
      have "i' = i \<and> ly' = ly \<longleftrightarrow> y' = y" 
        using world_y_inj [OF q, of y'] r q by (metis option.inject prod.inject)
      then show ?thesis
        using cells [of x' ly' z'] True
        by (cases "i' = i") (auto simp: get_block_at [OF r] sec1 nth_list_update)
    qed
    have sok: "sections_ok cd'" if "sections cd' = sections cd1" for cd'
      using ok s' set_update_subset_insert [of "sections cd" i s'] that by (auto simp: sections_ok_def sec1)
    have old: "get_block x y z cd = Some (Some old)" using True by (simp add: get_block_at [OF q] s')
    define stale where "stale = (old \<noteq> v \<and> (\<exists>be. map_of (block_entities cd) ?l = Some be \<and> \<not> hosted_by reg (be_kind be) v))"
    define cd2 where "cd2 = (if stale then cd1\<lparr>block_entities := AList.delete ?l (block_entities cd),
        pending_block_entities := AList.delete ?l (pending_block_entities cd)\<rparr> else cd1)"
    have set: "set_block reg x y z v cd = Some (Some old, cd2)"
      unfolding set_block_def q get s' option.case prod.case Let_def cd1_def [symmetric] cd2_def stale_def
      by (cases "block_entities cd = []"; cases "map_of (block_entities cd) ?l") auto
    have sec2: "sections cd2 = sections cd1" by (simp add: cd2_def)
    show thesis
    proof (rule that [of "Some old" cd2])
      show "get_block x' y' z' cd2 = (if x' = x \<and> y' = y \<and> z' = z \<and> Some old \<noteq> None then Some (Some v)
          else get_block x' y' z' cd)" for x' y' z'
        by (simp add: get_block_congI [OF sec2] reads)
    qed (use set old sok [OF sec2] in \<open>auto simp: cd2_def stale_def cd1_def\<close>)
  qed
qed

text \<open>C29: as long as the palette of its section has room for the block, writing a block of a chunk
  returns the block that was there and changes exactly that block; positions
  below y = -64, above y = 319 or in a missing section change nothing and read as none.\<close>

theorem set_block_updates:
  assumes "sections_ok cd" and "chunk_room y v cd" and "x < 16" and "z < 16"
  shows "\<exists>old cd'. set_block reg x y z v cd = Some (old, cd') \<and> get_block x y z cd = Some old \<and> sections_ok cd' \<and>
    (old = None \<longleftrightarrow> sint y < - 64 \<or> 319 < sint y \<or> int (length (sections cd)) \<le> (sint y + 64) div 16) \<and>
    (\<forall>x' y' z'. get_block x' y' z' cd' =
      (if x' = x \<and> y' = y \<and> z' = z \<and> old \<noteq> None then Some (Some v) else get_block x' y' z' cd))"
proof -
  obtain old cd' where s: "set_block reg x y z v cd = Some (old, cd')" "get_block x y z cd = Some old" "sections_ok cd'"
    "\<And>x' y' z'. get_block x' y' z' cd' =
      (if x' = x \<and> y' = y \<and> z' = z \<and> old \<noteq> None then Some (Some v) else get_block x' y' z' cd)"
    using set_block_spec [OF assms] by metis
  have "old = None \<longleftrightarrow> sint y < - 64 \<or> 319 < sint y \<or> int (length (sections cd)) \<le> (sint y + 64) div 16"
  proof (cases "world_y_to_section y")
    case None
    then show ?thesis using s(2) by (auto simp: get_block_def world_y_to_section_def Let_def split: if_splits)
  next
    case (Some q)
    then obtain i ly where q: "world_y_to_section y = Some (i, ly)" by (cases q) auto
    then have "int i = (sint y + 64) div 16" by (simp add: world_y_Some zdiv_int)
    then show ?thesis
      using q s(2) by (auto simp: get_block_at [OF q] world_y_Some split: if_splits)
  qed
  then show ?thesis using s by blast
qed

abbreviation empty_chunk :: chunk_data where
  "empty_chunk \<equiv> new_chunk_data (replicate 24 empty_section) empty_heightmaps empty_light"

lemma empty_chunk_ok: "sections_ok empty_chunk" "chunk_room y v empty_chunk"
  by (simp_all add: sections_ok_def chunk_room_def new_chunk_data_def empty_section_def palette_ok_def has_room_def
      solid_def cell_def split: option.split)

abbreviation no_kinds :: kind_registry where
  "no_kinds \<equiv> \<lparr>type_id = Map.empty, type_name = Map.empty, state_type = Map.empty\<rparr>"

lemma set_block_updates_witness:
  "\<exists>old cd'. set_block no_kinds 2 (- 60) 5 7 empty_chunk = Some (old, cd') \<and>
     get_block 2 (- 60) 5 cd' = Some (Some 7) \<and> get_block 2 320 5 cd' = get_block 2 320 5 empty_chunk"
proof -
  have "\<not> (sint (- 60 :: i32) < - 64 \<or> 319 < sint (- 60 :: i32) \<or>
      int (length (sections empty_chunk)) \<le> (sint (- 60 :: i32) + 64) div 16)"
    by (simp add: new_chunk_data_def)
  then show ?thesis
    using set_block_updates [OF empty_chunk_ok, of 2 5 no_kinds "- 60" 7] by (auto simp del: Not_eq_iff)
qed

section \<open>Block entities sit on blocks that host them\<close>

definition chunk_ok :: "kind_registry \<Rightarrow> chunk_data \<Rightarrow> bool" where
  "chunk_ok reg cd \<longleftrightarrow> sections_ok cd \<and>
     distinct (map fst (block_entities cd)) \<and> distinct (map fst (pending_block_entities cd)) \<and>
     (\<forall>l be. map_of (block_entities cd) l = Some be \<longrightarrow> lb_x l < 16 \<and> lb_z l < 16 \<and>
        (\<exists>s. get_block (lb_x l) (scast (lb_y l)) (lb_z l) cd = Some (Some s) \<and> hosted_by reg (be_kind be) s))"

lemma local_of_less:
  assumes "local_of chunk pos = Some l"
  shows "lb_x l < 16" and "lb_z l < 16"
proof -
  have "(ucast (rem_euclid16 v) :: u8) < 16" for v
  proof -
    have "uint (rem_euclid16 v) = sint v mod 16"
      unfolding rem_euclid16_def
      by (simp add: unsigned_of_int take_bit_int_eq_self pos_mod_bound [THEN order.strict_trans])
    then have "unat (rem_euclid16 v) = nat (sint v mod 16)" by (simp flip: nat_uint_eq)
    then have "unat (ucast (rem_euclid16 v) :: u8) < 16"
      by (simp add: unsigned_ucast_eq take_bit_nat_eq_self nat_less_iff)
    then show ?thesis by (simp add: word_less_nat_alt)
  qed
  then show "lb_x l < 16" "lb_z l < 16" using assms by (auto simp: local_of_def split: if_splits)
qed

lemma chunk_ok_update:
  assumes ok: "chunk_ok reg cd" and l: "lb_x l < 16" "lb_z l < 16"
    and host: "get_block (lb_x l) (scast (lb_y l)) (lb_z l) cd = Some (Some s)" "hosted_by reg (be_kind be) s"
    and cd': "sections cd' = sections cd" "block_entities cd' = AList.update l be (block_entities cd)"
      "distinct (map fst (pending_block_entities cd'))"
  shows "chunk_ok reg cd'"
proof -
  have "sections_ok cd'" using ok cd'(1) by (simp add: chunk_ok_def sections_ok_def)
  moreover have "distinct (map fst (block_entities cd'))"
    using ok by (simp add: chunk_ok_def cd'(2) distinct_update)
  ultimately show ?thesis
    using ok l host cd'(3) unfolding chunk_ok_def
    by (auto simp: cd'(2) update_conv' get_block_congI [OF cd'(1)])
qed

lemma chunk_ok_delete:
  assumes ok: "chunk_ok reg cd" and cd': "sections cd' = sections cd"
    "block_entities cd' = AList.delete l (block_entities cd)" "distinct (map fst (pending_block_entities cd'))"
  shows "chunk_ok reg cd'"
proof -
  have "sections_ok cd'" using ok cd'(1) by (simp add: chunk_ok_def sections_ok_def)
  moreover have "distinct (map fst (block_entities cd'))"
    using ok by (simp add: chunk_ok_def cd'(2) distinct_delete)
  ultimately show ?thesis
    using ok cd'(3) unfolding chunk_ok_def
    by (auto simp: cd'(2) delete_conv' get_block_congI [OF cd'(1)] split: if_splits)
qed

lemma chunk_ok_set_block:
  assumes ok: "chunk_ok reg cd" and room: "chunk_room y v cd" and xz: "x < 16" "z < 16"
  shows "\<exists>old cd'. set_block reg x y z v cd = Some (old, cd') \<and> chunk_ok reg cd'"
proof -
  have sok: "sections_ok cd" using ok by (simp add: chunk_ok_def)
  let ?l = "\<lparr>lb_x = x, lb_y = ucast y, lb_z = z\<rparr> :: local_block_pos"
  obtain old cd' where s: "set_block reg x y z v cd = Some (old, cd')" "get_block x y z cd = Some old" "sections_ok cd'"
    and reads: "\<And>x' y' z'. get_block x' y' z' cd' =
      (if x' = x \<and> y' = y \<and> z' = z \<and> old \<noteq> None then Some (Some v) else get_block x' y' z' cd)"
    and bes: "block_entities cd' = (if old \<noteq> None \<and> old \<noteq> Some v \<and>
        (\<exists>be. map_of (block_entities cd) ?l = Some be \<and> \<not> hosted_by reg (be_kind be) v)
      then AList.delete ?l (block_entities cd) else block_entities cd)"
    and pend: "pending_block_entities cd' = pending_block_entities cd \<or>
      pending_block_entities cd' = AList.delete ?l (pending_block_entities cd)"
    by (rule set_block_spec [where reg = reg and y = y, OF sok room xz]) (rule that; assumption)
  have "distinct (map fst (block_entities cd'))" "distinct (map fst (pending_block_entities cd'))"
    using ok bes pend by (auto simp: chunk_ok_def distinct_delete)
  moreover have "lb_x l < 16 \<and> lb_z l < 16 \<and>
      (\<exists>s. get_block (lb_x l) (scast (lb_y l)) (lb_z l) cd' = Some (Some s) \<and> hosted_by reg (be_kind be) s)"
    if be: "map_of (block_entities cd') l = Some be" for l be
  proof -
    have old_be: "map_of (block_entities cd) l = Some be"
      using be bes by (auto simp: delete_conv' split: if_splits)
    then obtain t where t: "lb_x l < 16" "lb_z l < 16"
      "get_block (lb_x l) (scast (lb_y l)) (lb_z l) cd = Some (Some t)" "hosted_by reg (be_kind be) t"
      using ok unfolding chunk_ok_def by blast
    show ?thesis
    proof (cases "lb_x l = x \<and> scast (lb_y l) = y \<and> lb_z l = z \<and> old \<noteq> None")
      case False
      then show ?thesis using t reads by auto
    next
      case True
      then have "ucast y = lb_y l" using ucast_scast_i16 [of "lb_y l"] by auto
      then have l: "l = ?l" using True by simp
      have "hosted_by reg (be_kind be) v"
      proof (rule ccontr)
        assume "\<not> hosted_by reg (be_kind be) v"
        moreover have "old \<noteq> Some v" using calculation t(3,4) s(2) True by auto
        ultimately have "map_of (block_entities cd') l = None"
          using bes True old_be l by (auto simp: delete_conv')
        then show False using be by simp
      qed
      then show ?thesis using t(1,2) reads True by auto
    qed
  qed
  ultimately show ?thesis using s by (auto simp: chunk_ok_def)
qed

lemma chunk_ok_set_entity:
  assumes ok: "chunk_ok reg cd" and s: "set_block_entity reg chunk pos be cd = Some (r, cd')"
  shows "chunk_ok reg cd'"
proof -
  obtain l st where l: "local_of chunk pos = Some l" "get_block (lb_x l) (scast (lb_y l)) (lb_z l) cd = Some st"
    using s by (auto simp: set_block_entity_def split: Option.bind_splits)
  show ?thesis
  proof (cases "\<exists>b. st = Some b \<and> hosted_by reg (be_kind be) b")
    case True
    then obtain b where b: "st = Some b" "hosted_by reg (be_kind be) b" by blast
    have "cd' = cd\<lparr>pending_block_entities := AList.update l (be_kind be) (pending_block_entities cd),
        block_entities := AList.update l be (block_entities cd)\<rparr>"
      using s b by (simp add: set_block_entity_def l)
    then show ?thesis
      using ok l(2) b local_of_less [OF l(1)]
      by (intro chunk_ok_update [OF ok, where l = l and be = be and s = b]) (auto simp: chunk_ok_def distinct_update)
  next
    case False
    then have "cd' = cd" using s by (cases st) (auto simp: set_block_entity_def l split: if_splits)
    then show ?thesis using ok by simp
  qed
qed

lemma chunk_ok_restore:
  "chunk_ok reg cd \<Longrightarrow> restore_block_entities reg chunk entries cd = Some cd' \<Longrightarrow> chunk_ok reg cd'"
proof (induction reg chunk entries cd rule: restore_block_entities.induct)
  case (2 reg chunk pos be rest cd)
  obtain l st where l: "local_of chunk pos = Some l" "get_block (lb_x l) (scast (lb_y l)) (lb_z l) cd = Some st"
    using 2(3) by (auto split: Option.bind_splits)
  let ?cd = "if (case st of Some s \<Rightarrow> hosted_by reg (be_kind be) s | None \<Rightarrow> False)
    then cd\<lparr>block_entities := AList.update l be (block_entities cd)\<rparr> else cd"
  have "chunk_ok reg ?cd"
  proof (cases "\<exists>b. st = Some b \<and> hosted_by reg (be_kind be) b")
    case True
    then obtain b where b: "st = Some b" "hosted_by reg (be_kind be) b" by blast
    have "chunk_ok reg (cd\<lparr>block_entities := AList.update l be (block_entities cd)\<rparr>)"
      using 2(2) l(2) b local_of_less [OF l(1)]
      by (intro chunk_ok_update [OF 2(2), where l = l and be = be and s = b]) (auto simp: chunk_ok_def)
    then show ?thesis using b by simp
  next
    case False
    then show ?thesis using 2(2) by (cases st) auto
  qed
  then show ?case using 2(1) [OF l] 2(3) by (simp add: l)
qed simp

text \<open>C24: every block entity of a chunk sits inside the chunk on a block that hosts its kind, at most one
  to a position. Placing, restoring and removing block entities and taking the queue of updates keep it so, and
  so does setting a block as long as the palette of its section has room for the block (the block is one of the
  palette, or the palette has fewer ids than its eight bits can name); then it also never fails.\<close>

theorem block_entities_stay_hosted:
  assumes ok: "chunk_ok reg cd"
  shows "(x < 16 \<and> z < 16 \<and> chunk_room y v cd \<longrightarrow> (\<exists>old cd'. set_block reg x y z v cd = Some (old, cd') \<and> chunk_ok reg cd')) \<and>
    (set_block_entity reg chunk pos be cd = Some (r, cd1) \<longrightarrow> chunk_ok reg cd1) \<and>
    (restore_block_entities reg chunk entries cd = Some cd2 \<longrightarrow> chunk_ok reg cd2) \<and>
    (remove_block_entity chunk pos cd = Some (removed, cd3) \<longrightarrow> chunk_ok reg cd3) \<and>
    (take_pending_block_entities chunk cd = Some (queue, cd4) \<longrightarrow> chunk_ok reg cd4)"
proof (intro conjI impI)
  show "\<exists>old cd'. set_block reg x y z v cd = Some (old, cd') \<and> chunk_ok reg cd'" if "x < 16 \<and> z < 16 \<and> chunk_room y v cd"
    using chunk_ok_set_block [OF ok] that by blast
  show "chunk_ok reg cd1" if "set_block_entity reg chunk pos be cd = Some (r, cd1)"
    by (rule chunk_ok_set_entity [OF ok that])
  show "chunk_ok reg cd2" if "restore_block_entities reg chunk entries cd = Some cd2"
    by (rule chunk_ok_restore [OF ok that])
  show "chunk_ok reg cd3" if r: "remove_block_entity chunk pos cd = Some (removed, cd3)"
  proof -
    obtain l where l: "local_of chunk pos = Some l" using r by (auto simp: remove_block_entity_def split: Option.bind_splits)
    show ?thesis
    proof (cases "map_of (block_entities cd) l")
      case None
      then show ?thesis using r ok by (simp add: remove_block_entity_def l)
    next
      case (Some b)
      then show ?thesis
        using r ok by (intro chunk_ok_delete [OF ok, where l = l])
          (auto simp: remove_block_entity_def l chunk_ok_def distinct_update)
    qed
  qed
  show "chunk_ok reg cd4" if t: "take_pending_block_entities chunk cd = Some (queue, cd4)"
  proof -
    have cd4: "cd4 = cd\<lparr>pending_block_entities := []\<rparr>"
      using t by (auto simp: take_pending_block_entities_def split: Option.bind_splits)
    have "get_block a b c cd4 = get_block a b c cd" for a b c by (rule get_block_congI) (simp add: cd4)
    then show ?thesis using ok unfolding chunk_ok_def sections_ok_def by (simp add: cd4)
  qed
qed

abbreviation sign_kinds :: kind_registry where
  "sign_kinds \<equiv> \<lparr>type_id = [''minecraft:sign'' \<mapsto> 7], type_name = [7 \<mapsto> ''minecraft:sign''],
     state_type = [4302 \<mapsto> ''minecraft:sign'']\<rparr>"

lemma empty_chunk_hosts: "chunk_ok reg empty_chunk"
  using empty_chunk_ok by (simp add: chunk_ok_def) (simp add: new_chunk_data_def)

lemma block_entities_stay_hosted_witness:
  "\<exists>old cd'. set_block sign_kinds 2 70 5 4302 empty_chunk = Some (old, cd') \<and> chunk_ok sign_kinds cd'"
  using block_entities_stay_hosted [OF empty_chunk_hosts, where x = 2 and y = 70 and z = 5 and v = 4302 and reg = sign_kinds] empty_chunk_ok(2) by simp

end
