(* ===== verification/Chunk_Format.thy ===== *)
theory Chunk_Format
  imports Chunk_World
begin

text \<open>
  The disk format of a chunk (\<open>void-world-io/src/format.rs\<close>): a chunk as an NBT tree and back. Writing
  and parsing the tree is the NBT library's, a parameter. A panic is \<open>None\<close>.
\<close>

section \<open>Palettes and sections\<close>

definition palette_to_nbt :: "palette_data \<Rightarrow> compound" where
  "palette_to_nbt p =
     (case p of
        SingleValue i \<Rightarrow> [(Some ''single'', TInt i)]
      | Indirect bits palette data \<Rightarrow>
          [(Some ''bits'', TByte bits), (Some ''palette'', TIntArray palette), (Some ''data'', TLongArray data)]
      | Direct bits data \<Rightarrow> [(Some ''bits'', TByte bits), (Some ''data'', TLongArray data)])"

definition palette_from_nbt :: "compound \<Rightarrow> 'e persistence_error + palette_data" where
  "palette_from_nbt c =
     (case get_byte_opt c ''bits'' of
        Some bits \<Rightarrow>
          res_bind (get_long_array c ''data'') (\<lambda>data.
            if nbt_field c ''palette'' = None then Inr (Direct bits data)
            else res_bind (get_int_array c ''palette'') (\<lambda>palette. Inr (Indirect bits palette data)))
      | None \<Rightarrow> res_bind (get_int c ''single'') (\<lambda>i. Inr (SingleValue i)))"

definition section_to_nbt :: "chunk_section \<Rightarrow> compound" where
  "section_to_nbt s =
     [(Some ''block_count'', TShort (block_count s)),
      (Some ''block_states'', TCompound (palette_to_nbt (block_state s))),
      (Some ''biome'', TCompound (palette_to_nbt (biome s)))]"

definition section_from_nbt :: "compound \<Rightarrow> 'e persistence_error + chunk_section" where
  "section_from_nbt c =
     res_bind (get_short c ''block_count'') (\<lambda>count.
     res_bind (case nbt_field c ''block_states'' of
         Some (TCompound pc) \<Rightarrow> palette_from_nbt pc | _ \<Rightarrow> Inl (Corrupt ''missing block_states'')) (\<lambda>states.
     res_bind (case nbt_field c ''biome'' of
         Some (TCompound pc) \<Rightarrow> palette_from_nbt pc | _ \<Rightarrow> Inl (Corrupt ''missing biome'')) (\<lambda>b.
     Inr \<lparr>block_count = count, block_state = states, biome = b\<rparr>)))"

section \<open>Heightmaps and light\<close>

definition heightmaps_to_nbt :: "chunk_heightmaps \<Rightarrow> compound" where
  "heightmaps_to_nbt h = [(Some ''motion_blocking'', TLongArray (motion_blocking h))]"

definition heightmaps_from_nbt :: "compound \<Rightarrow> chunk_heightmaps" where
  "heightmaps_from_nbt c =
     \<lparr>motion_blocking = (case (get_long_array c ''motion_blocking'' :: unit persistence_error + i64 list) of
        Inr v \<Rightarrow> v | Inl _ \<Rightarrow> replicate 37 0)\<rparr>"

definition light_to_nbt :: "light_data \<Rightarrow> compound" where
  "light_to_nbt l =
     [(Some ''sky_mask'', u64_long_array (sky_light_mask l)),
      (Some ''block_mask'', u64_long_array (block_light_mask l)),
      (Some ''empty_sky_mask'', u64_long_array (empty_sky_light_mask l)),
      (Some ''empty_block_mask'', u64_long_array (empty_block_light_mask l)),
      (Some ''sky_arrays'', TList (byte_array_list (sky_light_arrays l))),
      (Some ''block_arrays'', TList (byte_array_list (block_light_arrays l)))]"

definition light_from_nbt :: "compound \<Rightarrow> 'e persistence_error + light_data" where
  "light_from_nbt c =
     res_bind (long_array_u64 c ''sky_mask'') (\<lambda>sky.
     res_bind (long_array_u64 c ''block_mask'') (\<lambda>block.
     res_bind (long_array_u64 c ''empty_sky_mask'') (\<lambda>empty_sky.
     res_bind (long_array_u64 c ''empty_block_mask'') (\<lambda>empty_block.
     Inr \<lparr>sky_light_mask = sky, block_light_mask = block, empty_sky_light_mask = empty_sky,
          empty_block_light_mask = empty_block, sky_light_arrays = byte_array_list_from c ''sky_arrays'',
          block_light_arrays = byte_array_list_from c ''block_arrays''\<rparr>))))"

section \<open>Block entities\<close>

abbreviation METADATA_TAGS :: nat where "METADATA_TAGS \<equiv> 4"

definition block_entity_to_nbt :: "block_position \<Rightarrow> block_entity \<Rightarrow> compound" where
  "block_entity_to_nbt pos be =
     [(Some ''id'', TString (Some (kind_name (be_kind be)))), (Some ''x'', TInt (bp_x pos)),
      (Some ''y'', TInt (scast (bp_y pos))), (Some ''z'', TInt (bp_z pos))] @ be_data be"

definition block_entity_from_nbt ::
  "kind_registry \<Rightarrow> compound \<Rightarrow> 'e persistence_error + block_position \<times> block_entity" where
  "block_entity_from_nbt reg c =
     (if map fst (take METADATA_TAGS c) \<noteq> map Some [''id'', ''x'', ''y'', ''z'']
      then Inl (Corrupt ''block entity metadata'')
      else
        res_bind (get_string c ''id'') (\<lambda>name.
          case kind_from_name reg name of
            None \<Rightarrow> Inl (Corrupt (''unknown block entity type '' @ name))
          | Some k \<Rightarrow>
              res_bind (get_int c ''x'') (\<lambda>x.
              res_bind (get_int c ''y'') (\<lambda>y.
              res_bind (get_int c ''z'') (\<lambda>z.
              Inr (\<lparr>bp_x = x, bp_y = ucast y, bp_z = z\<rparr>,
                   \<lparr>be_kind = k, be_data = drop METADATA_TAGS c\<rparr>))))))"

section \<open>Chunks\<close>

record loaded_chunk =
  lc_dimension :: dimension
  lc_x :: i32
  lc_z :: i32
  lc_data :: chunk_data

abbreviation FORMAT_VERSION :: i32 where "FORMAT_VERSION \<equiv> 1"

definition dim_from_protocol_id :: "i32 \<Rightarrow> 'e persistence_error + dimension" where
  "dim_from_protocol_id i =
     (if i = 0 then Inr Overworld else if i = 1 then Inr Nether else if i = 2 then Inr End
      else Inl (Corrupt (''unknown dimension id '' @ show_int (sint i))))"

definition chunk_to_nbt :: "dimension \<Rightarrow> i32 \<Rightarrow> i32 \<Rightarrow> chunk_data \<Rightarrow> bool \<Rightarrow> nbt option" where
  "chunk_to_nbt d x z cd include_light =
     do {
       bes \<leftarrow> all_block_entities \<lparr>cp_x = x, cp_z = z\<rparr> cd;
       Some \<lparr>nbt_name = Some '''', nbt_compound =
         [(Some ''version'', TInt FORMAT_VERSION),
          (Some ''dimension'', TInt (dimension_protocol_id d)),
          (Some ''x'', TInt x),
          (Some ''z'', TInt z),
          (Some ''sections'', TList (LCompound (map section_to_nbt (sections cd)))),
          (Some ''heightmaps'', TCompound (heightmaps_to_nbt (heightmaps cd))),
          (Some ''block_entities'', TList (compound_list (map (\<lambda>(p, be). block_entity_to_nbt p be) bes)))] @
         (if include_light then [(Some ''light'', TCompound (light_to_nbt (light cd)))] else [])\<rparr>
     }"

definition chunk_from_nbt :: "kind_registry \<Rightarrow> nbt \<Rightarrow> ('e persistence_error + loaded_chunk) option" where
  "chunk_from_nbt reg n =
     (let c = nbt_compound n in
      case
        res_bind (get_int c ''dimension'') (\<lambda>dim.
        res_bind (dim_from_protocol_id dim) (\<lambda>d.
        res_bind (get_int c ''x'') (\<lambda>x.
        res_bind (get_int c ''z'') (\<lambda>z.
        res_bind (case nbt_field c ''sections'' of
            Some (TList (LCompound ss)) \<Rightarrow> collect_results (map section_from_nbt ss)
          | Some (TList LEmpty) \<Rightarrow> Inr []
          | _ \<Rightarrow> Inl (Corrupt ''missing/invalid sections'')) (\<lambda>ss.
        let h = (case nbt_field c ''heightmaps'' of
            Some (TCompound hc) \<Rightarrow> heightmaps_from_nbt hc | _ \<Rightarrow> empty_heightmaps)
        in res_bind (case nbt_field c ''light'' of
            Some (TCompound lc) \<Rightarrow> light_from_nbt lc | _ \<Rightarrow> Inr full_sky_light) (\<lambda>l.
        res_bind (case nbt_field c ''block_entities'' of
            Some (TList (LCompound bs)) \<Rightarrow> collect_results (map (block_entity_from_nbt reg) bs)
          | Some (TList LEmpty) \<Rightarrow> Inr []
          | None \<Rightarrow> Inr []
          | _ \<Rightarrow> Inl (Corrupt ''invalid block_entities'')) (\<lambda>bs.
        Inr (d, x, z, new_chunk_data ss h l, bs)))))))) of
        Inl e \<Rightarrow> Some (Inl e)
      | Inr (d, x, z, cd, bs) \<Rightarrow>
          do {
            cd' \<leftarrow> restore_block_entities reg \<lparr>cp_x = x, cp_z = z\<rparr> bs cd;
            Some (Inr \<lparr>lc_dimension = d, lc_x = x, lc_z = z, lc_data = cd'\<rparr>)
          })"

text \<open>The NBT library: writing a tree fails with a message, as parsing does.\<close>

record nbt_library =
  lib_write :: "nbt \<Rightarrow> string + u8 list"
  lib_read :: "u8 list \<Rightarrow> string + nbt"

definition serialize_chunk ::
  "nbt_library \<Rightarrow> dimension \<Rightarrow> i32 \<Rightarrow> i32 \<Rightarrow> chunk_data \<Rightarrow> bool \<Rightarrow> ('e persistence_error + u8 list) option" where
  "serialize_chunk lib d x z cd include_light =
     map_option (\<lambda>n. case lib_write lib n of
         Inl e \<Rightarrow> Inl (Corrupt (''nbt write failed: '' @ e))
       | Inr bytes \<Rightarrow> Inr bytes) (chunk_to_nbt d x z cd include_light)"

definition deserialize_chunk ::
  "nbt_library \<Rightarrow> kind_registry \<Rightarrow> u8 list \<Rightarrow> ('e persistence_error + loaded_chunk) option" where
  "deserialize_chunk lib reg bytes =
     (case lib_read lib bytes of
        Inl e \<Rightarrow> Some (Inl (Corrupt (''nbt read failed: '' @ e)))
      | Inr n \<Rightarrow> chunk_from_nbt reg n)"

section \<open>Round trip\<close>

lemma palette_round: "palette_from_nbt (palette_to_nbt p) = Inr p"
  by (cases p) (simp_all add: palette_from_nbt_def palette_to_nbt_def get_byte_opt_def get_long_array_def
      get_int_array_def get_int_def)

lemma section_round: "section_from_nbt (section_to_nbt s) = Inr s"
  by (simp add: section_from_nbt_def section_to_nbt_def get_short_def palette_round)

lemma heightmaps_round: "heightmaps_from_nbt (heightmaps_to_nbt h) = h"
  by (simp add: heightmaps_from_nbt_def heightmaps_to_nbt_def get_long_array_def)

lemma light_round: "light_from_nbt (light_to_nbt l) = Inr l"
  by (simp add: light_from_nbt_def light_to_nbt_def long_array_u64_def u64_long_array_def get_long_array_def
      byte_array_list_from_def byte_array_list_def)

lemma dimension_round: "dim_from_protocol_id (dimension_protocol_id d) = Inr d"
  by (cases d) (simp_all add: dim_from_protocol_id_def)

lemma block_entity_round:
  assumes "kind_from_name reg (kind_name (be_kind be)) = Some (be_kind be)"
  shows "block_entity_from_nbt reg (block_entity_to_nbt pos be) = Inr (pos, be)"
  using assms
  by (simp add: block_entity_from_nbt_def block_entity_to_nbt_def get_string_def get_int_def ucast_scast_i16)

end
