(* ===== verification/Chunk_Store.thy ===== *)
theory Chunk_Store
  imports Region_Store
begin

text \<open>
  The contract of \<open>trait ChunkStore\<close> (\<open>void-world-io/src/store.rs\<close>) as a locale, and the proof that the
  region store keeps it: a map from dimensions and chunk positions to payloads, whatever regions are
  open, and across restarts.
\<close>

section \<open>The contract\<close>

text \<open>
  \<open>ok n st\<close>: the store is consistent and has room for \<open>n\<close> more writes. A payload that is \<open>storable\<close> is always taken,
  and one that is \<open>readable\<close> comes back whenever the store has reported success.
\<close>

locale chunk_store =
  fixes ok :: "nat \<Rightarrow> 'st \<Rightarrow> bool"
    and load :: "dimension \<Rightarrow> chunk_pos \<Rightarrow> 'st \<Rightarrow> ('e persistence_error + u8 list option) \<times> 'st"
    and save :: "u32 \<Rightarrow> dimension \<Rightarrow> chunk_pos \<Rightarrow> u8 list \<Rightarrow> 'st \<Rightarrow> ('e persistence_error + unit) \<times> 'st"
    and storable :: "u8 list \<Rightarrow> bool"
    and readable :: "u8 list \<Rightarrow> bool"
  assumes ok_less: "ok (Suc n) st \<Longrightarrow> ok n st"
    and read_ok: "ok n st \<Longrightarrow> ok n (snd (load d p st))"
    and read_same: "ok n st \<Longrightarrow> fst (load d' p' (snd (load d p st))) = fst (load d' p' st)"
    and write_ok: "ok (Suc n) st \<Longrightarrow> ok n (snd (save now d p b st))"
    and write_storable: "ok (Suc n) st \<Longrightarrow> storable b \<Longrightarrow>
      fst (save now d p b st) = Inr () \<and> fst (load d p (snd (save now d p b st))) = Inr (Some b)"
    and write_sound: "ok (Suc n) st \<Longrightarrow> readable b \<Longrightarrow> fst (save now d p b st) = Inr () \<Longrightarrow>
      fst (load d p (snd (save now d p b st))) = Inr (Some b)"
    and write_other: "ok (Suc n) st \<Longrightarrow> (d', p') \<noteq> (d, p) \<Longrightarrow>
      fst (load d' p' (snd (save now d p b st))) = fst (load d' p' st)"
    and write_failed: "ok (Suc n) st \<Longrightarrow> fst (save now d p b st) = Inl e \<Longrightarrow>
      fst (load d' p' (snd (save now d p b st))) = fst (load d' p' st)"

section \<open>The region store behind it\<close>

definition key_of :: "dimension \<Rightarrow> chunk_pos \<Rightarrow> region_key" where
  "key_of d pos = (d, region_coords pos)"

text \<open>The region a key stands for, open or not.\<close>

definition region_view :: "region_store \<Rightarrow> region_key \<rightharpoonup> region_file" where
  "region_view st key = (case rs_open st key of
     Some r \<Rightarrow> Some r
   | None \<Rightarrow> map_option open_region (rs_disk st (region_path (rs_root st) key)))"

definition store_ok :: "region_store \<Rightarrow> bool" where
  "store_ok st \<longleftrightarrow>
     (\<forall>key r. rs_open st key = Some r \<longrightarrow> region_ok r \<and> rs_disk st (region_path (rs_root st) key) = Some (rf_file r)) \<and>
     (\<forall>key f. rs_disk st (region_path (rs_root st) key) = Some f \<longrightarrow> (\<exists>r. region_ok r \<and> rf_file r = f))"

text \<open>A location holds 24 bits of sector number; a write takes at most 255 sectors.\<close>

definition room :: "nat \<Rightarrow> region_store \<Rightarrow> bool" where
  "room n st \<longleftrightarrow> 2 + 255 * n \<le> 2 ^ 24 \<and>
     (\<forall>key r. region_view st key = Some r \<longrightarrow> length (used r) + 255 * n \<le> 2 ^ 24)"

definition store_inv :: "nat \<Rightarrow> region_store \<Rightarrow> bool" where
  "store_inv n st \<longleftrightarrow> store_ok st \<and> room n st"

lemma region_view_ok: "store_ok st \<Longrightarrow> region_view st key = Some r \<Longrightarrow> region_ok r"
proof (cases "rs_open st key")
  case (Some q)
  assume "store_ok st" and "region_view st key = Some r"
  then have "rs_open st key = Some r" using Some by (simp add: region_view_def)
  then show ?thesis using \<open>store_ok st\<close> unfolding store_ok_def by blast
next
  case None
  assume ok: "store_ok st" and v: "region_view st key = Some r"
  then obtain f where f: "rs_disk st (region_path (rs_root st) key) = Some f" "r = open_region f"
    using None by (auto simp: region_view_def)
  then obtain q where "region_ok q" "rf_file q = f" using ok unfolding store_ok_def by blast
  then show ?thesis using open_region_ok f(2) by blast
qed

text \<open>Opening a region does not change what it stands for.\<close>

definition region_at :: "region_key \<Rightarrow> region_store \<Rightarrow> region_file" where
  "region_at key st = (case region_view st key of Some r \<Rightarrow> r | None \<Rightarrow> open_region [])"

definition put_region :: "region_key \<Rightarrow> region_file \<Rightarrow> region_store \<Rightarrow> region_store" where
  "put_region key r st = st\<lparr>rs_open := (rs_open st)(key \<mapsto> r),
     rs_disk := (rs_disk st)(region_path (rs_root st) key \<mapsto> rf_file r)\<rparr>"

lemma put_region_fields [simp]:
  "rs_root (put_region key r st) = rs_root st"
  "rs_open (put_region key r st) = (rs_open st)(key \<mapsto> r)"
  "rs_disk (put_region key r st) = (rs_disk st)(region_path (rs_root st) key \<mapsto> rf_file r)"
  by (simp_all add: put_region_def)

lemma put_region_view [simp]: "region_view (put_region key r st) = (region_view st)(key \<mapsto> r)"
  by (rule ext) (simp add: region_view_def region_path_inj split: option.split)

lemma put_region_ok: "store_ok st \<Longrightarrow> region_ok r \<Longrightarrow> store_ok (put_region key r st)"
  unfolding store_ok_def by (auto simp: region_path_inj)

lemma region_at_ok: "store_ok st \<Longrightarrow> region_ok (region_at key st)"
  by (auto simp: region_at_def region_view_ok open_empty_ok split: option.split)

lemma open_key_put: "rs_open st key = None \<Longrightarrow> open_key key st = put_region key (region_at key st) st"
  by (simp add: open_key_def put_region_def region_at_def region_view_def Let_def split: option.split)

definition ensure_open :: "region_key \<Rightarrow> region_store \<Rightarrow> region_store" where
  "ensure_open key st = (if rs_open st key = None then open_key key st else st)"

lemma ensure_open_facts:
  assumes "store_ok st"
  shows "store_ok (ensure_open key st)" and "rs_root (ensure_open key st) = rs_root st"
    and "rs_open (ensure_open key st) key = Some (region_at key st)"
    and "region_view (ensure_open key st) = (region_view st)(key \<mapsto> region_at key st)"
proof -
  have "store_ok (ensure_open key st) \<and> rs_root (ensure_open key st) = rs_root st \<and>
    rs_open (ensure_open key st) key = Some (region_at key st) \<and>
    region_view (ensure_open key st) = (region_view st)(key \<mapsto> region_at key st)"
  proof (cases "rs_open st key")
    case None
    then show ?thesis
      using put_region_ok [OF assms region_at_ok [OF assms]] by (simp add: ensure_open_def open_key_put)
  next
    case (Some r)
    then have "region_view st key = Some r" by (simp add: region_view_def)
    then show ?thesis using assms Some by (auto simp: ensure_open_def region_at_def)
  qed
  then show "store_ok (ensure_open key st)" "rs_root (ensure_open key st) = rs_root st"
    "rs_open (ensure_open key st) key = Some (region_at key st)"
    "region_view (ensure_open key st) = (region_view st)(key \<mapsto> region_at key st)" by blast+
qed

lemma store_read_eq:
  assumes "store_ok st"
  shows "fst (store_read decompress d p st) =
      (case region_view st (key_of d p) of None \<Rightarrow> Inr None | Some r \<Rightarrow> read_chunk decompress (cp_x p) (cp_z p) r)"
    and "snd (store_read decompress d p st) =
      (if region_view st (key_of d p) = None then st else ensure_open (key_of d p) st)"
proof -
  obtain rx rz where c: "region_coords p = (rx, rz)" by fastforce
  let ?key = "(d, rx, rz)"
  have none: "region_view st ?key = None \<longleftrightarrow> rs_open st ?key = None \<and> rs_disk st (region_path (rs_root st) ?key) = None"
    by (simp add: region_view_def split: option.splits)
  note e = ensure_open_facts(3) [OF assms, of ?key]
  have "store_read decompress d p st =
      (if region_view st ?key = None then (Inr None, st)
       else (read_chunk decompress (cp_x p) (cp_z p) (the (rs_open (ensure_open ?key st) ?key)), ensure_open ?key st))"
    unfolding none by (simp add: store_read_def c Let_def ensure_open_def)
  then show "fst (store_read decompress d p st) =
      (case region_view st (key_of d p) of None \<Rightarrow> Inr None | Some r \<Rightarrow> read_chunk decompress (cp_x p) (cp_z p) r)"
    and "snd (store_read decompress d p st) =
      (if region_view st (key_of d p) = None then st else ensure_open (key_of d p) st)"
    by (auto simp: key_of_def c e region_at_def split: option.splits)
qed

lemma store_read_view: "store_ok st \<Longrightarrow> region_view (snd (store_read decompress d p st)) = region_view st"
  by (auto simp: store_read_eq(2) ensure_open_facts(4) region_at_def fun_eq_iff)

lemma store_read_ok: "store_ok st \<Longrightarrow> store_ok (snd (store_read decompress d p st))"
  by (auto simp: store_read_eq(2) ensure_open_facts(1))

lemma store_write_eq:
  assumes "store_ok st"
  shows "store_write compress now d p b st =
    (case write_chunk compress (cp_x p) (cp_z p) b now (region_at (key_of d p) st) of
       Inl e \<Rightarrow> (Inl e, ensure_open (key_of d p) st)
     | Inr r \<Rightarrow> (Inr (), put_region (key_of d p) r (ensure_open (key_of d p) st)))"
proof -
  obtain rx rz where c: "region_coords p = (rx, rz)" by fastforce
  have k: "key_of d p = (d, rx, rz)" by (simp add: key_of_def c)
  show ?thesis
    unfolding store_write_def Let_def c case_prod_conv k ensure_open_def [symmetric] put_region_def [symmetric]
      ensure_open_facts(3) [OF assms] option.sel ..
qed

text \<open>Region and slot of a chunk determine its position.\<close>

lemma chunk_address_inj:
  assumes "region_coords p = region_coords q" and "region_index (cp_x p) (cp_z p) = region_index (cp_x q) (cp_z q)"
  shows "p = q"
proof -
  have one: "x = y" if "signed_drop_bit 5 x = signed_drop_bit 5 y" "take_bit 5 x = take_bit 5 y" for x y :: i32
  proof (rule bit_word_eqI)
    fix n assume n: "n < LENGTH(32)"
    show "bit x n = bit y n"
    proof (cases "n < 5")
      case True
      then show ?thesis using that(2) by (metis bit_take_bit_iff)
    next
      case False
      then have "bit (signed_drop_bit 5 x) (n - 5) = bit (signed_drop_bit 5 y) (n - 5)" using that(1) by simp
      moreover have "n - 5 < 27" using n by simp
      ultimately show ?thesis using False n by (simp add: bit_signed_drop_bit_iff)
    qed
  qed
  show ?thesis
    using assms one by (simp add: region_coords_def region_index_eq)
qed


section \<open>The region store is a chunk store\<close>

definition stored :: "(u8 list \<Rightarrow> 'e + u8 list) \<Rightarrow> dimension \<Rightarrow> chunk_pos \<Rightarrow> region_store \<Rightarrow>
    'e persistence_error + u8 list option" where
  "stored decompress d p st = fst (store_read decompress d p st)"

lemma store_write_spec:
  fixes decompress :: "u8 list \<Rightarrow> 'e + u8 list"
  assumes ok: "store_ok st" and room: "room (Suc n) st"
    and w: "store_write compress now d p b st = (res :: 'e persistence_error + unit, st')"
  shows "store_ok st'" and "room n st'"
    and "if payload_sectors (compress b) \<le> 255 then res = Inr () else \<exists>msg. res = Inl (Corrupt msg)"
    and "stored decompress d' p' st' =
      (if payload_sectors (compress b) \<le> 255 \<and> d' = d \<and> p' = p then unpacked decompress (compress b) else stored decompress d' p' st)"
proof -
  let ?key = "key_of d p" and ?x = "cp_x p" and ?z = "cp_z p"
  define r where "r = region_at ?key st"
  define view where "view = (region_view st)(?key \<mapsto> r)"
  note e = ensure_open_facts [OF ok, of ?key, folded r_def view_def]
  have r: "region_ok r" using region_at_ok [OF ok] by (simp add: r_def)
  have len: "length (used r) + 255 * Suc n \<le> 2 ^ 24"
  proof (cases "region_view st ?key")
    case None
    then show ?thesis using room by (simp add: r_def region_at_def room_def open_empty)
  next
    case (Some q)
    then show ?thesis using room unfolding room_def r_def region_at_def by (metis option.simps(5))
  qed
  have len1: "length (used r) + 255 \<le> 2 ^ 24" using len by simp
  have fresh: "read_chunk decompress x z (open_region []) = Inr None" for x z
    by (simp add: read_chunk_def open_empty region_index_less)
  have base: "stored decompress d' p' st = read_chunk decompress (cp_x p') (cp_z p') (region_at (key_of d' p') st)"
    for d' p'
    by (simp add: stored_def store_read_eq [OF ok] region_at_def fresh split: option.split)
  have spec: "if payload_sectors (compress b) \<le> 255 then
      \<exists>r'. write_chunk compress ?x ?z b now r = (Inr r' :: 'e persistence_error + region_file) \<and> region_ok r' \<and>
        length (used r') \<le> length (used r) + payload_sectors (compress b) \<and>
        (\<forall>x z. read_chunk decompress x z r' =
          (if region_index x z = region_index ?x ?z then unpacked decompress (compress b) else read_chunk decompress x z r))
    else \<exists>msg. write_chunk compress ?x ?z b now r = (Inl (Corrupt msg) :: 'e persistence_error + region_file)"
    by (rule write_chunk_spec [where decompress = decompress and compress = compress and p = b, OF r len1])
  have "store_ok st' \<and> room n st' \<and>
    (if payload_sectors (compress b) \<le> 255 then res = Inr () else \<exists>msg. res = Inl (Corrupt msg)) \<and>
    stored decompress d' p' st' =
      (if payload_sectors (compress b) \<le> 255 \<and> d' = d \<and> p' = p then unpacked decompress (compress b) else stored decompress d' p' st)"
  proof (cases "payload_sectors (compress b) \<le> 255")
    case True
    then obtain r' where w': "write_chunk compress ?x ?z b now r = (Inr r' :: 'e persistence_error + region_file)"
      and r': "region_ok r'" "length (used r') \<le> length (used r) + payload_sectors (compress b)"
      and reads: "\<And>x z. read_chunk decompress x z r' =
          (if region_index x z = region_index ?x ?z then unpacked decompress (compress b) else read_chunk decompress x z r)"
      using spec by auto
    have st': "res = Inr ()" "st' = put_region ?key r' (ensure_open ?key st)"
      using w unfolding store_write_eq [OF ok] r_def [symmetric] w' by auto
    have ok': "store_ok st'" unfolding st' by (rule put_region_ok [OF e(1) r'(1)])
    have view': "region_view st' = (region_view st)(?key \<mapsto> r')" by (simp add: st' e(4) view_def)
    have "length (used r') + 255 * n \<le> 2 ^ 24" using len r'(2) True by simp
    moreover have "length (used q) + 255 * n \<le> 2 ^ 24" if "region_view st k = Some q" for k q
      using room that unfolding room_def by fastforce
    ultimately have "room n st'" using room by (auto simp: room_def view')
    moreover have "stored decompress d' p' st' =
      (if d' = d \<and> p' = p then unpacked decompress (compress b) else stored decompress d' p' st)"
    proof -
      have "stored decompress d' p' st' =
          (case region_view st' (key_of d' p') of None \<Rightarrow> Inr None | Some q \<Rightarrow> read_chunk decompress (cp_x p') (cp_z p') q)"
        by (simp add: stored_def store_read_eq [OF ok'])
      also have "\<dots> = (if key_of d' p' = ?key then read_chunk decompress (cp_x p') (cp_z p') r' else stored decompress d' p' st)"
        by (simp add: view' stored_def store_read_eq [OF ok])
      also have "\<dots> = (if d' = d \<and> p' = p then unpacked decompress (compress b) else stored decompress d' p' st)"
      proof (cases "key_of d' p' = ?key")
        case True
        then have "d' = d" "region_coords p' = region_coords p" "region_at (key_of d' p') st = r"
          by (simp_all add: key_of_def r_def)
        then show ?thesis
          using True chunk_address_inj [of p' p] reads base [of d' p'] by (auto simp: chunk_pos.equality)
      next
        case False
        then show ?thesis by (auto simp: key_of_def)
      qed
      finally show ?thesis .
    qed
    ultimately show ?thesis using st'(1) ok' True by simp
  next
    case False
    then obtain msg where w': "write_chunk compress ?x ?z b now r = (Inl (Corrupt msg) :: 'e persistence_error + region_file)"
      using spec by auto
    have st': "res = Inl (Corrupt msg)" "st' = ensure_open ?key st"
      using w unfolding store_write_eq [OF ok] r_def [symmetric] w' by auto
    have view': "region_view st' = (region_view st)(?key \<mapsto> r)" by (simp add: st' e(4) view_def)
    have "length (used q) + 255 * n \<le> 2 ^ 24" if "region_view st k = Some q" for k q
      using room that unfolding room_def by fastforce
    then have "room n st'" using room len by (auto simp: room_def view')
    moreover have ok': "store_ok st'" using e(1) st' by simp
    moreover have "stored decompress d' p' st' = stored decompress d' p' st"
      by (simp add: stored_def store_read_eq [OF ok'] store_read_eq [OF ok] view' r_def region_at_def fresh split: option.split)
    ultimately show ?thesis using False st'(1) by simp
  qed
  then show "store_ok st'" "room n st'"
    "if payload_sectors (compress b) \<le> 255 then res = Inr () else \<exists>msg. res = Inl (Corrupt msg)"
    "stored decompress d' p' st' =
      (if payload_sectors (compress b) \<le> 255 \<and> d' = d \<and> p' = p then unpacked decompress (compress b) else stored decompress d' p' st)"
    by blast+
qed

text \<open>A payload the store can keep: its compressed form fits a record and unpacks to it.\<close>

definition storable :: "(u8 list \<Rightarrow> u8 list) \<Rightarrow> (u8 list \<Rightarrow> 'e + u8 list) \<Rightarrow> u8 list \<Rightarrow> bool" where
  "storable compress decompress b \<longleftrightarrow> payload_sectors (compress b) \<le> 255 \<and> decompress (compress b) = Inr b"

lemma store_read_inv:
  assumes "store_inv n st"
  shows "store_inv n (snd (store_read decompress d p st))"
    and "stored decompress' d' p' (snd (store_read decompress d p st)) = stored decompress' d' p' st"
proof -
  have ok: "store_ok st" using assms by (simp add: store_inv_def)
  show "store_inv n (snd (store_read decompress d p st))"
    using assms store_read_ok [OF ok] by (simp add: store_inv_def room_def store_read_view [OF ok])
  show "stored decompress' d' p' (snd (store_read decompress d p st)) = stored decompress' d' p' st"
    by (simp add: stored_def store_read_eq(1) [OF store_read_ok [OF ok]] store_read_eq(1) [OF ok] store_read_view [OF ok])
qed

lemma store_inv_less: "store_inv (Suc n) st \<Longrightarrow> store_inv n st"
  by (fastforce simp: store_inv_def room_def)

interpretation region: chunk_store store_inv "store_read decompress" "store_write compress" "storable compress decompress"
    "\<lambda>b. decompress (compress b) = Inr b"
  for decompress :: "u8 list \<Rightarrow> 'e + u8 list" and compress
proof unfold_locales
  show "store_inv n st" if "store_inv (Suc n) st" for n st using that by (rule store_inv_less)
  show "store_inv n (snd (store_read decompress d p st))" if "store_inv n st" for n st d p
    using store_read_inv(1) [OF that] .
  show "fst (store_read decompress d' p' (snd (store_read decompress d p st))) = fst (store_read decompress d' p' st)"
    if "store_inv n st" for n st d p d' p'
    using store_read_inv(2) [OF that, of decompress] by (simp add: stored_def)
  fix n st now d p b d' p'
  assume inv: "store_inv (Suc n) st"
  obtain res st' where w: "store_write compress now d p b st = (res :: 'e persistence_error + unit, st')" by fastforce
  have ok: "store_ok st" "room (Suc n) st" using inv by (simp_all add: store_inv_def)
  note spec = store_write_spec(1-3) [OF ok w] and reads = store_write_spec(4) [OF ok w, where decompress = decompress, unfolded stored_def]
  show "store_inv n (snd (store_write compress now d p b st :: ('e persistence_error + unit) \<times> region_store))"
    using spec(1,2) by (simp add: w store_inv_def)
  show "fst (store_write compress now d p b st) = (Inr () :: 'e persistence_error + unit) \<and>
    fst (store_read decompress d p (snd (store_write compress now d p b st :: ('e persistence_error + unit) \<times> region_store))) = Inr (Some b)"
    if "storable compress decompress b"
    using spec(3) reads [of d p] that by (simp add: w storable_def unpacked_def)
  show "fst (store_read decompress d p (snd (store_write compress now d p b st :: ('e persistence_error + unit) \<times> region_store))) = Inr (Some b)"
    if "decompress (compress b) = Inr b" "fst (store_write compress now d p b st) = (Inr () :: 'e persistence_error + unit)"
    using spec(3) reads [of d p] that by (auto simp: w unpacked_def split: if_splits)
  show "fst (store_read decompress d' p' (snd (store_write compress now d p b st :: ('e persistence_error + unit) \<times> region_store))) =
    fst (store_read decompress d' p' st)" if "(d', p') \<noteq> (d, p)"
    using reads [of d' p'] that by (auto simp: w)
  fix e
  show "fst (store_read decompress d' p' (snd (store_write compress now d p b st :: ('e persistence_error + unit) \<times> region_store))) =
    fst (store_read decompress d' p' st)" if "fst (store_write compress now d p b st) = (Inl e :: 'e persistence_error + unit)"
    using spec(3) reads [of d' p'] that by (auto simp: w split: if_splits)
qed


section \<open>Restarts\<close>

lemma restart_view:
  assumes "store_ok st" and "region_view (restart st) key = Some q"
  obtains r where "region_view st key = Some r" and "q = r \<or> q = open_region (rf_file r)" and "region_ok r"
proof -
  obtain f where f: "rs_disk st (region_path (rs_root st) key) = Some f" "q = open_region f"
    using assms(2) by (auto simp: region_view_def restart_def new_store_def)
  show thesis
  proof (cases "rs_open st key")
    case None
    then have "region_view st key = Some q" using f by (simp add: region_view_def)
    then show thesis using that region_view_ok [OF assms(1)] by blast
  next
    case (Some r)
    then have "region_ok r" "f = rf_file r" using assms(1) f(1) unfolding store_ok_def by fastforce+
    then show thesis using that [of r] Some f(2) by (simp add: region_view_def)
  qed
qed

lemma restart_view_None:
  assumes "store_ok st"
  shows "region_view (restart st) key = None \<longleftrightarrow> region_view st key = None"
proof -
  have "rs_disk st (region_path (rs_root st) key) \<noteq> None" if "rs_open st key = Some r" for r
    using assms that unfolding store_ok_def by (metis option.distinct(1))
  then show ?thesis by (cases "rs_open st key") (auto simp: region_view_def restart_def new_store_def)
qed

lemma restart_inv:
  assumes "store_inv n st"
  shows "store_inv n (restart st)"
proof -
  have ok: "store_ok st" and room: "room n st" using assms by (simp_all add: store_inv_def)
  have "store_ok (restart st)" using ok by (simp add: store_ok_def restart_def new_store_def)
  moreover have "length (used q) + 255 * n \<le> 2 ^ 24" if v: "region_view (restart st) key = Some q" for key q
  proof -
    obtain r where r: "region_view st key = Some r" "q = r \<or> q = open_region (rf_file r)" "region_ok r"
      using restart_view [OF ok v] .
    then have "length (used q) \<le> length (used r)" using open_region_used_length by auto
    moreover have "length (used r) + 255 * n \<le> 2 ^ 24" using room r(1) unfolding room_def by blast
    ultimately show ?thesis by simp
  qed
  ultimately show ?thesis using room unfolding store_inv_def room_def by blast
qed

lemma restart_stored:
  assumes ok: "store_ok st"
  shows "stored decompress d p (restart st) = stored decompress d p st"
proof -
  have ok': "store_ok (restart st)" using ok by (simp add: store_ok_def restart_def new_store_def)
  show ?thesis
  proof (cases "region_view (restart st) (key_of d p)")
    case None
    then show ?thesis
      using restart_view_None [OF ok, of "key_of d p"]
      by (simp add: stored_def store_read_eq(1) [OF ok] store_read_eq(1) [OF ok'])
  next
    case (Some q)
    obtain r where r: "region_view st (key_of d p) = Some r" "q = r \<or> q = open_region (rf_file r)" "region_ok r"
      using restart_view [OF ok Some] .
    have "header_ok r" using r(3) by (simp add: region_ok_def)
    then have "read_chunk decompress x z (open_region (rf_file r)) = read_chunk decompress x z r" for x z
      unfolding read_chunk_def by (simp only: open_region_saved(1,2))
    then show ?thesis
      using r Some by (auto simp: stored_def store_read_eq(1) [OF ok] store_read_eq(1) [OF ok'])
  qed
qed

section \<open>What a run of the store remembers\<close>

text \<open>Operations of a run: reads, writes at some time, and restarts of the server.\<close>

datatype store_op = Read dimension chunk_pos | Write u32 dimension chunk_pos "u8 list" | Restart

definition store_step ::
  "(u8 list \<Rightarrow> u8 list) \<Rightarrow> (u8 list \<Rightarrow> 'e + u8 list) \<Rightarrow> store_op \<Rightarrow> region_store \<Rightarrow> region_store" where
  "store_step compress decompress c st =
     (case c of
        Read d p \<Rightarrow> snd (store_read decompress d p st)
      | Write now d p b \<Rightarrow> snd (store_write compress now d p b st :: ('e persistence_error + unit) \<times> region_store)
      | Restart \<Rightarrow> restart st)"

text \<open>The reference: the payload of a chunk is the last one written to it.\<close>

definition map_step :: "store_op \<Rightarrow> (dimension \<times> chunk_pos \<rightharpoonup> u8 list) \<Rightarrow> (dimension \<times> chunk_pos \<rightharpoonup> u8 list)" where
  "map_step c m = (case c of Write _ d p b \<Rightarrow> m((d, p) \<mapsto> b) | _ \<Rightarrow> m)"

definition holds_map :: "(u8 list \<Rightarrow> 'e + u8 list) \<Rightarrow> region_store \<Rightarrow> (dimension \<times> chunk_pos \<rightharpoonup> u8 list) \<Rightarrow> bool" where
  "holds_map decompress st m \<longleftrightarrow> (\<forall>d p. stored decompress d p st = Inr (m (d, p)))"

lemma store_step_refines:
  fixes decompress :: "u8 list \<Rightarrow> 'e + u8 list"
  assumes inv: "store_inv (Suc n) st" and holds: "holds_map decompress st m"
    and fits: "case c of Write _ _ _ b \<Rightarrow> storable compress decompress b | _ \<Rightarrow> True"
  shows "store_inv n (store_step compress decompress c st) \<and>
    holds_map decompress (store_step compress decompress c st) (map_step c m)"
proof (cases c)
  case (Read d p)
  then show ?thesis
    using holds store_read_inv(1) [OF store_inv_less [OF inv], of decompress d p]
      store_read_inv(2) [OF inv, where decompress = decompress and decompress' = decompress and d = d and p = p]
    by (simp add: store_step_def map_step_def holds_map_def)
next
  case Restart
  have "store_ok st" using inv by (simp add: store_inv_def)
  then show ?thesis
    using holds restart_inv [OF store_inv_less [OF inv]] restart_stored [where decompress = decompress and st = st] Restart
    by (simp add: store_step_def map_step_def holds_map_def)
next
  case (Write now d p b)
  have s: "storable compress decompress b" using fits Write by simp
  have "fst (store_read decompress d' p' (snd (store_write compress now d p b st :: ('e persistence_error + unit) \<times> region_store)))
      = Inr ((m((d, p) \<mapsto> b)) (d', p'))" for d' p'
  proof (cases "(d', p') = (d, p)")
    case True
    then show ?thesis using region.write_storable [OF inv s, of now d p] by simp
  next
    case False
    then show ?thesis
      using region.write_other [OF inv False, where decompress = decompress and compress = compress and now = now and b = b] holds
      by (auto simp: holds_map_def stored_def)
  qed
  then show ?thesis
    using region.write_ok [OF inv] Write by (simp add: store_step_def map_step_def holds_map_def stored_def)
qed

lemma store_run_refines:
  assumes "store_inv (length cs + n) st" and "holds_map decompress st m"
    and "\<forall>c \<in> set cs. case c of Write _ _ _ b \<Rightarrow> storable compress decompress b | _ \<Rightarrow> True"
  shows "store_inv n (fold (store_step compress decompress) cs st) \<and>
    holds_map decompress (fold (store_step compress decompress) cs st) (fold map_step cs m)"
  using assms
proof (induction cs arbitrary: st m)
  case (Cons c cs)
  have "store_inv (length cs + n) (store_step compress decompress c st) \<and>
    holds_map decompress (store_step compress decompress c st) (map_step c m)"
    using Cons.prems by (intro store_step_refines) auto
  then show ?case using Cons.IH [of "store_step compress decompress c st" "map_step c m"] Cons.prems(3) by simp
qed simp

lemma new_store_inv: "2 + 255 * n \<le> 2 ^ 24 \<Longrightarrow> store_inv n (new_store root Map.empty)"
  by (simp add: store_inv_def store_ok_def room_def new_store_def region_view_def)

text \<open>C4: starting from an empty world directory, after any sequence of reads, writes and restarts of the
  server the store returns for every chunk of every dimension the payload last written to it, and nothing
  where none was written, as long as the compressed payloads fit their records and no region file passes
  the 2^24 sectors its header can address.\<close>

theorem store_remembers_last_write:
  assumes "2 + 255 * length cs \<le> 2 ^ 24"
    and "\<forall>c \<in> set cs. case c of Write _ _ _ b \<Rightarrow> storable compress decompress b | _ \<Rightarrow> True"
  shows "stored decompress d p (fold (store_step compress decompress) cs (new_store root Map.empty)) =
    Inr (fold map_step cs Map.empty (d, p))"
proof -
  have inv: "store_inv (length cs + 0) (new_store root Map.empty)" using new_store_inv assms(1) by simp
  have holds: "holds_map decompress (new_store root Map.empty) Map.empty"
    by (simp add: holds_map_def stored_def store_read_def new_store_def Let_def split: prod.split)
  show ?thesis using store_run_refines [OF inv holds assms(2)] by (simp add: holds_map_def)
qed

abbreviation demo_run :: "store_op list" where
  "demo_run \<equiv> [Write 7 Overworld \<lparr>cp_x = - 33, cp_z = 5\<rparr> [1, 2, 3], Restart, Write 8 Overworld \<lparr>cp_x = - 32, cp_z = 5\<rparr> [4],
     Read Nether \<lparr>cp_x = 0, cp_z = 0\<rparr>]"

lemma store_remembers_last_write_witness:
  "stored Inr Overworld \<lparr>cp_x = - 33, cp_z = 5\<rparr> (fold (store_step id (Inr :: u8 list \<Rightarrow> nat + u8 list)) demo_run (new_store [] Map.empty))
    = (Inr (Some [1, 2, 3]) :: nat persistence_error + u8 list option)"
proof -
  have "\<forall>c \<in> set demo_run. case c of Write _ _ _ b \<Rightarrow> storable id (Inr :: u8 list \<Rightarrow> nat + u8 list) b | _ \<Rightarrow> True"
    by (simp add: storable_def payload_sectors_def div_ceil_def)
  from store_remembers_last_write [OF _ this, of Overworld "\<lparr>cp_x = - 33, cp_z = 5\<rparr>" "[]"]
  show ?thesis by (simp add: map_step_def)
qed

end
