(* ===== verification/World_Save.thy ===== *)
theory World_Save
  imports Chunk_Format Chunk_Store
begin

text \<open>
  Loading and saving chunks through a chunk store (\<open>void-world-io/src/store.rs\<close> and \<open>systems.rs\<close>, with
  the hook of \<open>void/src/world/loader.rs\<close>): the periodic save of the chunks marked dirty and the last save
  at shutdown. The operations take the store's \<open>read\<close> and \<open>write\<close> as arguments; what they achieve is proved
  in the locale \<open>chunk_store\<close>, for every store, and then for the region store. A panic is \<open>None\<close>.
\<close>

section \<open>One chunk\<close>

definition save_chunk ::
  "(dimension \<Rightarrow> chunk_pos \<Rightarrow> u8 list \<Rightarrow> 'st \<Rightarrow> ('e persistence_error + unit) \<times> 'st) \<Rightarrow> nbt_library \<Rightarrow> bool \<Rightarrow>
   dimension \<Rightarrow> chunk_pos \<Rightarrow> chunk_data \<Rightarrow> 'st \<Rightarrow> (('e persistence_error + unit) \<times> 'st) option" where
  "save_chunk put lib regenerate_light d p cd st =
     map_option (\<lambda>r. case r of Inl e \<Rightarrow> (Inl e, st) | Inr bytes \<Rightarrow> put d p bytes st)
       (serialize_chunk lib d (cp_x p) (cp_z p) cd (\<not> regenerate_light))"

definition load_chunk ::
  "(dimension \<Rightarrow> chunk_pos \<Rightarrow> 'st \<Rightarrow> ('e persistence_error + u8 list option) \<times> 'st) \<Rightarrow> nbt_library \<Rightarrow>
   kind_registry \<Rightarrow> dimension \<Rightarrow> chunk_pos \<Rightarrow> 'st \<Rightarrow> (chunk_data option \<times> 'st) option" where
  "load_chunk get lib reg d p st =
     (case get d p st of
        (Inr (Some bytes), st') \<Rightarrow>
          map_option (\<lambda>r. (case (r :: 'e persistence_error + loaded_chunk) of Inr c \<Rightarrow> Some (lc_data c) | Inl _ \<Rightarrow> None, st'))
            (deserialize_chunk lib reg bytes)
      | (_, st') \<Rightarrow> Some (None, st'))"

record protocol_chunk =
  pc_x :: i32
  pc_z :: i32
  pc_sections :: "chunk_section list"
  pc_heightmaps :: chunk_heightmaps
  pc_light :: light_data

definition from_protocol_chunk :: "protocol_chunk \<Rightarrow> chunk_data" where
  "from_protocol_chunk c = new_chunk_data (pc_sections c) (pc_heightmaps c) (pc_light c)"

definition load_or_generate ::
  "(dimension \<Rightarrow> chunk_pos \<Rightarrow> 'st \<Rightarrow> (chunk_data option \<times> 'st) option) option \<Rightarrow> (chunk_pos \<Rightarrow> protocol_chunk) \<Rightarrow>
   dimension \<Rightarrow> chunk_pos \<Rightarrow> 'st \<Rightarrow> (chunk_data \<times> 'st) option" where
  "load_or_generate loader world_gen d p st =
     (case loader of
        None \<Rightarrow> Some (from_protocol_chunk (world_gen p), st)
      | Some load \<Rightarrow>
          map_option (\<lambda>(r, st'). (case r of Some cd \<Rightarrow> cd | None \<Rightarrow> from_protocol_chunk (world_gen p), st'))
            (load d p st))"

section \<open>Dirty chunks\<close>

record persistence_config =
  save_interval_ticks :: nat
  regenerate_light_on_load :: bool
  max_saves_per_flush :: nat

text \<open>An entity with a chunk that is marked dirty.\<close>

record dirty_chunk =
  dc_entity :: nat
  dc_pos :: chunk_pos
  dc_dimension :: dimension
  dc_data :: chunk_data

text \<open>
  The loop of \<open>flush_dirty\<close>, with the clock at each write: how many were saved, and the entities whose
  marker is removed.
\<close>

fun flush_dirty ::
  "(u32 \<Rightarrow> dimension \<Rightarrow> chunk_pos \<Rightarrow> u8 list \<Rightarrow> 'st \<Rightarrow> ('e persistence_error + unit) \<times> 'st) \<Rightarrow> nbt_library \<Rightarrow>
   persistence_config \<Rightarrow> nat \<Rightarrow> nat \<Rightarrow> (u32 \<times> dirty_chunk) list \<Rightarrow> 'st \<Rightarrow> (nat \<times> nat list \<times> 'st) option" where
  "flush_dirty put lib config limit saved [] st = Some (saved, [], st)"
| "flush_dirty put lib config limit saved ((now, c) # cs) st =
     (if limit \<noteq> 0 \<and> limit \<le> saved then Some (saved, [], st)
      else
        (case save_chunk (put now) lib (regenerate_light_on_load config) (dc_dimension c) (dc_pos c) (dc_data c) st of
           None \<Rightarrow> None
         | Some (Inl e, st') \<Rightarrow> flush_dirty put lib config limit saved cs st'
         | Some (Inr _, st') \<Rightarrow>
             map_option (\<lambda>(n, cleaned, st''). (n, dc_entity c # cleaned, st''))
               (flush_dirty put lib config limit (saved + 1) cs st')))"

text \<open>The server's view: the tick counter, the entities marked dirty, the store.\<close>

record 'st saver =
  ticker :: nat
  dirty :: "dirty_chunk list"
  store :: 'st

definition flushed :: "nat list \<Rightarrow> dirty_chunk list \<Rightarrow> dirty_chunk list" where
  "flushed cleaned cs = filter (\<lambda>c. dc_entity c \<notin> set cleaned) cs"

definition save_dirty_chunks ::
  "(u32 \<Rightarrow> dimension \<Rightarrow> chunk_pos \<Rightarrow> u8 list \<Rightarrow> 'st \<Rightarrow> ('e persistence_error + unit) \<times> 'st) \<Rightarrow> nbt_library \<Rightarrow>
   persistence_config \<Rightarrow> u32 list \<Rightarrow> 'st saver \<Rightarrow> 'st saver option" where
  "save_dirty_chunks put lib config clock w =
     (if ticker w + 1 < save_interval_ticks config then Some (w\<lparr>ticker := ticker w + 1\<rparr>)
      else
        map_option (\<lambda>(_, cleaned, st). w\<lparr>ticker := 0, dirty := flushed cleaned (dirty w), store := st\<rparr>)
          (flush_dirty put lib config (max_saves_per_flush config) 0 (zip clock (dirty w)) (store w)))"

definition flush_on_exit ::
  "(u32 \<Rightarrow> dimension \<Rightarrow> chunk_pos \<Rightarrow> u8 list \<Rightarrow> 'st \<Rightarrow> ('e persistence_error + unit) \<times> 'st) \<Rightarrow> nbt_library \<Rightarrow>
   persistence_config \<Rightarrow> u32 list \<Rightarrow> bool \<Rightarrow> 'st saver \<Rightarrow> 'st saver option" where
  "flush_on_exit put lib config clock exiting w =
     (if \<not> exiting then Some w
      else
        map_option (\<lambda>(_, cleaned, st). w\<lparr>dirty := flushed cleaned (dirty w), store := st\<rparr>)
          (flush_dirty put lib config 0 0 (zip clock (dirty w)) (store w)))"

section \<open>A chunk read back from its tree\<close>

definition registry_ok :: "kind_registry \<Rightarrow> bool" where
  "registry_ok reg \<longleftrightarrow> (\<forall>n i. type_id reg n = Some i \<longrightarrow> type_name reg i = Some n)"

lemma hosted_kind: "registry_ok reg \<Longrightarrow> hosted_by reg k s \<Longrightarrow> kind_from_name reg (kind_name k) = Some k"
  by (auto simp: registry_ok_def hosted_by_def kind_for_block_state_def kind_from_name_def split: Option.bind_splits)

text \<open>Chunk positions whose blocks have coordinates.\<close>

definition in_world :: "chunk_pos \<Rightarrow> bool" where
  "in_world p \<longleftrightarrow> - (2 ^ 27) \<le> sint (cp_x p) \<and> sint (cp_x p) < 2 ^ 27 \<and> - (2 ^ 27) \<le> sint (cp_z p) \<and> sint (cp_z p) < 2 ^ 27"

lemma ucast_ucast_u8: "ucast (ucast w :: i32) = (w :: u8)"
  by (rule bit_word_eqI) (auto simp: bit_simps)

lemma i32_of_int: "- (2 ^ 31) \<le> i \<Longrightarrow> i < 2 ^ 31 \<Longrightarrow> sint (word_of_int i :: i32) = i"
  by (simp add: sint_sbintrunc' signed_take_bit_int_eq_self)

lemma block_coordinate:
  assumes "- (2 ^ 27) \<le> sint c" and "sint c < 2 ^ 27" and "l < (16 :: u8)"
  obtains w where "i32_checked (sint c * 16 + uint l) = Some w" and "div_euclid16 w = c"
    and "ucast (rem_euclid16 w) = l"
proof -
  have l: "0 \<le> uint l" "uint l < 16" using assms(3) by (simp_all add: word_less_def)
  have c: "- 134217728 \<le> sint c" "sint c < 134217728" using assms(1,2) by simp_all
  have b: "- 2147483648 \<le> sint c * 16 + uint l" "sint c * 16 + uint l < 2147483648" using c l by linarith+
  define w :: i32 where "w = word_of_int (sint c * 16 + uint l)"
  have s: "sint w = sint c * 16 + uint l" unfolding w_def by (rule i32_of_int) (use b in simp_all)
  have "(sint c * 16 + uint l) mod 16 = uint l" using l by simp
  then have "rem_euclid16 w = ucast l" unfolding rem_euclid16_def s by (simp only: ucast_eq)
  then have "ucast (rem_euclid16 w) = l" by (simp add: ucast_ucast_u8)
  moreover have "div_euclid16 w = c" unfolding div_euclid16_def s using l by simp
  moreover have "i32_checked (sint c * 16 + uint l) = Some w" using b by (simp add: i32_checked_def w_def)
  ultimately show thesis using that by blast
qed

lemma in_chunk_local:
  assumes "in_world chunk" and "lb_x l < 16" and "lb_z l < 16"
  obtains p where "in_chunk chunk l = Some p" and "local_of chunk p = Some l" and "bp_y p = lb_y l"
proof -
  have x: "- (2 ^ 27) \<le> sint (cp_x chunk)" "sint (cp_x chunk) < 2 ^ 27"
    and z: "- (2 ^ 27) \<le> sint (cp_z chunk)" "sint (cp_z chunk) < 2 ^ 27"
    using assms(1) by (auto simp: in_world_def)
  obtain v where v: "i32_checked (sint (cp_x chunk) * 16 + uint (lb_x l)) = Some v" "div_euclid16 v = cp_x chunk"
    "ucast (rem_euclid16 v) = lb_x l" using block_coordinate [OF x assms(2)] .
  obtain w where w: "i32_checked (sint (cp_z chunk) * 16 + uint (lb_z l)) = Some w" "div_euclid16 w = cp_z chunk"
    "ucast (rem_euclid16 w) = lb_z l" using block_coordinate [OF z assms(3)] .
  show thesis
    by (rule that [of "\<lparr>bp_x = v, bp_y = lb_y l, bp_z = w\<rparr>"])
      (simp_all add: in_chunk_def v w local_of_def chunk_of_def)
qed

lemma update_nonmem: "k \<notin> fst ` set al \<Longrightarrow> AList.update k v al = al @ [(k, v)]"
  by (induction al) auto

text \<open>What a saved chunk comes back as: its queue of updates is empty, and its light is new unless stored.\<close>

definition reloaded :: "bool \<Rightarrow> chunk_data \<Rightarrow> chunk_data" where
  "reloaded regenerate_light cd =
     cd\<lparr>pending_block_entities := [], light := (if regenerate_light then full_sky_light else light cd)\<rparr>"

lemma restore_all:
  assumes "\<And>l be. (l, be) \<in> set bes \<Longrightarrow> \<exists>s. get_block (lb_x l) (scast (lb_y l)) (lb_z l) cd = Some (Some s) \<and> hosted_by reg (be_kind be) s"
    and "list_all2 (\<lambda>(l, be) (p, be'). be' = be \<and> local_of chunk p = Some l) bes ps"
    and "distinct (map fst (block_entities cd @ bes))"
  shows "restore_block_entities reg chunk ps cd = Some (cd\<lparr>block_entities := block_entities cd @ bes\<rparr>)"
  using assms
proof (induction bes arbitrary: ps cd)
  case Nil
  then show ?case by simp
next
  case (Cons b bes)
  obtain l be where b: "b = (l, be)" by fastforce
  obtain p ps' where ps: "ps = (p, be) # ps'" "local_of chunk p = Some l"
    "list_all2 (\<lambda>(l, be) (p, be'). be' = be \<and> local_of chunk p = Some l) bes ps'"
    using Cons.prems(2) by (cases ps) (auto simp: b)
  obtain s where s: "get_block (lb_x l) (scast (lb_y l)) (lb_z l) cd = Some (Some s)" "hosted_by reg (be_kind be) s"
    using Cons.prems(1) [of l be] b by auto
  have "l \<notin> fst ` set (block_entities cd)" using Cons.prems(3) b by auto
  then have upd: "AList.update l be (block_entities cd) = block_entities cd @ [(l, be)]"
    by (rule update_nonmem)
  let ?cd = "cd\<lparr>block_entities := block_entities cd @ [(l, be)]\<rparr>"
  have same: "get_block a b' c ?cd = get_block a b' c cd" for a b' c by (rule get_block_congI) simp
  have "restore_block_entities reg chunk ps' ?cd = Some (?cd\<lparr>block_entities := block_entities ?cd @ bes\<rparr>)"
    using Cons.prems(1,3) b same by (intro Cons.IH [OF _ ps(3)]) auto
  then show ?case using s by (simp add: ps(1,2) upd b)
qed

lemma block_entity_positions:
  assumes "in_world chunk" and "\<And>l be. (l, be) \<in> set bes \<Longrightarrow> lb_x l < 16 \<and> lb_z l < 16"
  shows "\<exists>ps. those (map (\<lambda>(l, be). map_option (\<lambda>p. (p, be)) (in_chunk chunk l)) bes) = Some ps \<and>
    list_all2 (\<lambda>(l, be) (p, be'). be' = be \<and> local_of chunk p = Some l) bes ps"
  using assms(2)
proof (induction bes)
  case (Cons b bes)
  obtain l be where b: "b = (l, be)" by fastforce
  obtain p where p: "in_chunk chunk l = Some p" "local_of chunk p = Some l"
    using in_chunk_local [OF assms(1), of l] Cons.prems [of l be] b by auto
  show ?case using Cons.IH Cons.prems p by (fastforce simp: b)
qed simp

lemma collect_block_entities:
  assumes "\<And>p be. (p, be) \<in> set ps \<Longrightarrow> kind_from_name reg (kind_name (be_kind be)) = Some (be_kind be)"
  shows "collect_results (map (block_entity_from_nbt reg) (map (\<lambda>(p, be). block_entity_to_nbt p be) ps)) = Inr ps"
proof -
  have "collect_results (map (\<lambda>q. block_entity_from_nbt reg (case q of (p, be) \<Rightarrow> block_entity_to_nbt p be)) ps)
      = Inr (map (\<lambda>q. q) ps)"
    by (intro collect_results_Inr) (auto simp: assms block_entity_round)
  then show ?thesis by (simp add: comp_def)
qed

lemma collect_sections: "collect_results (map section_from_nbt (map section_to_nbt ss)) = Inr ss"
  using collect_results_Inr [of ss "\<lambda>s. section_from_nbt (section_to_nbt s)" "\<lambda>s. s"] by (simp add: section_round comp_def)

lemma chunk_round:
  assumes ok: "chunk_ok reg cd" and reg: "registry_ok reg" and p: "in_world p"
  obtains n where "chunk_to_nbt d (cp_x p) (cp_z p) cd (\<not> regen) = Some n"
    and "chunk_from_nbt reg n = (Some (Inr \<lparr>lc_dimension = d, lc_x = cp_x p, lc_z = cp_z p, lc_data = reloaded regen cd\<rparr>)
      :: ('e persistence_error + loaded_chunk) option)"
proof -
  let ?p = "\<lparr>cp_x = cp_x p, cp_z = cp_z p\<rparr> :: chunk_pos"
  have map: "map_of (block_entities cd) l = Some be" if "(l, be) \<in> set (block_entities cd)" for l be
    using ok that by (simp add: chunk_ok_def)
  have hosted: "lb_x l < 16 \<and> lb_z l < 16 \<and>
      (\<exists>s. get_block (lb_x l) (scast (lb_y l)) (lb_z l) cd = Some (Some s) \<and> hosted_by reg (be_kind be) s)"
    if "(l, be) \<in> set (block_entities cd)" for l be
    using ok map [OF that] unfolding chunk_ok_def by blast
  obtain ps where ps: "all_block_entities ?p cd = Some ps"
    "list_all2 (\<lambda>(l, be) (q, be'). be' = be \<and> local_of ?p q = Some l) (block_entities cd) ps"
    using block_entity_positions [of ?p "block_entities cd"] p hosted by (auto simp: all_block_entities_def in_world_def)
  have kinds: "kind_from_name reg (kind_name (be_kind be)) = Some (be_kind be)" if q: "(q, be) \<in> set ps" for q be
  proof -
    obtain i where i: "i < length ps" "ps ! i = (q, be)" using q by (auto simp: in_set_conv_nth)
    obtain l be0 where l: "block_entities cd ! i = (l, be0)" by fastforce
    have "be0 = be" using list_all2_nthD2 [OF ps(2) i(1)] by (simp add: i(2) l)
    moreover have "i < length (block_entities cd)" using i(1) list_all2_lengthD [OF ps(2)] by simp
    ultimately have "(l, be) \<in> set (block_entities cd)" using nth_mem [of i "block_entities cd"] l by simp
    then show ?thesis using hosted hosted_kind [OF reg] by blast
  qed
  define n where "n = the (chunk_to_nbt d (cp_x p) (cp_z p) cd (\<not> regen))"
  have to_nbt: "chunk_to_nbt d (cp_x p) (cp_z p) cd (\<not> regen) = Some n"
    by (simp add: n_def chunk_to_nbt_def ps(1))
  have bl: "(case nbt_field (nbt_compound n) ''block_entities'' of
            Some (TList (LCompound bs)) \<Rightarrow> collect_results (map (block_entity_from_nbt reg) bs)
          | Some (TList LEmpty) \<Rightarrow> Inr []
          | None \<Rightarrow> Inr []
          | _ \<Rightarrow> Inl (Corrupt ''invalid block_entities'')) = (Inr ps :: 'e persistence_error + _)"
    using collect_block_entities [of ps reg] kinds
    by (cases "ps = []") (auto simp: n_def chunk_to_nbt_def ps(1) compound_list_def)
  let ?cd = "new_chunk_data (sections cd) (heightmaps cd) (if regen then full_sky_light else light cd)"
  have same: "get_block a b c ?cd = get_block a b c cd" for a b c
    by (rule get_block_congI) (simp add: new_chunk_data_def)
  have "restore_block_entities reg ?p ps ?cd = Some (?cd\<lparr>block_entities := block_entities ?cd @ block_entities cd\<rparr>)"
  proof (rule restore_all [OF _ ps(2)])
    show "\<exists>s. get_block (lb_x l) (scast (lb_y l)) (lb_z l) ?cd = Some (Some s) \<and> hosted_by reg (be_kind be) s"
      if "(l, be) \<in> set (block_entities cd)" for l be
      unfolding same using hosted [OF that] by blast
    show "distinct (map fst (block_entities ?cd @ block_entities cd))"
      using ok by (simp add: new_chunk_data_def chunk_ok_def)
  qed
  then have restored: "restore_block_entities reg ?p ps ?cd = Some (reloaded regen cd)"
    by (simp add: new_chunk_data_def reloaded_def)
  have back_again: "chunk_from_nbt reg n = (Some (Inr \<lparr>lc_dimension = d, lc_x = cp_x p, lc_z = cp_z p, lc_data = reloaded regen cd\<rparr>)
      :: ('e persistence_error + loaded_chunk) option)"
    unfolding chunk_from_nbt_def Let_def bl
    using restored
    by (cases regen) (simp_all add: n_def chunk_to_nbt_def ps(1) get_int_def dimension_round collect_sections
        heightmaps_round light_round del: map_map)
  show thesis using that [OF to_nbt back_again] .
qed

text \<open>C27: a chunk written to its NBT tree and read back is the chunk: every section and palette, the
  heightmaps, the light (or new light, when it is not stored) and every block entity at its place; only the
  queue of updates starts empty.\<close>

theorem chunk_format_roundtrip:
  assumes "chunk_ok reg cd" and "registry_ok reg" and "in_world \<lparr>cp_x = x, cp_z = z\<rparr>"
  shows "\<exists>n. chunk_to_nbt d x z cd (\<not> regen) = Some n \<and>
    chunk_from_nbt reg n = (Some (Inr \<lparr>lc_dimension = d, lc_x = x, lc_z = z, lc_data = reloaded regen cd\<rparr>)
      :: ('e persistence_error + loaded_chunk) option)"
  using chunk_round [where d = d and regen = regen, OF assms] by (metis chunk_pos.select_convs)

lemma chunk_format_roundtrip_witness:
  "\<exists>n. chunk_to_nbt Nether 3 (- 5) empty_chunk True = Some n \<and>
    chunk_from_nbt sign_kinds n = (Some (Inr \<lparr>lc_dimension = Nether, lc_x = 3, lc_z = - 5, lc_data = reloaded False empty_chunk\<rparr>)
      :: (nat persistence_error + loaded_chunk) option)"
proof -
  have "registry_ok sign_kinds" by (simp add: registry_ok_def)
  moreover have "in_world \<lparr>cp_x = 3, cp_z = - 5\<rparr>" by (simp add: in_world_def)
  ultimately show ?thesis
    using chunk_format_roundtrip [OF empty_chunk_hosts, of sign_kinds 3 "- 5" Nether False] by simp
qed

section \<open>Flushing dirty chunks through any store\<close>

text \<open>The store holds a chunk the way it was serialized.\<close>

definition saved_as ::
  "(dimension \<Rightarrow> chunk_pos \<Rightarrow> 'st \<Rightarrow> ('e persistence_error + u8 list option) \<times> 'st) \<Rightarrow> (u8 list \<Rightarrow> bool) \<Rightarrow>
   nbt_library \<Rightarrow> persistence_config \<Rightarrow> dirty_chunk \<Rightarrow> 'st \<Rightarrow> bool" where
  "saved_as get comes_back lib config c st \<longleftrightarrow>
     (\<exists>b. serialize_chunk lib (dc_dimension c) (cp_x (dc_pos c)) (cp_z (dc_pos c)) (dc_data c)
          (\<not> regenerate_light_on_load config) = Some (Inr b :: 'e persistence_error + u8 list) \<and>
        (comes_back b \<longrightarrow> fst (get (dc_dimension c) (dc_pos c) st) = Inr (Some b)))"

context chunk_store
begin

text \<open>The outcomes of saving one chunk.\<close>

lemma save_chunk_cases:
  assumes "ok (Suc n) st" and "save_chunk (save now) lib regen d p cd st = Some (r, st')"
  obtains b where "serialize_chunk lib d (cp_x p) (cp_z p) cd (\<not> regen) = Some (Inr b :: 'e persistence_error + u8 list)"
      and "r = Inr ()" and "ok n st'" and "readable b \<Longrightarrow> fst (load d p st') = Inr (Some b)"
      and "\<And>d' p'. (d', p') \<noteq> (d, p) \<Longrightarrow> fst (load d' p' st') = fst (load d' p' st)"
  | e where "r = Inl e" and "ok n st'" and "\<And>d' p'. fst (load d' p' st') = fst (load d' p' st)"
proof -
  obtain q where q: "serialize_chunk lib d (cp_x p) (cp_z p) cd (\<not> regen) = Some (q :: 'e persistence_error + u8 list)"
    using assms(2) by (auto simp: save_chunk_def)
  show thesis
  proof (cases q)
    case (Inl e)
    then have "r = Inl e" "st' = st" using assms(2) q by (auto simp: save_chunk_def)
    then show thesis using that(2) ok_less [OF assms(1)] by blast
  next
    case (Inr b)
    then have w: "save now d p b st = (r, st')" using assms(2) q by (auto simp: save_chunk_def)
    have ok': "ok n st'" using write_ok [OF assms(1), of now d p b] w by simp
    show thesis
    proof (cases r)
      case Inl
      then show thesis using that(2) ok' write_failed [OF assms(1), of now d p b] w by (metis fst_conv snd_conv)
    next
      case (Inr u)
      have "fst (load d p st') = Inr (Some b)" if "readable b"
        using write_sound [OF assms(1) that, of now d p] w Inr by simp
      moreover have "fst (load d' p' st') = fst (load d' p' st)" if "(d', p') \<noteq> (d, p)" for d' p'
        using write_other [OF assms(1) that, of now b] w by simp
      ultimately show thesis using that(1) q \<open>q = Inr b\<close> Inr ok' by auto
    qed
  qed
qed

lemma flush_dirty_spec:
  assumes "ok (length cs + k) st" and "distinct (map dc_entity (map snd cs))"
    and "distinct (map (\<lambda>c. (dc_dimension c, dc_pos c)) (map snd cs))"
    and "flush_dirty save lib config limit saved cs st = Some (n, cleaned, st')"
  shows "ok k st' \<and> n = saved + length cleaned \<and> (limit \<noteq> 0 \<and> saved \<le> limit \<longrightarrow> n \<le> limit) \<and>
    set cleaned \<subseteq> dc_entity ` snd ` set cs \<and>
    (\<forall>c \<in> snd ` set cs. dc_entity c \<in> set cleaned \<longrightarrow> saved_as load readable lib config c st') \<and>
    (\<forall>d p. (\<forall>c \<in> snd ` set cs. dc_entity c \<in> set cleaned \<longrightarrow> (dc_dimension c, dc_pos c) \<noteq> (d, p)) \<longrightarrow>
      fst (load d p st') = fst (load d p st))"
  using assms
proof (induction cs arbitrary: st saved n cleaned st')
  case Nil
  then show ?case by simp
next
  case (Cons e cs)
  obtain now c where e: "e = (now, c)" by fastforce
  have less: "ok (length cs + k) st" using Cons.prems(1) ok_less by simp
  have ok_any: "ok (j + k) st \<Longrightarrow> ok k st" for j st by (induction j) (auto dest: ok_less)
  have dist: "distinct (map dc_entity (map snd cs))" "distinct (map (\<lambda>c. (dc_dimension c, dc_pos c)) (map snd cs))"
    and fresh: "dc_entity c \<notin> dc_entity ` snd ` set cs"
      "\<And>c'. c' \<in> snd ` set cs \<Longrightarrow> (dc_dimension c', dc_pos c') \<noteq> (dc_dimension c, dc_pos c)"
    using Cons.prems(2,3) by (auto simp: e image_iff)
  show ?case
  proof (cases "limit \<noteq> 0 \<and> limit \<le> saved")
    case True
    then have "n = saved" "cleaned = []" "st' = st" using Cons.prems(4) by (auto simp: e)
    then show ?thesis using ok_any [of "length (e # cs)"] Cons.prems(1) by simp
  next
    case False
    let ?save = "save_chunk (save now) lib (regenerate_light_on_load config) (dc_dimension c) (dc_pos c) (dc_data c) st"
    obtain r st1 where r: "?save = Some (r, st1)"
      using Cons.prems(4) False by (cases ?save) (auto simp: e)
    have ok1: "ok (Suc (length cs + k)) st" using Cons.prems(1) by simp
    show ?thesis
    proof (rule save_chunk_cases [OF ok1 r])
      fix err assume f: "r = Inl err" "ok (length cs + k) st1" "\<And>d' p'. fst (load d' p' st1) = fst (load d' p' st)"
      have "flush_dirty save lib config limit saved cs st1 = Some (n, cleaned, st')"
        using Cons.prems(4) False f(1) r by (auto simp: e)
      from Cons.IH [OF f(2) dist this] show ?thesis
        using fresh(1) f(3) by (auto simp: e image_iff)
    next
      fix b assume b: "serialize_chunk lib (dc_dimension c) (cp_x (dc_pos c)) (cp_z (dc_pos c)) (dc_data c)
          (\<not> regenerate_light_on_load config) = Some (Inr b :: 'e persistence_error + u8 list)"
        "r = Inr ()" "ok (length cs + k) st1" "readable b \<Longrightarrow> fst (load (dc_dimension c) (dc_pos c) st1) = Inr (Some b)"
        "\<And>d' p'. (d', p') \<noteq> (dc_dimension c, dc_pos c) \<Longrightarrow> fst (load d' p' st1) = fst (load d' p' st)"
      obtain cleaned1 where f: "flush_dirty save lib config limit (saved + 1) cs st1 = Some (n, cleaned1, st')"
        "cleaned = dc_entity c # cleaned1"
        using Cons.prems(4) False b(2) r by (auto simp: e)
      note IH = Cons.IH [OF b(3) dist f(1)]
      have "fst (load (dc_dimension c) (dc_pos c) st') = fst (load (dc_dimension c) (dc_pos c) st1)"
        using IH fresh(2) by blast
      then have "saved_as load readable lib config c st'" using b(1,4) unfolding saved_as_def by auto
      moreover have "saved_as load readable lib config c' st'" if "c' \<in> snd ` set cs" "dc_entity c' \<in> set cleaned" for c'
        using IH that fresh(1) f(2) by (metis image_eqI set_ConsD)
      moreover have "fst (load d p st') = fst (load d p st)"
        if "\<forall>c' \<in> snd ` set (e # cs). dc_entity c' \<in> set cleaned \<longrightarrow> (dc_dimension c', dc_pos c') \<noteq> (d, p)" for d p
      proof -
        have "(d, p) \<noteq> (dc_dimension c, dc_pos c)" using that f(2) by (auto simp: e)
        then have "fst (load d p st1) = fst (load d p st)" by (rule b(5))
        moreover have "fst (load d p st') = fst (load d p st1)" using IH that f(2) by (auto simp: e)
        ultimately show ?thesis by simp
      qed
      ultimately show ?thesis using IH f(2) False by (auto simp: e)
    qed
  qed
qed

lemma flush_dirty_all:
  assumes "ok (length cs + k) st"
    and "\<And>c. c \<in> snd ` set cs \<Longrightarrow> \<exists>b. serialize_chunk lib (dc_dimension c) (cp_x (dc_pos c)) (cp_z (dc_pos c)) (dc_data c)
      (\<not> regenerate_light_on_load config) = Some (Inr b :: 'e persistence_error + u8 list) \<and> storable b"
  shows "\<exists>st'. flush_dirty save lib config 0 saved cs st = Some (saved + length cs, map dc_entity (map snd cs), st')"
  using assms
proof (induction cs arbitrary: st saved)
  case (Cons e cs)
  obtain now c where e: "e = (now, c)" by fastforce
  obtain b where b: "serialize_chunk lib (dc_dimension c) (cp_x (dc_pos c)) (cp_z (dc_pos c)) (dc_data c)
      (\<not> regenerate_light_on_load config) = Some (Inr b :: 'e persistence_error + u8 list)" "storable b"
    using Cons.prems(2) [of c] by (auto simp: e)
  have ok1: "ok (Suc (length cs + k)) st" using Cons.prems(1) by simp
  obtain r st1 where w: "save now (dc_dimension c) (dc_pos c) b st = (r, st1)" by fastforce
  have "r = Inr ()" using write_storable [OF ok1 b(2), of now "dc_dimension c" "dc_pos c"] w by simp
  then have s: "save_chunk (save now) lib (regenerate_light_on_load config) (dc_dimension c) (dc_pos c) (dc_data c) st
      = Some (Inr (), st1)"
    using b(1) w by (simp add: save_chunk_def)
  have "ok (length cs + k) st1" using write_ok [OF ok1, of now "dc_dimension c" "dc_pos c" b] w by simp
  then obtain st' where "flush_dirty save lib config 0 (saved + 1) cs st1 =
      Some (saved + 1 + length cs, map dc_entity (map snd cs), st')"
    using Cons.IH [of st1 "saved + 1"] Cons.prems(2) by auto
  then show ?case using s by (simp add: e)
qed simp

end

section \<open>The region store keeps what the server saves\<close>

text \<open>What saving a chunk relies on: its tree is written and parsed back by the NBT library, and the bytes
  are compressed and unpacked by zlib into at most 255 sectors.\<close>

definition saveable ::
  "(u8 list \<Rightarrow> u8 list) \<Rightarrow> (u8 list \<Rightarrow> 'e + u8 list) \<Rightarrow> nbt_library \<Rightarrow> bool \<Rightarrow> dirty_chunk \<Rightarrow> bool" where
  "saveable compress decompress lib regen c \<longleftrightarrow>
     (\<forall>n. chunk_to_nbt (dc_dimension c) (cp_x (dc_pos c)) (cp_z (dc_pos c)) (dc_data c) (\<not> regen) = Some n \<longrightarrow>
        (\<exists>b. lib_write lib n = Inr b \<and> lib_read lib b = Inr n \<and> storable compress decompress b))"

text \<open>One dirty chunk, and an NBT library that knows its tree.\<close>

abbreviation demo_config :: persistence_config where
  "demo_config \<equiv> \<lparr>save_interval_ticks = 200, regenerate_light_on_load = False, max_saves_per_flush = 0\<rparr>"

abbreviation demo_chunk :: dirty_chunk where
  "demo_chunk \<equiv> \<lparr>dc_entity = 1, dc_pos = \<lparr>cp_x = 3, cp_z = - 5\<rparr>, dc_dimension = Overworld, dc_data = empty_chunk\<rparr>"

abbreviation demo_lib :: nbt_library where
  "demo_lib \<equiv> \<lparr>lib_write = (\<lambda>n. Inr [1]), lib_read = (\<lambda>b. Inr (the (chunk_to_nbt Overworld 3 (- 5) empty_chunk True)))\<rparr>"

abbreviation unzip :: "u8 list \<Rightarrow> nat + u8 list" where
  "unzip \<equiv> Inr"

abbreviation demo_write ::
  "u32 \<Rightarrow> dimension \<Rightarrow> chunk_pos \<Rightarrow> u8 list \<Rightarrow> region_store \<Rightarrow> (nat persistence_error + unit) \<times> region_store" where
  "demo_write \<equiv> store_write id"

lemma demo_facts:
  "registry_ok sign_kinds" "in_world (dc_pos demo_chunk)" "storable id unzip [1]"
  "\<exists>b. serialize_chunk demo_lib Overworld 3 (- 5) empty_chunk True = Some (Inr b :: nat persistence_error + u8 list) \<and>
     storable id unzip b"
proof -
  show w: "in_world (dc_pos demo_chunk)" and r: "registry_ok sign_kinds" by (simp_all add: in_world_def registry_ok_def)
  show s: "storable id unzip [1]" by (simp add: storable_def payload_sectors_def div_ceil_def)
  obtain n where "chunk_to_nbt Overworld 3 (- 5) empty_chunk True = Some n"
    using chunk_round [OF empty_chunk_hosts r w, of Overworld False] by auto
  then show "\<exists>b. serialize_chunk demo_lib Overworld 3 (- 5) empty_chunk True = Some (Inr b :: nat persistence_error + u8 list) \<and>
     storable id unzip b"
    using s by (simp add: serialize_chunk_def)
qed

text \<open>C28: a flush of the dirty chunks removes the marker only of chunks the store now holds: each of them
  reads back as it was serialized, so a chunk that cannot be serialized, or that the store refuses because it
  is too large, keeps its marker; every other chunk reads as before, and no more than the configured number is
  saved.\<close>

theorem flush_unmarks_what_it_saved:
  fixes decompress :: "u8 list \<Rightarrow> 'e + u8 list"
  assumes "store_inv (length cs) st" and "distinct (map dc_entity (map snd cs))"
    and "distinct (map (\<lambda>c. (dc_dimension c, dc_pos c)) (map snd cs))"
    and "\<forall>b. decompress (compress b) = Inr b"
    and "flush_dirty (store_write compress :: u32 \<Rightarrow> dimension \<Rightarrow> chunk_pos \<Rightarrow> u8 list \<Rightarrow> region_store \<Rightarrow> ('e persistence_error + unit) \<times> region_store)
      lib config limit 0 cs st = Some (n, cleaned, st')"
  shows "n = length cleaned \<and> (limit \<noteq> 0 \<longrightarrow> n \<le> limit) \<and>
    (\<forall>c \<in> snd ` set cs. dc_entity c \<in> set cleaned \<longrightarrow>
      (\<exists>b. serialize_chunk lib (dc_dimension c) (cp_x (dc_pos c)) (cp_z (dc_pos c)) (dc_data c)
          (\<not> regenerate_light_on_load config) = Some (Inr b :: 'e persistence_error + u8 list) \<and>
        stored decompress (dc_dimension c) (dc_pos c) st' = Inr (Some b))) \<and>
    (\<forall>d p. (\<forall>c \<in> snd ` set cs. dc_entity c \<in> set cleaned \<longrightarrow> (dc_dimension c, dc_pos c) \<noteq> (d, p)) \<longrightarrow>
      stored decompress d p st' = stored decompress d p st)"
proof -
  have "store_inv (length cs + 0) st" using assms(1) by simp
  note region.flush_dirty_spec [where compress = compress and decompress = decompress, OF this assms(2,3,5)]
  then show ?thesis using assms(4) by (auto simp: saved_as_def storable_def stored_def)
qed

lemma flush_unmarks_what_it_saved_witness:
  "\<exists>st'. flush_dirty demo_write demo_lib demo_config 0 0 [(7, demo_chunk)] (new_store [] Map.empty) = Some (1, [1], st') \<and>
     stored unzip Nether \<lparr>cp_x = 3, cp_z = - 5\<rparr> st' = stored unzip Nether \<lparr>cp_x = 3, cp_z = - 5\<rparr> (new_store [] Map.empty)"
proof -
  have inv: "store_inv (length [(7 :: u32, demo_chunk)] + 0) (new_store [] Map.empty)" by (rule new_store_inv) simp
  have ser: "\<exists>b. serialize_chunk demo_lib (dc_dimension c) (cp_x (dc_pos c)) (cp_z (dc_pos c)) (dc_data c)
      (\<not> regenerate_light_on_load demo_config) = Some (Inr b :: nat persistence_error + u8 list) \<and> storable id unzip b"
    if "c \<in> snd ` set [(7 :: u32, demo_chunk)]" for c
    using that demo_facts(4) by simp
  obtain st' where f: "flush_dirty demo_write demo_lib demo_config 0 0 [(7, demo_chunk)] (new_store [] Map.empty) = Some (1, [1], st')"
    using region.flush_dirty_all [OF inv ser, of 0] by auto
  have "stored unzip Nether \<lparr>cp_x = 3, cp_z = - 5\<rparr> st' = stored unzip Nether \<lparr>cp_x = 3, cp_z = - 5\<rparr> (new_store [] Map.empty)"
    using flush_unmarks_what_it_saved [where decompress = unzip, OF _ _ _ _ f] inv by simp
  then show ?thesis using f by blast
qed

text \<open>C3: when the server exits, every dirty chunk is saved: no marker is left, and after a restart each of
  the chunks loads with all its blocks, biomes and block entities.\<close>

theorem exit_saves_every_chunk:
  fixes decompress :: "u8 list \<Rightarrow> 'e + u8 list"
  assumes inv: "store_inv (length (dirty w)) (store w)" and clock: "length clock = length (dirty w)"
    and dist: "distinct (map dc_entity (dirty w))" "distinct (map (\<lambda>c. (dc_dimension c, dc_pos c)) (dirty w))"
    and reg: "registry_ok reg"
    and chunks: "\<forall>c \<in> set (dirty w). chunk_ok reg (dc_data c) \<and> in_world (dc_pos c) \<and>
      saveable compress decompress lib (regenerate_light_on_load config) c"
  shows "\<exists>w'. flush_on_exit (store_write compress :: u32 \<Rightarrow> dimension \<Rightarrow> chunk_pos \<Rightarrow> u8 list \<Rightarrow> region_store \<Rightarrow> ('e persistence_error + unit) \<times> region_store)
      lib config clock True w = Some w' \<and> dirty w' = [] \<and>
    (\<forall>c \<in> set (dirty w). map_option fst (load_chunk (store_read decompress) lib reg (dc_dimension c) (dc_pos c) (restart (store w')))
      = Some (Some (reloaded (regenerate_light_on_load config) (dc_data c))))"
proof -
  let ?regen = "regenerate_light_on_load config"
  let ?put = "store_write compress :: u32 \<Rightarrow> dimension \<Rightarrow> chunk_pos \<Rightarrow> u8 list \<Rightarrow> region_store \<Rightarrow> ('e persistence_error + unit) \<times> region_store"
  let ?cs = "zip clock (dirty w)"
  have snds: "map snd ?cs = dirty w" using clock by simp
  then have set_snds: "snd ` set ?cs = set (dirty w)" by (metis set_map)
  have tree: "\<exists>n b. serialize_chunk lib (dc_dimension c) (cp_x (dc_pos c)) (cp_z (dc_pos c)) (dc_data c) (\<not> ?regen)
        = Some (Inr b :: 'e persistence_error + u8 list) \<and> storable compress decompress b \<and> lib_read lib b = Inr n \<and>
      chunk_from_nbt reg n = (Some (Inr \<lparr>lc_dimension = dc_dimension c, lc_x = cp_x (dc_pos c), lc_z = cp_z (dc_pos c),
        lc_data = reloaded ?regen (dc_data c)\<rparr>) :: ('e persistence_error + loaded_chunk) option)"
    if c: "c \<in> set (dirty w)" for c
  proof -
    have ok: "chunk_ok reg (dc_data c)" "in_world (dc_pos c)" "saveable compress decompress lib ?regen c"
      using chunks c by auto
    obtain n where n: "chunk_to_nbt (dc_dimension c) (cp_x (dc_pos c)) (cp_z (dc_pos c)) (dc_data c) (\<not> ?regen) = Some n"
      "chunk_from_nbt reg n = (Some (Inr \<lparr>lc_dimension = dc_dimension c, lc_x = cp_x (dc_pos c), lc_z = cp_z (dc_pos c),
        lc_data = reloaded ?regen (dc_data c)\<rparr>) :: ('e persistence_error + loaded_chunk) option)"
      using chunk_round [OF ok(1) reg ok(2)] .
    then show ?thesis using ok(3) by (auto simp: saveable_def serialize_chunk_def)
  qed
  have inv0: "store_inv (length ?cs + 0) (store w)" using inv clock by simp
  have ser: "\<exists>b. serialize_chunk lib (dc_dimension c) (cp_x (dc_pos c)) (cp_z (dc_pos c)) (dc_data c) (\<not> ?regen)
      = Some (Inr b :: 'e persistence_error + u8 list) \<and> storable compress decompress b" if "c \<in> snd ` set ?cs" for c
    using tree that set_snds by blast
  obtain st' where f: "flush_dirty ?put lib config 0 0 ?cs (store w) = Some (0 + length ?cs, map dc_entity (map snd ?cs), st')"
    using region.flush_dirty_all [OF inv0 ser] by blast
  have dist': "distinct (map dc_entity (map snd ?cs))" "distinct (map (\<lambda>c. (dc_dimension c, dc_pos c)) (map snd ?cs))"
    using dist snds by simp_all
  note spec = region.flush_dirty_spec [where compress = compress and decompress = decompress, OF inv0 dist' f]
  let ?w = "w\<lparr>dirty := flushed (map dc_entity (map snd ?cs)) (dirty w), store := st'\<rparr>"
  have w': "flush_on_exit ?put lib config clock True w = Some ?w"
    by (simp add: flush_on_exit_def f del: map_map)
  have none: "dirty ?w = []" by (simp add: flushed_def snds filter_empty_conv del: map_map)
  have "map_option fst (load_chunk (store_read decompress) lib reg (dc_dimension c) (dc_pos c) (restart st'))
      = Some (Some (reloaded ?regen (dc_data c)))" if c: "c \<in> set (dirty w)" for c
  proof -
    obtain n b where b: "serialize_chunk lib (dc_dimension c) (cp_x (dc_pos c)) (cp_z (dc_pos c)) (dc_data c) (\<not> ?regen)
        = Some (Inr b :: 'e persistence_error + u8 list)" "storable compress decompress b" "lib_read lib b = Inr n"
      "chunk_from_nbt reg n = (Some (Inr \<lparr>lc_dimension = dc_dimension c, lc_x = cp_x (dc_pos c), lc_z = cp_z (dc_pos c),
        lc_data = reloaded ?regen (dc_data c)\<rparr>) :: ('e persistence_error + loaded_chunk) option)"
      using tree [OF c] by blast
    have in_cs: "c \<in> snd ` set ?cs" using c set_snds by simp
    moreover have "dc_entity c \<in> set (map dc_entity (map snd ?cs))" using c unfolding snds by simp
    ultimately have "saved_as (store_read decompress) (\<lambda>b. decompress (compress b) = Inr b) lib config c st'"
      using spec by blast
    then have "fst (store_read decompress (dc_dimension c) (dc_pos c) st') = Inr (Some b)"
      using b(1,2) by (auto simp: saved_as_def storable_def)
    moreover have "store_ok st'" using spec by (simp add: store_inv_def)
    ultimately have "fst (store_read decompress (dc_dimension c) (dc_pos c) (restart st')) = Inr (Some b)"
      using restart_stored [of st' decompress "dc_dimension c" "dc_pos c"] by (simp add: stored_def)
    then show ?thesis
      using b(3,4) by (cases "store_read decompress (dc_dimension c) (dc_pos c) (restart st')")
        (simp add: load_chunk_def deserialize_chunk_def)
  qed
  then show ?thesis using w' none by auto
qed

lemma exit_saves_every_chunk_witness:
  "\<exists>w'. flush_on_exit demo_write demo_lib demo_config [7] True \<lparr>ticker = 5, dirty = [demo_chunk], store = new_store [] Map.empty\<rparr>
      = Some w' \<and> dirty w' = [] \<and>
     map_option fst (load_chunk (store_read unzip) demo_lib sign_kinds Overworld \<lparr>cp_x = 3, cp_z = - 5\<rparr> (restart (store w')))
      = Some (Some (reloaded False empty_chunk))"
proof -
  let ?w = "\<lparr>ticker = 5, dirty = [demo_chunk], store = new_store [] Map.empty\<rparr>"
  have inv: "store_inv (length (dirty ?w)) (store ?w)" using new_store_inv [of 1 "[]"] by simp
  have "chunk_ok sign_kinds (dc_data c) \<and> in_world (dc_pos c) \<and>
      saveable id unzip demo_lib (regenerate_light_on_load demo_config) c" if "c \<in> set (dirty ?w)" for c
    using that empty_chunk_hosts demo_facts(2,3) by (auto simp: saveable_def)
  then show ?thesis
    using exit_saves_every_chunk [where compress = id and decompress = unzip and w = ?w and clock = "[7]" and reg = sign_kinds
        and lib = demo_lib and config = demo_config] inv demo_facts(1) by simp
qed

end
