(* ===== verification/Command_Parsers.thy ===== *)
theory Command_Parsers
  imports Region_Store
begin

text \<open>
  Argument parsers of server commands (\<open>void/src/commands/parser.rs\<close>) and parse errors
  (\<open>error.rs\<close>). A parser is a record of the trait's methods; \<open>'w\<close> is the part of the world parsers
  look at and \<open>'u\<close> the values of \<open>EnumArg\<close>. Text is made of the characters U+0000 to U+00FF, one
  \<open>char\<close> each; the parsers of floating-point numbers, times, UUIDs and coordinates are not modelled.
\<close>

section \<open>Text\<close>

text \<open>\<open>char::is_alphabetic\<close> and the length in UTF-8 bytes of the characters up to U+00FF.\<close>

definition is_alphabetic :: "char \<Rightarrow> bool" where
  "is_alphabetic c \<longleftrightarrow> (let n = of_char c :: nat in
     (65 \<le> n \<and> n \<le> 90) \<or> (97 \<le> n \<and> n \<le> 122) \<or> n = 170 \<or> n = 181 \<or> n = 186 \<or>
     (192 \<le> n \<and> n \<le> 214) \<or> (216 \<le> n \<and> n \<le> 246) \<or> (248 \<le> n \<and> n \<le> 255))"

definition utf8_len :: "string \<Rightarrow> nat" where
  "utf8_len s = sum_list (map (\<lambda>c. if (of_char c :: nat) < 128 then 1 else 2) s)"

text \<open>\<open>to_ascii_lowercase\<close>, under which \<open>eq_ignore_ascii_case\<close> compares.\<close>

definition ascii_lower :: "char \<Rightarrow> char" where
  "ascii_lower c = (let n = of_char c :: nat in if 65 \<le> n \<and> n \<le> 90 then char_of (n + 32) else c)"

definition eq_ignore_ascii_case :: "string \<Rightarrow> string \<Rightarrow> bool" where
  "eq_ignore_ascii_case s t \<longleftrightarrow> map ascii_lower s = map ascii_lower t"

text \<open>\<open>candidate.get(..partial.len())\<close>; names of candidates and partial input are ASCII.\<close>

definition starts_with_ignore_case :: "string \<Rightarrow> string \<Rightarrow> bool" where
  "starts_with_ignore_case candidate partial \<longleftrightarrow>
     length partial \<le> length candidate \<and> eq_ignore_ascii_case (take (length partial) candidate) partial"

fun join :: "string \<Rightarrow> string list \<Rightarrow> string" where
  "join sep [] = []"
| "join sep [s] = s"
| "join sep (s # t # ss) = s @ sep @ join sep (t # ss)"

definition quoted :: "string \<Rightarrow> string" where
  "quoted s = CHR 0x27 # s @ [CHR 0x27]"

section \<open>Errors\<close>

datatype parse_error =
    MissingArgument string string
  | InvalidValue string string string "string option"
  | OutOfRange string string "string option" "string option"
  | UnknownFlag string
  | FlagMissingValue string
  | TooManyArguments nat nat

text \<open>\<open>infty\<close> is the sign for infinity, which is beyond the characters modelled.\<close>

definition to_player_message :: "string \<Rightarrow> parse_error \<Rightarrow> string" where
  "to_player_message infty e =
     (case e of
        MissingArgument name expected_type \<Rightarrow>
          ''Missing required argument <'' @ name @ ''> (expected '' @ expected_type @ '')''
      | InvalidValue name v expected detail \<Rightarrow>
          (let base = ''Invalid value '' @ quoted v @ '' for <'' @ name @ ''>: expected '' @ expected
           in case detail of Some d \<Rightarrow> base @ '' ('' @ d @ '')'' | None \<Rightarrow> base)
      | OutOfRange name v lo hi \<Rightarrow>
          (let range = (case (lo, hi) of
               (Some lo, Some hi) \<Rightarrow> lo @ ''..'' @ hi
             | (Some lo, None) \<Rightarrow> lo @ ''..'' @ infty
             | (None, Some hi) \<Rightarrow> ''-'' @ infty @ ''..'' @ hi
             | (None, None) \<Rightarrow> ''any'')
           in ''Value '' @ quoted v @ '' for <'' @ name @ ''> is out of range ('' @ range @ '')'')
      | UnknownFlag flag \<Rightarrow> ''Unknown flag: --'' @ flag
      | FlagMissingValue flag \<Rightarrow> ''Flag --'' @ flag @ '' requires a value''
      | TooManyArguments expected got \<Rightarrow>
          ''Too many arguments: expected '' @ show_nat expected @ '', got '' @ show_nat got)"

section \<open>Parsers\<close>

datatype string_type = SingleWord | QuotablePhrase | GreedyPhrase

text \<open>The parsers the client understands, those the modelled arguments use.\<close>

datatype protocol_parser =
    PBool
  | PInteger "i32 option" "i32 option"
  | PLong "i64 option" "i64 option"
  | PString string_type
  | PEntity bool bool
  | PGameProfile
  | PBlockPos
  | PVec3
  | PBlockState
  | PItemStack
  | PColor
  | PMessage
  | PResourceLocation
  | PDimension
  | PGameMode
  | PTime i32
  | PUuid

datatype game_mode = Survival | Creative | Adventure | Spectator

datatype 'u arg_value =
    VText string
  | VInt i32
  | VLong i64
  | VBool bool
  | VGameMode game_mode
  | VDimension dimension
  | VItem i32
  | VBlock i32
  | VEnum 'u

text \<open>The executor of a command and the world it looks at.\<close>

record 'w parse_context =
  pc_world :: 'w
  pc_executor :: nat

record ('w, 'u) arg_parser =
  type_name_of :: string
  parse :: "string \<Rightarrow> string + 'u arg_value"
  parse_in :: "string \<Rightarrow> 'w parse_context \<Rightarrow> string + 'u arg_value"
  protocol_parser_of :: "protocol_parser option"
  token_count :: nat
  suggestions :: "string \<Rightarrow> 'w \<Rightarrow> string list"
  suggestions_type :: "string option"

text \<open>The trait's defaults: the context is ignored, one token, no suggestions.\<close>

definition plain_parser ::
  "string \<Rightarrow> (string \<Rightarrow> string + 'u arg_value) \<Rightarrow> protocol_parser option \<Rightarrow> ('w, 'u) arg_parser" where
  "plain_parser name p proto = \<lparr>type_name_of = name, parse = p, parse_in = (\<lambda>s _. p s), protocol_parser_of = proto,
     token_count = 1, suggestions = (\<lambda>_ _. []), suggestions_type = None\<rparr>"

abbreviation ASK_SERVER :: string where "ASK_SERVER \<equiv> ''minecraft:ask_server''"

definition check_bounds :: "(int \<Rightarrow> string) \<Rightarrow> int \<Rightarrow> int option \<Rightarrow> int option \<Rightarrow> string + int" where
  "check_bounds shown v lo hi =
     (if (case lo of Some m \<Rightarrow> v < m | None \<Rightarrow> False)
      then Inl (shown v @ '' is below minimum '' @ shown (the lo))
      else if (case hi of Some m \<Rightarrow> m < v | None \<Rightarrow> False)
      then Inl (shown v @ '' is above maximum '' @ shown (the hi))
      else Inr v)"

section \<open>Numbers\<close>

definition digit_value :: "char \<Rightarrow> nat option" where
  "digit_value c = (let n = of_char c :: nat in if 48 \<le> n \<and> n \<le> 57 then Some (n - 48) else None)"

fun digits_value :: "nat \<Rightarrow> string \<Rightarrow> nat option" where
  "digits_value a [] = Some a"
| "digits_value a (c # cs) = (case digit_value c of Some d \<Rightarrow> digits_value (10 * a + d) cs | None \<Rightarrow> None)"

text \<open>\<open>str::parse\<close> of a signed integer of \<open>w\<close> bits: an optional sign, digits, no overflow.\<close>

definition parse_signed :: "nat \<Rightarrow> string \<Rightarrow> int option" where
  "parse_signed w s =
     (let (neg, ds) = (case s of c # cs \<Rightarrow> if c = CHR ''-'' then (True, cs) else if c = CHR ''+'' then (False, cs) else (False, s)
                       | [] \<Rightarrow> (False, []))
      in if ds = [] then None
         else (case digits_value 0 ds of
             None \<Rightarrow> None
           | Some n \<Rightarrow>
               (let v = (if neg then - int n else int n)
                in if - (2 ^ (w - 1)) \<le> v \<and> v < 2 ^ (w - 1) then Some v else None)))"

text \<open>\<open>str::parse\<close> of a \<open>u8\<close>: no minus sign.\<close>

definition parse_u8 :: "string \<Rightarrow> nat option" where
  "parse_u8 s =
     (let ds = (case s of c # cs \<Rightarrow> if c = CHR ''+'' then cs else s | [] \<Rightarrow> [])
      in if ds = [] then None
         else (case digits_value 0 ds of Some n \<Rightarrow> if n < 256 then Some n else None | None \<Rightarrow> None))"

definition integer_arg :: "i32 option \<Rightarrow> i32 option \<Rightarrow> ('w, 'u) arg_parser" where
  "integer_arg lo hi = plain_parser ''integer''
     (\<lambda>input. case parse_signed 32 input of
        None \<Rightarrow> Inl (quoted input @ '' is not a valid integer'')
      | Some v \<Rightarrow> map_sum id (\<lambda>v. VInt (word_of_int v)) (check_bounds show_int v (map_option sint lo) (map_option sint hi)))
     (Some (PInteger lo hi))"

definition long_arg :: "i64 option \<Rightarrow> i64 option \<Rightarrow> ('w, 'u) arg_parser" where
  "long_arg lo hi = plain_parser ''long''
     (\<lambda>input. case parse_signed 64 input of
        None \<Rightarrow> Inl (quoted input @ '' is not a valid long integer'')
      | Some v \<Rightarrow> map_sum id (\<lambda>v. VLong (word_of_int v)) (check_bounds show_int v (map_option sint lo) (map_option sint hi)))
     (Some (PLong lo hi))"

section \<open>Text, flags and names\<close>

definition string_arg :: "string_type \<Rightarrow> ('w, 'u) arg_parser" where
  "string_arg t = plain_parser ''string'' (\<lambda>input. Inr (VText input)) (Some (PString t))"

definition greedy_string_arg :: "('w, 'u) arg_parser" where
  "greedy_string_arg = plain_parser ''text'' (\<lambda>input. Inr (VText input)) (Some (PString GreedyPhrase))"

definition message_arg :: "('w, 'u) arg_parser" where
  "message_arg = plain_parser ''message'' (\<lambda>input. Inr (VText input)) (Some PMessage)"

definition entity_arg :: "bool \<Rightarrow> bool \<Rightarrow> ('w, 'u) arg_parser" where
  "entity_arg single players_only =
     plain_parser ''entity'' (\<lambda>input. Inr (VText input)) (Some (PEntity single players_only))"

text \<open>The ready players' names are read from the world.\<close>

definition game_profile_arg :: "('w \<Rightarrow> string list) \<Rightarrow> ('w, 'u) arg_parser" where
  "game_profile_arg ready_player_names =
     (plain_parser ''player'' (\<lambda>input. Inr (VText input)) (Some PGameProfile))
     \<lparr>suggestions := (\<lambda>partial world. filter (\<lambda>name. starts_with_ignore_case name partial) (ready_player_names world)),
      suggestions_type := Some ASK_SERVER\<rparr>"

text \<open>\<open>to_lowercase\<close> agrees with ASCII lower case on the words compared here.\<close>

definition bool_arg :: "('w, 'u) arg_parser" where
  "bool_arg = plain_parser ''boolean''
     (\<lambda>input.
        if map ascii_lower input \<in> {''true'', ''yes'', ''1''} then Inr (VBool True)
        else if map ascii_lower input \<in> {''false'', ''no'', ''0''} then Inr (VBool False)
        else Inl (quoted input @ '' is not a valid boolean (expected true/false/yes/no/1/0)''))
     (Some PBool)"

abbreviation ALL_GAME_MODES :: "game_mode list" where
  "ALL_GAME_MODES \<equiv> [Survival, Creative, Adventure, Spectator]"

fun game_mode_id :: "game_mode \<Rightarrow> nat" where
  "game_mode_id Survival = 0"
| "game_mode_id Creative = 1"
| "game_mode_id Adventure = 2"
| "game_mode_id Spectator = 3"

definition game_mode_from_id :: "nat \<Rightarrow> game_mode option" where
  "game_mode_from_id i = find (\<lambda>mode. game_mode_id mode = i) ALL_GAME_MODES"

fun game_mode_name :: "game_mode \<Rightarrow> string" where
  "game_mode_name Survival = ''survival''"
| "game_mode_name Creative = ''creative''"
| "game_mode_name Adventure = ''adventure''"
| "game_mode_name Spectator = ''spectator''"

definition game_mode_from_name :: "string \<Rightarrow> game_mode option" where
  "game_mode_from_name name = find (\<lambda>mode. eq_ignore_ascii_case (game_mode_name mode) name) ALL_GAME_MODES"

definition game_mode_arg :: "('w, 'u) arg_parser" where
  "game_mode_arg = plain_parser ''gamemode''
     (\<lambda>input.
        case (case game_mode_from_name input of
                Some m \<Rightarrow> Some m
              | None \<Rightarrow> Option.bind (parse_u8 input) game_mode_from_id) of
          Some m \<Rightarrow> Inr (VGameMode m)
        | None \<Rightarrow> Inl (quoted input @
            '' is not a valid game mode (expected survival, creative, adventure or spectator)''))
     (Some PGameMode)"

definition qualify :: "string \<Rightarrow> string" where
  "qualify name = (if CHR '':'' \<in> set name then name else ''minecraft:'' @ name)"

abbreviation ALL_DIMENSIONS :: "dimension list" where
  "ALL_DIMENSIONS \<equiv> [Overworld, Nether, End]"

definition dimension_arg :: "('w, 'u) arg_parser" where
  "dimension_arg = plain_parser ''dimension''
     (\<lambda>input.
        case find (\<lambda>d. dimension_name d = qualify input) ALL_DIMENSIONS of
          Some d \<Rightarrow> Inr (VDimension d)
        | None \<Rightarrow> Inl (quoted input @ '' is not a known dimension''))
     (Some PDimension)"

definition VANILLA_COLOR_NAMES :: "string list" where
  "VANILLA_COLOR_NAMES = [''black'', ''dark_blue'', ''dark_green'', ''dark_aqua'', ''dark_red'', ''dark_purple'',
     ''gold'', ''gray'', ''dark_gray'', ''blue'', ''green'', ''aqua'', ''red'', ''light_purple'', ''yellow'', ''white'', ''reset'']"

definition color_arg :: "('w, 'u) arg_parser" where
  "color_arg = plain_parser ''color''
     (\<lambda>input.
        case find (\<lambda>name. eq_ignore_ascii_case name input) VANILLA_COLOR_NAMES of
          Some name \<Rightarrow> Inr (VText name)
        | None \<Rightarrow> Inl (quoted input @ '' is not a valid color''))
     (Some PColor)"

text \<open>\<open>EnumArg::new\<close> panics without variants. A name is first compared exactly.\<close>

definition enum_arg :: "(string \<times> 'u) list \<Rightarrow> ('w, 'u) arg_parser option" where
  "enum_arg variants =
     (if variants = [] then None
      else
        (let name = join ''|'' (map fst variants) in
         Some ((plain_parser name
           (\<lambda>input.
              case (case find (\<lambda>(n, _). n = input) variants of
                      Some q \<Rightarrow> Some q
                    | None \<Rightarrow> find (\<lambda>(n, _). eq_ignore_ascii_case n input) variants) of
                Some (_, v) \<Rightarrow> Inr (VEnum v)
              | None \<Rightarrow> Inl (quoted input @ '' is not one of '' @ name))
           (Some (PString SingleWord)))
           \<lparr>suggestions := (\<lambda>partial _. filter (\<lambda>n. starts_with_ignore_case n partial) (map fst variants)),
            suggestions_type := Some ASK_SERVER\<rparr>)))"

definition valid_ns_char :: "char \<Rightarrow> bool" where
  "valid_ns_char c \<longleftrightarrow> (let n = of_char c :: nat in (97 \<le> n \<and> n \<le> 122) \<or> (48 \<le> n \<and> n \<le> 57)) \<or> c \<in> set ''_.-''"

definition valid_path_char :: "char \<Rightarrow> bool" where
  "valid_path_char c \<longleftrightarrow> (let n = of_char c :: nat in (97 \<le> n \<and> n \<le> 122) \<or> (48 \<le> n \<and> n \<le> 57)) \<or> c \<in> set ''_.-/''"

text \<open>\<open>splitn(2, ':')\<close>: the parts around the first colon.\<close>

definition split_colon :: "string \<Rightarrow> (string \<times> string) option" where
  "split_colon s = (if CHR '':'' \<in> set s
     then Some (takeWhile (\<lambda>c. c \<noteq> CHR '':'') s, tl (dropWhile (\<lambda>c. c \<noteq> CHR '':'') s)) else None)"

definition parse_resource_location :: "string \<Rightarrow> string + 'u arg_value" where
  "parse_resource_location input =
     (case split_colon input of
        None \<Rightarrow> Inl (quoted input @ '' is not a valid resource location (expected namespace:path)'')
      | Some (ns, path) \<Rightarrow>
          if ns = [] then Inl ''resource location namespace must not be empty''
          else if path = [] then Inl ''resource location path must not be empty''
          else if \<not> list_all valid_ns_char ns then Inl (''namespace '' @ quoted ns @ '' contains invalid characters'')
          else if \<not> list_all valid_path_char path then Inl (''path '' @ quoted path @ '' contains invalid characters'')
          else Inr (VText input))"

definition resource_location_arg :: "('w, 'u) arg_parser" where
  "resource_location_arg = plain_parser ''resource_location'' parse_resource_location (Some PResourceLocation)"

definition summonable_entity_arg :: "('w, 'u) arg_parser" where
  "summonable_entity_arg =
     (plain_parser ''resource_location'' parse_resource_location (Some PResourceLocation))
     \<lparr>suggestions_type := Some ''minecraft:summonable_entities''\<rparr>"

text \<open>The item and block registries are generated data.\<close>

definition item_arg :: "(string \<Rightarrow> i32 option) \<Rightarrow> ('w, 'u) arg_parser" where
  "item_arg item_from_name = plain_parser ''item''
     (\<lambda>input. case item_from_name input of
        Some i \<Rightarrow> Inr (VItem i) | None \<Rightarrow> Inl (quoted input @ '' is not a known item''))
     (Some PItemStack)"

definition block_arg :: "(string \<Rightarrow> i32 option) \<Rightarrow> ('w, 'u) arg_parser" where
  "block_arg block_default_state = plain_parser ''block''
     (\<lambda>input. case block_default_state (qualify input) of
        Some s \<Rightarrow> Inr (VBlock s) | None \<Rightarrow> Inl (quoted input @ '' is not a known block''))
     (Some PBlockState)"

end
