(* ===== verification/Command_Flags.thy ===== *)
theory Command_Flags
  imports Command_Parsers
begin

text \<open>
  Command line flags (\<open>void/src/commands/flags.rs\<close>) and the completion's view of them
  (\<open>commands/mod.rs\<close>): \<open>extract_flags\<close> separates flags from positional tokens and \<open>positional_count\<close>
  counts the positional tokens of a line still being typed. The two agree where flags are well formed.
\<close>

section \<open>Definitions and values of flags\<close>

record ('w, 'u) flag_definition =
  fl_long :: string
  fl_short :: "char option"
  fl_description :: string
  takes_value :: bool
  value_parser :: "('w, 'u) arg_parser option"

definition matches_token :: "('w, 'u) flag_definition \<Rightarrow> string \<Rightarrow> bool" where
  "matches_token d token =
     (case strip_prefix ''--'' token of
        Some long \<Rightarrow> long = fl_long d
      | None \<Rightarrow>
          (case ((case strip_prefix ''-'' token of Some s \<Rightarrow> s | None \<Rightarrow> []), fl_short d) of
             ([c], Some expected) \<Rightarrow> c = expected
           | _ \<Rightarrow> False))"

record 'u flag_set =
  bool_flags :: "string \<rightharpoonup> bool"
  value_flags :: "string \<rightharpoonup> 'u arg_value"

definition no_flags :: "'u flag_set" where
  "no_flags = \<lparr>bool_flags = Map.empty, value_flags = Map.empty\<rparr>"

definition has_flag :: "'u flag_set \<Rightarrow> string \<Rightarrow> bool" where
  "has_flag fs name = (case bool_flags fs name of Some b \<Rightarrow> b | None \<Rightarrow> False)"

definition get_value :: "'u flag_set \<Rightarrow> string \<Rightarrow> 'u arg_value option" where
  "get_value fs name = value_flags fs name"

definition set_bool :: "string \<Rightarrow> 'u flag_set \<Rightarrow> 'u flag_set" where
  "set_bool name fs = fs\<lparr>bool_flags := (bool_flags fs)(name \<mapsto> True)\<rparr>"

type_synonym 'u flag_state = "'u flag_set \<times> parse_error list"

definition insert_value ::
  "('w, 'u) flag_definition \<Rightarrow> string \<Rightarrow> 'w parse_context \<Rightarrow> 'u flag_state \<Rightarrow> 'u flag_state" where
  "insert_value d v ctx st =
     (case st of (fs, errors) \<Rightarrow>
       (case value_parser d of
          None \<Rightarrow> (fs\<lparr>value_flags := (value_flags fs)(fl_long d \<mapsto> VText v)\<rparr>, errors)
        | Some p \<Rightarrow>
            (case parse_in p v ctx of
               Inr x \<Rightarrow> (fs\<lparr>value_flags := (value_flags fs)(fl_long d \<mapsto> x)\<rparr>, errors)
             | Inl detail \<Rightarrow> (fs, errors @ [InvalidValue (fl_long d) v (type_name_of p) (Some detail)]))))"

section \<open>Separating flags from positional tokens\<close>

text \<open>
  The loop over the characters of \<open>-abc\<close>; \<open>rest\<close> are the tokens after this one. The result says
  whether every character named a flag.
\<close>

fun short_group ::
  "('w, 'u) flag_definition list \<Rightarrow> 'w parse_context \<Rightarrow> string \<Rightarrow> string \<Rightarrow> string list \<Rightarrow> 'u flag_state \<Rightarrow> bool \<Rightarrow>
   string list \<times> 'u flag_state \<times> bool" where
  "short_group ds ctx shorts [] rest st matched = (rest, st, matched)"
| "short_group ds ctx shorts (c # cs) rest (fs, errors) matched =
     (case find (\<lambda>d. fl_short d = Some c) ds of
        Some d \<Rightarrow>
          if takes_value d then
            (if utf8_len shorts = 1 \<and> rest \<noteq> []
             then short_group ds ctx shorts cs (tl rest) (insert_value d (hd rest) ctx (fs, errors)) matched
             else short_group ds ctx shorts cs rest (fs, errors @ [FlagMissingValue (fl_long d)]) matched)
          else short_group ds ctx shorts cs rest (set_bool (fl_long d) fs, errors) matched
      | None \<Rightarrow> short_group ds ctx shorts cs rest (fs, errors @ [UnknownFlag [c]]) False)"

lemma short_group_length: "length (fst (short_group ds ctx shorts cs rest st matched)) \<le> length rest"
proof (induction ds ctx shorts cs rest st matched rule: short_group.induct)
  case (2 ds ctx shorts c cs rest fs errors matched)
  show ?case
  proof (cases "find (\<lambda>d. fl_short d = Some c) ds")
    case None
    then show ?thesis using 2(1) [OF None] by simp
  next
    case (Some d)
    then show ?thesis
      using 2(2) [OF Some] 2(3) [OF Some] 2(4) [OF Some] by (cases "takes_value d") (auto intro: order_trans)
  qed
qed simp

text \<open>
  The body of the loop for the token after which \<open>rest\<close> remains, before a lone \<open>--\<close> has stopped the
  parsing of flags: whether it stops here, the tokens left, whether the token is positional, and the
  flags and errors.
\<close>

definition flag_step ::
  "('w, 'u) flag_definition list \<Rightarrow> 'w parse_context \<Rightarrow> string \<Rightarrow> string list \<Rightarrow> 'u flag_state \<Rightarrow>
   bool \<times> string list \<times> bool \<times> 'u flag_state" where
  "flag_step ds ctx token rest st =
     (if token = ''--'' then (True, rest, False, st)
      else
        (case strip_prefix ''--'' token of
           Some long_name \<Rightarrow>
             (case find (\<lambda>d. fl_long d = long_name) ds of
                Some d \<Rightarrow>
                  if takes_value d then
                    (case rest of
                       v # rest' \<Rightarrow> (False, rest', False, insert_value d v ctx st)
                     | [] \<Rightarrow> (False, [], False, (fst st, snd st @ [FlagMissingValue (fl_long d)])))
                  else (False, rest, False, (set_bool (fl_long d) (fst st), snd st))
              | None \<Rightarrow> (False, rest, False, (fst st, snd st @ [UnknownFlag long_name])))
         | None \<Rightarrow>
             (case strip_prefix ''-'' token of
                Some shorts \<Rightarrow>
                  if shorts \<noteq> [] \<and> list_all is_alphabetic shorts then
                    (case short_group ds ctx shorts shorts rest st True of
                       (rest', st', matched) \<Rightarrow> (False, rest', \<not> (matched \<or> snd st' \<noteq> []), st'))
                  else (False, rest, True, st)
              | None \<Rightarrow> (False, rest, True, st))))"

lemma flag_step_length: "length (fst (snd (flag_step ds ctx token rest st))) \<le> length rest"
  using short_group_length [of ds ctx _ _ rest st True]
  unfolding flag_step_def by (auto split: option.splits list.splits prod.splits) (metis fst_conv)+

text \<open>The pass over the tokens; once \<open>stopped\<close>, every token is positional.\<close>

function extract_loop ::
  "('w, 'u) flag_definition list \<Rightarrow> 'w parse_context \<Rightarrow> bool \<Rightarrow> string list \<Rightarrow> string list \<Rightarrow> 'u flag_state \<Rightarrow>
   string list \<times> 'u flag_state" where
  "extract_loop ds ctx stopped [] positional st = (positional, st)"
| "extract_loop ds ctx stopped (token # rest) positional st =
     (if stopped then extract_loop ds ctx stopped rest (positional @ [token]) st
      else
        (let r = flag_step ds ctx token rest st in
         extract_loop ds ctx (fst r) (fst (snd r))
           (if fst (snd (snd r)) then positional @ [token] else positional) (snd (snd (snd r)))))"
  by pat_completeness auto
termination
  by (relation "measure (\<lambda>(ds, ctx, stopped, tokens, positional, st). length tokens)")
    (auto simp: less_Suc_eq_le flag_step_length)

definition extract_flags ::
  "string list \<Rightarrow> ('w, 'u) flag_definition list \<Rightarrow> 'w parse_context \<Rightarrow> string list \<times> 'u flag_set \<times> parse_error list" where
  "extract_flags tokens definitions ctx = extract_loop definitions ctx False tokens [] (no_flags, [])"

section \<open>The view of the completion\<close>

definition is_combined_short_flags :: "string \<Rightarrow> ('w, 'u) flag_definition list \<Rightarrow> bool" where
  "is_combined_short_flags token ds =
     (case strip_prefix ''-'' token of
        None \<Rightarrow> False
      | Some shorts \<Rightarrow> 1 < utf8_len shorts \<and>
          list_all (\<lambda>c. list_ex (\<lambda>d. fl_short d = Some c \<and> \<not> takes_value d) ds) shorts)"

text \<open>The body of the loop while flags are allowed: whether they end here, the tokens left, and whether the token counts.\<close>

definition count_step ::
  "('w, 'u) flag_definition list \<Rightarrow> string \<Rightarrow> string list \<Rightarrow> bool \<times> string list \<times> bool" where
  "count_step ds token rest =
     (if token = ''--'' then (True, rest, False)
      else
        (case find (\<lambda>d. matches_token d token) ds of
           Some d \<Rightarrow> (False, (if takes_value d then drop 1 rest else rest), False)
         | None \<Rightarrow> (False, rest, \<not> is_combined_short_flags token ds)))"

function count_loop :: "('w, 'u) flag_definition list \<Rightarrow> bool \<Rightarrow> string list \<Rightarrow> nat \<Rightarrow> nat" where
  "count_loop ds flags_allowed [] count = count"
| "count_loop ds flags_allowed (token # rest) count =
     (if flags_allowed then
        (let r = count_step ds token rest in
         count_loop ds (\<not> fst r) (fst (snd r)) (if snd (snd r) then count + 1 else count))
      else count_loop ds flags_allowed rest (count + 1))"
  by pat_completeness auto
termination
  by (relation "measure (\<lambda>(ds, flags_allowed, tokens, count). length tokens)")
    (auto simp: count_step_def split: option.splits)

definition positional_count :: "string list \<Rightarrow> ('w, 'u) flag_definition list \<Rightarrow> nat" where
  "positional_count tokens ds = count_loop ds True tokens 0"

definition flag_completions :: "('w, 'u) flag_definition list \<Rightarrow> string \<Rightarrow> string list" where
  "flag_completions ds partial =
     filter (\<lambda>flag. strip_prefix partial flag \<noteq> None)
       (concat (map (\<lambda>d. (''--'' @ fl_long d) # (case fl_short d of Some c \<Rightarrow> [[CHR ''-'', c]] | None \<Rightarrow> [])) ds))"

section \<open>The two views agree\<close>

text \<open>Errors of values, the only ones a line still being typed may have.\<close>

fun is_invalid_value :: "parse_error \<Rightarrow> bool" where
  "is_invalid_value (InvalidValue name v expected detail) = True"
| "is_invalid_value e = False"

lemma insert_value_errors:
  "set errors \<subseteq> set (snd (insert_value d v ctx (fs, errors)))"
  by (auto simp: insert_value_def split: option.splits sum.splits)

lemma short_group_errors:
  "set (snd st) \<subseteq> set (snd (fst (snd (short_group ds ctx shorts cs rest st matched))))"
proof (induction ds ctx shorts cs rest st matched rule: short_group.induct)
  case (2 ds ctx shorts c cs rest fs errors matched)
  show ?case
  proof (cases "find (\<lambda>d. fl_short d = Some c) ds")
    case None
    then show ?thesis using 2(1) [OF None] by simp
  next
    case (Some d)
    then show ?thesis
      using 2(2) [OF Some] 2(3) [OF Some] 2(4) [OF Some] insert_value_errors [of errors d "hd rest" ctx fs]
      by (cases "takes_value d") auto
  qed
qed simp

lemma flag_step_errors: "set (snd st) \<subseteq> set (snd (snd (snd (snd (flag_step ds ctx token rest st)))))"
proof -
  obtain fs errors where st: "st = (fs, errors)" by (cases st)
  have grp: "set errors \<subseteq> set (snd (fst (snd (short_group ds ctx shorts shorts rest (fs, errors) True))))" for shorts
    using short_group_errors [of "(fs, errors)"] by simp
  have ins: "set errors \<subseteq> set (snd (insert_value d v ctx (fs, errors)))" for d v
    by (rule insert_value_errors)
  show ?thesis
    unfolding st flag_step_def
    using grp ins by (auto split: option.splits list.splits prod.splits if_splits) (metis fst_conv snd_conv subsetD)+
qed

lemma extract_loop_errors:
  "set (snd st) \<subseteq> set (snd (snd (extract_loop ds ctx stopped tokens positional st)))"
proof (induction ds ctx stopped tokens positional st rule: extract_loop.induct)
  case (2 ds ctx stopped token rest positional st)
  then show ?case
    using flag_step_errors [of st ds ctx token rest] by (cases stopped) (auto simp: Let_def)
qed simp

lemma utf8_len_ge: "length s \<le> utf8_len s"
  by (induction s) (auto simp: utf8_len_def)

lemma utf8_len_1: "utf8_len s = 1 \<Longrightarrow> \<exists>c. s = [c]"
  using utf8_len_ge [of s] by (cases s) (auto simp: utf8_len_def)

lemma short_group_multi:
  assumes "utf8_len shorts \<noteq> 1"
    and "\<forall>e \<in> set (snd (fst (snd (short_group ds ctx shorts cs rest st matched)))). is_invalid_value e"
  shows "fst (short_group ds ctx shorts cs rest st matched) = rest
    \<and> snd (snd (short_group ds ctx shorts cs rest st matched)) = matched
    \<and> (\<forall>c \<in> set cs. \<exists>d. find (\<lambda>d. fl_short d = Some c) ds = Some d \<and> \<not> takes_value d)"
  using assms
proof (induction ds ctx shorts cs rest st matched rule: short_group.induct)
  case (2 ds ctx shorts c cs rest fs errors matched)
  show ?case
  proof (cases "find (\<lambda>d. fl_short d = Some c) ds")
    case None
    then have "UnknownFlag [c] \<in> set (snd (fst (snd (short_group ds ctx shorts (c # cs) rest (fs, errors) matched))))"
      using short_group_errors [of "(fs, errors @ [UnknownFlag [c]])" ds ctx shorts cs rest False] by simp
    then show ?thesis using 2(6) by force
  next
    case (Some d)
    show ?thesis
    proof (cases "takes_value d")
      case True
      then have "FlagMissingValue (fl_long d) \<in>
          set (snd (fst (snd (short_group ds ctx shorts (c # cs) rest (fs, errors) matched))))"
        using Some 2(5) short_group_errors [of "(fs, errors @ [FlagMissingValue (fl_long d)])" ds ctx shorts cs rest matched]
        by simp
      then show ?thesis using 2(6) by force
    next
      case False
      then show ?thesis using 2(4) [OF Some] 2(5,6) Some by simp
    qed
  qed
qed simp

lemma matches_long: "matches_token d (''--'' @ long) \<longleftrightarrow> fl_long d = long"
  by (auto simp: matches_token_def strip_prefix_def)

lemma matches_short:
  assumes "strip_prefix ''--'' token = None" and "strip_prefix ''-'' token = Some shorts"
  shows "matches_token d token \<longleftrightarrow> (\<exists>c. shorts = [c] \<and> fl_short d = Some c)"
  unfolding matches_token_def assms by (auto split: list.split option.split)

lemma matches_no_dash: "strip_prefix ''-'' token = None \<Longrightarrow> \<not> matches_token d token"
  by (cases token rule: list.exhaust [case_product list.exhaust])
    (auto simp: matches_token_def strip_prefix_def split: if_splits list.splits)

lemma strip_dashes_None: "strip_prefix ''-'' token = None \<Longrightarrow> strip_prefix ''--'' token = None"
  by (cases token rule: list.exhaust [case_product list.exhaust]) (auto simp: strip_prefix_def split: if_splits)

lemma find_None: "(\<And>x. x \<in> set xs \<Longrightarrow> \<not> p x) \<Longrightarrow> find p xs = None"
  by (simp add: find_None_iff)

definition alphabetic_shorts :: "('w, 'u) flag_definition list \<Rightarrow> bool" where
  "alphabetic_shorts ds \<longleftrightarrow> list_all (\<lambda>d. case fl_short d of Some c \<Rightarrow> is_alphabetic c | None \<Rightarrow> True) ds"

lemma alphabetic_shortsD: "alphabetic_shorts ds \<Longrightarrow> d \<in> set ds \<Longrightarrow> fl_short d = Some c \<Longrightarrow> is_alphabetic c"
  by (force simp: alphabetic_shorts_def list_all_iff)

text \<open>A step of \<open>extract_flags\<close>, seen by the completion.\<close>

definition completion_view :: "bool \<times> string list \<times> bool \<times> 'u flag_state \<Rightarrow> bool \<times> string list \<times> bool" where
  "completion_view r = (fst r, fst (snd r), fst (snd (snd r)))"

lemma short_step_agrees:
  assumes token: "strip_prefix ''--'' token = None" "strip_prefix ''-'' token = Some shorts"
    and alpha: "shorts \<noteq> []" "list_all is_alphabetic shorts"
    and ok: "list_all is_invalid_value (snd (snd (snd (snd (flag_step ds ctx token rest st)))))"
  shows "count_step ds token rest = completion_view (flag_step ds ctx token rest st)"
proof -
  obtain fs errors where st: "st = (fs, errors)" by (cases st)
  have not_stop: "token \<noteq> ''--''" using token(1) by (auto simp: strip_prefix_def)
  obtain rest' st' matched where g: "short_group ds ctx shorts shorts rest st True = (rest', st', matched)"
    by (cases "short_group ds ctx shorts shorts rest st True")
  have step: "flag_step ds ctx token rest st = (False, rest', \<not> (matched \<or> snd st' \<noteq> []), st')"
    unfolding flag_step_def token using not_stop alpha g by simp
  have errs: "\<forall>e \<in> set (snd st'). is_invalid_value e" using ok step by (simp add: list_all_iff)
  show ?thesis
  proof (cases "\<exists>c. shorts = [c]")
    case True
    then obtain c where c: "shorts = [c]" by blast
    have "find (\<lambda>d. matches_token d token) ds = find (\<lambda>d. fl_short d = Some c) ds"
      using matches_short [OF token] c by (intro find_cong) auto
    moreover obtain d where "find (\<lambda>d. fl_short d = Some c) ds = Some d"
      using g errs c st by (cases "find (\<lambda>d. fl_short d = Some c) ds") auto
    ultimately show ?thesis
      using g errs c st not_stop unfolding step
      by (auto simp: count_step_def completion_view_def drop_Suc split: if_splits)
  next
    case False
    then have multi: "utf8_len shorts \<noteq> 1" using utf8_len_1 by blast
    have fin: "find (\<lambda>d. matches_token d token) ds = None"
      using matches_short [OF token] False by (intro find_None) auto
    have g': "rest' = rest" "matched"
      "\<forall>c \<in> set shorts. \<exists>d. find (\<lambda>d. fl_short d = Some c) ds = Some d \<and> \<not> takes_value d"
      using short_group_multi [OF multi, of ds ctx shorts rest st True] g errs by simp_all
    have "1 < utf8_len shorts" using multi alpha(1) utf8_len_ge [of shorts] by (cases shorts) auto
    moreover have "list_all (\<lambda>c. list_ex (\<lambda>d. fl_short d = Some c \<and> \<not> takes_value d) ds) shorts"
      using g'(3) by (auto simp: list_all_iff list_ex_iff find_Some_iff) (metis nth_mem)
    ultimately have "is_combined_short_flags token ds" unfolding is_combined_short_flags_def token by simp
    then show ?thesis using not_stop g' fin unfolding step by (simp add: count_step_def completion_view_def)
  qed
qed

lemma steps_agree:
  assumes shorts: "alphabetic_shorts ds"
    and ok: "list_all is_invalid_value (snd (snd (snd (snd (flag_step ds ctx token rest st)))))"
  shows "count_step ds token rest = completion_view (flag_step ds ctx token rest st)"
proof (cases "strip_prefix ''--'' token")
  case (Some long)
  then have t: "token = ''--'' @ long" by simp
  show ?thesis
  proof (cases "long = []")
    case False
    have fin: "find (\<lambda>d. matches_token d token) ds = find (\<lambda>d. fl_long d = long) ds"
      using matches_long t by (intro find_cong) auto
    have ne: "token \<noteq> ''--''" using t False by simp
    show ?thesis
    proof (cases "find (\<lambda>d. fl_long d = long) ds")
      case None
      then show ?thesis using ok ne by (simp add: flag_step_def Some)
    next
      case found: (Some d)
      show ?thesis
      proof (cases "takes_value d \<and> rest = []")
        case True
        then show ?thesis using ok ne found by (simp add: flag_step_def Some)
      next
        case False
        then show ?thesis
          using ne found fin unfolding count_step_def flag_step_def completion_view_def Some by (cases rest) auto
      qed
    qed
  qed (simp add: t count_step_def flag_step_def completion_view_def)
next
  case None
  then have not_stop: "token \<noteq> ''--''" by (auto simp: strip_prefix_def)
  show ?thesis
  proof (cases "strip_prefix ''-'' token")
    case no_dash: None
    have "find (\<lambda>d. matches_token d token) ds = None" using matches_no_dash [OF no_dash] by (intro find_None)
    then show ?thesis
      using not_stop unfolding count_step_def flag_step_def completion_view_def is_combined_short_flags_def None no_dash by simp
  next
    case (Some cs)
    show ?thesis
    proof (cases "cs \<noteq> [] \<and> list_all is_alphabetic cs")
      case False
      have "find (\<lambda>d. matches_token d token) ds = None"
        using matches_short [OF None Some] False alphabetic_shortsD [OF shorts] by (intro find_None) fastforce
      moreover have "\<not> is_combined_short_flags token ds"
        unfolding is_combined_short_flags_def Some
        using False alphabetic_shortsD [OF shorts] by (auto simp: utf8_len_def list_all_iff list_ex_iff)
      ultimately show ?thesis
        using not_stop False unfolding count_step_def flag_step_def completion_view_def None Some by auto
    next
      case True
      then show ?thesis using short_step_agrees [OF None Some _ _ ok] by simp
    qed
  qed
qed

lemma loops_agree:
  assumes "alphabetic_shorts ds"
    and "list_all is_invalid_value (snd (snd (extract_loop ds ctx stopped tokens positional st)))"
  shows "count_loop ds (\<not> stopped) tokens (length positional) = length (fst (extract_loop ds ctx stopped tokens positional st))"
  using assms
proof (induction ds ctx stopped tokens positional st rule: extract_loop.induct)
  case (2 ds ctx stopped token rest positional st)
  show ?case
  proof (cases stopped)
    case True
    then show ?thesis using 2(1) [OF True] 2(3,4) by simp
  next
    case False
    let ?r = "flag_step ds ctx token rest st"
    have "list_all is_invalid_value (snd (snd (snd (snd ?r))))"
      using 2(4) False extract_loop_errors [of "snd (snd (snd ?r))" ds ctx "fst ?r" "fst (snd ?r)"]
      by (auto simp: Let_def list_all_iff)
    then have "count_step ds token rest = completion_view ?r" using steps_agree [OF 2(3)] by blast
    then show ?thesis
      using 2(2) [OF False refl 2(3)] 2(4) False
      by (cases "fst (snd (snd ?r))") (simp_all add: Let_def completion_view_def del: extract_loop.simps count_loop.simps,
          simp_all add: extract_loop.simps count_loop.simps Let_def completion_view_def)
  qed
qed simp

text \<open>Where the two views agree: if the short flags are letters and the only errors of a line are values that do
not parse, the completion counts as many positional tokens as \<open>extract_flags\<close> finds. A line with an unknown
flag is outside this: the completion counts the flag, the command is not given it.\<close>

theorem completion_counts_positionals:
  assumes "alphabetic_shorts ds"
    and "extract_flags tokens ds ctx = (positional, fs, errors)"
    and "list_all is_invalid_value errors"
  shows "positional_count tokens ds = length positional"
  using loops_agree [of ds ctx False tokens "[]" "(no_flags, [])"] assms
  by (simp add: extract_flags_def positional_count_def)

text \<open>The flags of a command that has one of each sort.\<close>

definition team_flags :: "(unit, unit) flag_definition list" where
  "team_flags =
     [\<lparr>fl_long = ''silent'', fl_short = Some CHR ''s'', fl_description = ''No announcement'', takes_value = False, value_parser = None\<rparr>,
      \<lparr>fl_long = ''reason'', fl_short = Some CHR ''r'', fl_description = ''Why'', takes_value = True, value_parser = Some (integer_arg None None)\<rparr>]"

lemma completion_counts_positionals_witness:
  "positional_count [''Alice'', ''-r'', ''x'', ''red'', ''--silent'', ''--'', ''-s''] team_flags = 3"
proof -
  have "alphabetic_shorts team_flags" by (simp add: alphabetic_shorts_def team_flags_def is_alphabetic_def)
  moreover have "fst (extract_flags [''Alice'', ''-r'', ''x'', ''red'', ''--silent'', ''--'', ''-s''] team_flags
      \<lparr>pc_world = (), pc_executor = 0\<rparr>) = [''Alice'', ''red'', ''-s'']"
    by (simp add: extract_flags_def flag_step_def team_flags_def strip_prefix_def is_alphabetic_def utf8_len_def Let_def)
  moreover have "list_all is_invalid_value (snd (snd (extract_flags [''Alice'', ''-r'', ''x'', ''red'', ''--silent'', ''--'', ''-s''] team_flags
      \<lparr>pc_world = (), pc_executor = 0\<rparr>)))"
    by (simp add: extract_flags_def flag_step_def team_flags_def strip_prefix_def is_alphabetic_def utf8_len_def Let_def
        no_flags_def insert_value_def set_bool_def integer_arg_def plain_parser_def parse_signed_def digit_value_def)
  ultimately show ?thesis
    using completion_counts_positionals [of team_flags "[''Alice'', ''-r'', ''x'', ''red'', ''--silent'', ''--'', ''-s'']"
        "\<lparr>pc_world = (), pc_executor = 0\<rparr>"]
    by (metis (no_types, lifting) length_Cons list.size(3) numeral_3_eq_3 prod.collapse)
qed

end
