(* ===== verification/Command_Registry.thy ===== *)
theory Command_Registry
  imports Command_Flags
begin

text \<open>
  Commands, their builder and the registry (\<open>void/src/commands/mod.rs\<close>): registering and resolving a
  name, usage lines, and server-side completion. The handler of a command is an identifier of type
  \<open>'h\<close>, run by the dispatcher; the order of \<open>HashMap\<close> iteration is a parameter.
\<close>

section \<open>Commands and their builder\<close>

record ('w, 'u) argument_definition =
  arg_name :: string
  parser_of :: "('w, 'u) arg_parser"
  arg_required :: bool
  variadic :: bool

record ('w, 'u, 'h) command =
  cmd_name :: string
  cmd_description :: string
  cmd_aliases :: "string list"
  cmd_usage :: "string option"
  arguments :: "('w, 'u) argument_definition list"
  flag_definitions :: "('w, 'u) flag_definition list"
  cmd_handler :: 'h
  suggest_entity_types :: bool

text \<open>\<open>CommandBuilder\<close> is a command whose handler is still optional.\<close>

type_synonym ('w, 'u, 'h) command_builder = "('w, 'u, 'h option) command"

definition builder_new :: "string \<Rightarrow> ('w, 'u, 'h) command_builder" where
  "builder_new name = \<lparr>cmd_name = name, cmd_description = [], cmd_aliases = [], cmd_usage = None, arguments = [],
     flag_definitions = [], cmd_handler = None, suggest_entity_types = False\<rparr>"

definition with_entity_types :: "('w, 'u, 'h) command_builder \<Rightarrow> ('w, 'u, 'h) command_builder" where
  "with_entity_types b = b\<lparr>suggest_entity_types := True\<rparr>"

definition with_description :: "string \<Rightarrow> ('w, 'u, 'h) command_builder \<Rightarrow> ('w, 'u, 'h) command_builder" where
  "with_description desc b = b\<lparr>cmd_description := desc\<rparr>"

definition with_alias :: "string \<Rightarrow> ('w, 'u, 'h) command_builder \<Rightarrow> ('w, 'u, 'h) command_builder" where
  "with_alias alias b = b\<lparr>cmd_aliases := cmd_aliases b @ [alias]\<rparr>"

definition with_usage :: "string \<Rightarrow> ('w, 'u, 'h) command_builder \<Rightarrow> ('w, 'u, 'h) command_builder" where
  "with_usage usage b = b\<lparr>cmd_usage := Some usage\<rparr>"

definition push_argument ::
  "bool \<Rightarrow> bool \<Rightarrow> string \<Rightarrow> ('w, 'u) arg_parser \<Rightarrow> ('w, 'u, 'h) command_builder \<Rightarrow> ('w, 'u, 'h) command_builder" where
  "push_argument req var name p b =
     b\<lparr>arguments := arguments b @ [\<lparr>arg_name = name, parser_of = p, arg_required = req, variadic = var\<rparr>]\<rparr>"

definition with_arg :: "string \<Rightarrow> ('w, 'u) arg_parser \<Rightarrow> ('w, 'u, 'h) command_builder \<Rightarrow> ('w, 'u, 'h) command_builder" where
  "with_arg = push_argument True False"

definition with_arg_optional :: "string \<Rightarrow> ('w, 'u) arg_parser \<Rightarrow> ('w, 'u, 'h) command_builder \<Rightarrow> ('w, 'u, 'h) command_builder" where
  "with_arg_optional = push_argument False False"

definition with_arg_variadic :: "string \<Rightarrow> ('w, 'u) arg_parser \<Rightarrow> ('w, 'u, 'h) command_builder \<Rightarrow> ('w, 'u, 'h) command_builder" where
  "with_arg_variadic = push_argument False True"

definition with_arg_variadic_required :: "string \<Rightarrow> ('w, 'u) arg_parser \<Rightarrow> ('w, 'u, 'h) command_builder \<Rightarrow> ('w, 'u, 'h) command_builder" where
  "with_arg_variadic_required = push_argument True True"

definition with_flag ::
  "string \<Rightarrow> char option \<Rightarrow> string \<Rightarrow> ('w, 'u, 'h) command_builder \<Rightarrow> ('w, 'u, 'h) command_builder" where
  "with_flag long short desc b = b\<lparr>flag_definitions := flag_definitions b @
     [\<lparr>fl_long = long, fl_short = short, fl_description = desc, takes_value = False, value_parser = None\<rparr>]\<rparr>"

definition with_flag_value ::
  "string \<Rightarrow> char option \<Rightarrow> string \<Rightarrow> ('w, 'u) arg_parser \<Rightarrow> ('w, 'u, 'h) command_builder \<Rightarrow> ('w, 'u, 'h) command_builder" where
  "with_flag_value long short desc p b = b\<lparr>flag_definitions := flag_definitions b @
     [\<lparr>fl_long = long, fl_short = short, fl_description = desc, takes_value = True, value_parser = Some p\<rparr>]\<rparr>"

definition with_handler :: "'h \<Rightarrow> ('w, 'u, 'h) command_builder \<Rightarrow> ('w, 'u, 'h) command_builder" where
  "with_handler h b = b\<lparr>cmd_handler := Some h\<rparr>"

text \<open>\<open>build\<close> panics, here \<open>None\<close>, when a variadic argument is not the last or there is no handler.\<close>

definition build :: "('w, 'u, 'h) command_builder \<Rightarrow> ('w, 'u, 'h) command option" where
  "build b =
     (if (case position variadic (arguments b) of Some pos \<Rightarrow> pos \<noteq> length (arguments b) - 1 | None \<Rightarrow> False) then None
      else map_option (\<lambda>h. \<lparr>cmd_name = cmd_name b, cmd_description = cmd_description b, cmd_aliases = cmd_aliases b,
          cmd_usage = cmd_usage b, arguments = arguments b, flag_definitions = flag_definitions b, cmd_handler = h,
          suggest_entity_types = suggest_entity_types b\<rparr>) (cmd_handler b))"

section \<open>The registry\<close>

record ('w, 'u, 'h) registry =
  commands_of :: "string \<rightharpoonup> ('w, 'u, 'h) command"
  aliases_of :: "string \<rightharpoonup> string"

definition new_registry :: "('w, 'u, 'h) registry" where
  "new_registry = \<lparr>commands_of = Map.empty, aliases_of = Map.empty\<rparr>"

definition register :: "('w, 'u, 'h) command \<Rightarrow> ('w, 'u, 'h) registry \<Rightarrow> ('w, 'u, 'h) registry" where
  "register c r =
     \<lparr>commands_of = (commands_of r)(cmd_name c \<mapsto> c),
      aliases_of = fold (\<lambda>alias m. m(alias \<mapsto> cmd_name c)) (cmd_aliases c) (aliases_of r)\<rparr>"

definition resolve :: "('w, 'u, 'h) registry \<Rightarrow> string \<Rightarrow> string option" where
  "resolve r name = (if commands_of r name \<noteq> None then Some name else aliases_of r name)"

definition accepts_entity_type_arg :: "('w, 'u, 'h) registry \<Rightarrow> string \<Rightarrow> bool" where
  "accepts_entity_type_arg r name = (case commands_of r name of Some c \<Rightarrow> suggest_entity_types c | None \<Rightarrow> False)"

definition argument_usage :: "('w, 'u) argument_definition \<Rightarrow> string" where
  "argument_usage a =
     (let inner = arg_name a @ '':'' @ type_name_of (parser_of a) in
      if variadic a \<and> arg_required a then ''<'' @ inner @ ''>...''
      else if variadic a then ''['' @ inner @ '']...''
      else if arg_required a then ''<'' @ inner @ ''>''
      else ''['' @ inner @ '']'')"

definition flag_usage :: "('w, 'u) flag_definition \<Rightarrow> string" where
  "flag_usage d =
     (let short = (case fl_short d of Some c \<Rightarrow> ''-'' @ [c] @ ''/'' | None \<Rightarrow> []) in
      if takes_value d then ''['' @ short @ ''--'' @ fl_long d @ '' <value>]''
      else ''['' @ short @ ''--'' @ fl_long d @ '']'')"

definition auto_usage :: "string \<Rightarrow> ('w, 'u) argument_definition list \<Rightarrow> ('w, 'u) flag_definition list \<Rightarrow> string" where
  "auto_usage name args fs = join '' '' ((''/'' @ name) # map argument_usage args @ map flag_usage fs)"

definition usage_line :: "('w, 'u, 'h) command \<Rightarrow> string" where
  "usage_line c = (case cmd_usage c of Some u \<Rightarrow> u | None \<Rightarrow> auto_usage (cmd_name c) (arguments c) (flag_definitions c))"

definition description :: "('w, 'u, 'h) registry \<Rightarrow> string \<Rightarrow> string option" where
  "description r name = Option.bind (resolve r name) (\<lambda>n. map_option cmd_description (commands_of r n))"

definition usage :: "('w, 'u, 'h) registry \<Rightarrow> string \<Rightarrow> string option" where
  "usage r name = Option.bind (resolve r name) (\<lambda>n. map_option usage_line (commands_of r n))"

record ('w, 'u, 'h) resolve_result =
  res_handler :: 'h
  res_arguments :: "('w, 'u) argument_definition list"
  res_flags :: "('w, 'u) flag_definition list"
  res_usage :: string

definition resolve_handler :: "('w, 'u, 'h) registry \<Rightarrow> string \<Rightarrow> string + ('w, 'u, 'h) resolve_result" where
  "resolve_handler r name =
     (let unknown = ''Unknown command: /'' @ name in
      case (if commands_of r name \<noteq> None then Some name else aliases_of r name) of
        None \<Rightarrow> Inl unknown
      | Some canonical \<Rightarrow>
          (case commands_of r canonical of
             Some c \<Rightarrow> Inr \<lparr>res_handler = cmd_handler c, res_arguments = arguments c, res_flags = flag_definitions c,
                res_usage = usage_line c\<rparr>
           | None \<Rightarrow> Inl unknown))"

section \<open>Completion\<close>

definition is_whitespace :: "char \<Rightarrow> bool" where
  "is_whitespace c \<longleftrightarrow> (let n = of_char c :: nat in (9 \<le> n \<and> n \<le> 13) \<or> n = 32 \<or> n = 133 \<or> n = 160)"

text \<open>\<open>split_whitespace\<close>: the maximal runs of other characters.\<close>

function split_whitespace :: "string \<Rightarrow> string list" where
  "split_whitespace s =
     (let s' = dropWhile is_whitespace s in
      if s' = [] then []
      else takeWhile (\<lambda>c. \<not> is_whitespace c) s' # split_whitespace (dropWhile (\<lambda>c. \<not> is_whitespace c) s'))"
  by pat_completeness auto
termination
proof (relation "measure length", simp)
  fix s s' :: string
  assume s': "s' = dropWhile is_whitespace s" and "s' \<noteq> []"
  from this obtain c cs where c: "s' = c # cs" "\<not> is_whitespace c"
    by (metis hd_dropWhile list.exhaust list.sel(1))
  have "length (dropWhile (\<lambda>c. \<not> is_whitespace c) s') < length s'"
    unfolding c(1) using length_dropWhile_le [of "\<lambda>c. \<not> is_whitespace c" cs] c(2) by simp
  also have "\<dots> \<le> length s" using s' by (simp add: length_dropWhile_le)
  finally show "(dropWhile (\<lambda>c. \<not> is_whitespace c) s', s) \<in> measure length" by simp
qed

declare split_whitespace.simps [simp del]

lemma split_whitespace_Nil [simp]: "split_whitespace [] = []"
  unfolding split_whitespace.simps [of "[]"] Let_def by simp

text \<open>\<open>split_once(' ')\<close> and \<open>text.rfind(partial)\<close>.\<close>

definition split_space :: "string \<Rightarrow> (string \<times> string) option" where
  "split_space s = (if CHR '' '' \<in> set s
     then Some (takeWhile (\<lambda>c. c \<noteq> CHR '' '') s, tl (dropWhile (\<lambda>c. c \<noteq> CHR '' '') s)) else None)"

fun find_last :: "string \<Rightarrow> string \<Rightarrow> nat option" where
  "find_last p [] = (if p = [] then Some 0 else None)"
| "find_last p (c # cs) =
     (case find_last p cs of
        Some i \<Rightarrow> Some (Suc i)
      | None \<Rightarrow> if take (length p) (c # cs) = p then Some 0 else None)"

fun argument_at_from :: "nat \<Rightarrow> ('w, 'u) argument_definition list \<Rightarrow> nat \<Rightarrow> ('w, 'u) argument_definition option" where
  "argument_at_from offset [] positional = None"
| "argument_at_from offset (a # as) positional =
     (if variadic a then Some a
      else
        (let offset' = offset + token_count (parser_of a) in
         if positional < offset' then Some a else argument_at_from offset' as positional))"

definition argument_at :: "('w, 'u) argument_definition list \<Rightarrow> nat \<Rightarrow> ('w, 'u) argument_definition option" where
  "argument_at = argument_at_from 0"

text \<open>\<open>retain(|candidate| seen.insert(..))\<close>: the first occurrence of each candidate.\<close>

fun keep_first :: "string set \<Rightarrow> string list \<Rightarrow> string list" where
  "keep_first known [] = []"
| "keep_first known (s # ss) = (if s \<in> known then keep_first known ss else s # keep_first (insert s known) ss)"

record completion =
  comp_start :: nat
  comp_length :: nat
  comp_matches :: "string list"

text \<open>The names of entity types are generated data. UTF-16 has one unit for each character up to U+00FF.\<close>

definition complete ::
  "string list \<Rightarrow> ('w, 'u, 'h) registry \<Rightarrow> string \<Rightarrow> 'w \<Rightarrow> completion option" where
  "complete entity_type_names r text world =
     (let line = (case strip_prefix ''/'' text of Some l \<Rightarrow> l | None \<Rightarrow> text) in
      case split_space line of
        None \<Rightarrow> None
      | Some (name, rest) \<Rightarrow>
          (case Option.bind (resolve r name) (commands_of r) of
             None \<Rightarrow> None
           | Some cmd \<Rightarrow>
               (let tokens = split_whitespace rest;
                    fresh = (rest \<noteq> [] \<and> is_whitespace (last rest)) \<or> tokens = [];
                    partial = (if fresh then [] else last tokens);
                    completed = (if fresh then tokens else butlast tokens);
                    partial_start = (case find_last partial text of Some i \<Rightarrow> i | None \<Rightarrow> length text);
                    found =
                      (if strip_prefix ''-'' partial \<noteq> None \<and> flag_definitions cmd \<noteq> []
                       then flag_completions (flag_definitions cmd) partial
                       else
                         (case argument_at (arguments cmd) (positional_count completed (flag_definitions cmd)) of
                            Some a \<Rightarrow> suggestions (parser_of a) partial world
                          | None \<Rightarrow> [])
                         @ (if suggest_entity_types cmd
                            then filter (\<lambda>t. starts_with_ignore_case t partial) entity_type_names else []))
                in Some \<lparr>comp_start = partial_start, comp_length = length partial, comp_matches = keep_first {} found\<rparr>)))"

lemma set_keep_first: "set (keep_first known ss) = set ss - known"
  by (induction ss arbitrary: known) auto

lemma distinct_keep_first: "distinct (keep_first known ss)"
  by (induction known ss rule: keep_first.induct) (auto simp: set_keep_first)

lemma find_last_suffix: "find_last p (s @ p) = Some (length s)"
proof (induction s)
  case Nil
  have no: "length s < length p \<Longrightarrow> find_last p s = None" for s
    by (induction s) (auto split: option.splits)
  show ?case using no [of "tl p"] by (cases p) auto
qed simp

lemma split_whitespace_words: "w \<in> set (split_whitespace s) \<Longrightarrow> list_all (\<lambda>c. \<not> is_whitespace c) w"
proof (induction s rule: split_whitespace.induct)
  case (1 s)
  let ?word = "\<lambda>c. \<not> is_whitespace c"
  define t where "t = dropWhile is_whitespace s"
  have ne: "t \<noteq> []"
  proof
    assume "t = []"
    then show False
      using 1(2) unfolding split_whitespace.simps [of s] Let_def t_def [symmetric] by simp
  qed
  have "w = takeWhile ?word t \<or> w \<in> set (split_whitespace (dropWhile ?word t))"
    using 1(2) unfolding split_whitespace.simps [of s] Let_def t_def [symmetric] if_not_P [OF ne] by simp
  then show ?case
  proof
    assume "w = takeWhile ?word t"
    then show ?thesis by (auto simp: list_all_iff dest: set_takeWhileD)
  qed (rule 1(1) [OF t_def ne])
qed

lemma split_whitespace_last:
  assumes "rest \<noteq> []" and "\<not> is_whitespace (last rest)"
  shows "split_whitespace rest \<noteq> [] \<and>
    (\<exists>p. rest = p @ last (split_whitespace rest) \<and> (p = [] \<or> is_whitespace (last p)))"
  using assms
proof (induction rest rule: split_whitespace.induct)
  case (1 s)
  let ?word = "\<lambda>c. \<not> is_whitespace c"
  note words = split_whitespace_words [unfolded list_all_iff]
  define t where "t = dropWhile is_whitespace s"
  define w where "w = takeWhile is_whitespace s"
  have s: "s = w @ t" unfolding t_def w_def by simp
  have w: "w = [] \<or> is_whitespace (last w)" unfolding w_def by (metis last_in_set set_takeWhileD)
  have ne: "t \<noteq> []" using 1(2,3) unfolding t_def by (auto simp: dropWhile_eq_Nil_conv)
  have split: "split_whitespace s = takeWhile ?word t # split_whitespace (dropWhile ?word t)"
    unfolding split_whitespace.simps [of s] Let_def t_def [symmetric] if_not_P [OF ne] ..
  have parts: "takeWhile ?word t @ dropWhile ?word t = t" by simp
  show ?case
  proof (cases "dropWhile ?word t = []")
    case True
    then have "split_whitespace s = [t]"
      using split parts unfolding True by simp
    then show ?thesis using s w by auto
  next
    case False
    have "last (dropWhile ?word t) = last t"
      using last_appendR [OF False, of "takeWhile ?word t"] unfolding parts by (rule sym)
    also have "\<dots> = last s" unfolding s using ne by simp
    finally obtain p where p: "split_whitespace (dropWhile ?word t) \<noteq> []"
      "dropWhile ?word t = p @ last (split_whitespace (dropWhile ?word t))" and pw: "p = [] \<or> is_whitespace (last p)"
      using 1(1) [OF t_def ne False] 1(3) by auto
    have "p \<noteq> []"
    proof
      assume "p = []"
      then have "hd (dropWhile ?word t) \<in> set (last (split_whitespace (dropWhile ?word t)))"
        using p False by (metis append_Nil hd_in_set)
      then show False
        using words [OF last_in_set [OF p(1)]] hd_dropWhile [OF False] by blast
    qed
    with pw have "is_whitespace (last (w @ takeWhile ?word t @ p))" by simp
    moreover have "s = (w @ takeWhile ?word t @ p) @ last (split_whitespace (dropWhile ?word t))"
      using s parts p(2) by (metis append.assoc)
    ultimately show ?thesis using p(1) unfolding split by (metis last_ConsR list.distinct(1))
  qed
qed

lemma split_space_parts:
  assumes "split_space line = Some (name, rest)"
  shows "line = takeWhile (\<lambda>c. c \<noteq> CHR '' '') line @ [CHR '' ''] @ rest"
proof -
  let ?P = "\<lambda>c. c \<noteq> CHR '' ''"
  have in_line: "CHR '' '' \<in> set line" and rest: "rest = tl (dropWhile ?P line)"
    using assms by (simp_all add: split_space_def split: if_splits)
  have ne: "dropWhile ?P line \<noteq> []" using in_line by (auto simp: dropWhile_eq_Nil_conv)
  have "hd (dropWhile ?P line) = CHR '' ''" using hd_dropWhile [OF ne] by blast
  with ne rest have "dropWhile ?P line = [CHR '' ''] @ rest" by (cases "dropWhile ?P line") simp_all
  then show ?thesis by (metis takeWhile_dropWhile_id)
qed

text \<open>C38: a completion replaces exactly the token being typed: its range begins right behind the last white
space of the line, so it is empty when a new token is started, and ends at the end of the line; and no
candidate is offered twice.\<close>

theorem completion_replaces_what_is_typed:
  assumes "complete entity_type_names r text world = Some c"
  shows "comp_start c + comp_length c = length text \<and> distinct (comp_matches c)
    \<and> 0 < comp_start c \<and> is_whitespace (text ! (comp_start c - 1))
    \<and> list_all (\<lambda>ch. \<not> is_whitespace ch) (drop (comp_start c) text)"
proof -
  define line where "line = (case strip_prefix ''/'' text of Some l \<Rightarrow> l | None \<Rightarrow> text)"
  obtain pre where pre: "text = pre @ line"
    using line_def by (cases "strip_prefix ''/'' text") (auto intro: that [of "[]"])
  obtain name rest where sp: "split_space line = Some (name, rest)"
    using assms unfolding complete_def line_def [symmetric] Let_def by (cases "split_space line") auto
  have "line = takeWhile (\<lambda>c. c \<noteq> CHR '' '') line @ [CHR '' ''] @ rest" by (rule split_space_parts [OF sp])
  then obtain q where q: "text = (q @ [CHR '' '']) @ rest" using pre by (metis append.assoc)
  define tokens where "tokens = split_whitespace rest"
  define fresh where "fresh = (rest \<noteq> [] \<and> is_whitespace (last rest) \<or> tokens = [])"
  define partial where "partial = (if fresh then [] else last tokens)"
  obtain p where p: "text = p @ partial" "p \<noteq> []" "is_whitespace (last p)"
  proof (cases fresh)
    case True
    then have "is_whitespace (last text)"
      using q split_whitespace_last [of rest] by (cases "rest = []") (auto simp: fresh_def tokens_def is_whitespace_def)
    then show ?thesis using that [of "text"] q True by (simp add: partial_def)
  next
    case False
    then have "rest \<noteq> []" "\<not> is_whitespace (last rest)"
      unfolding fresh_def tokens_def by auto
    then obtain p' where p': "rest = p' @ last tokens" "p' = [] \<or> is_whitespace (last p')"
      using split_whitespace_last unfolding tokens_def by blast
    have "is_whitespace (last (q @ [CHR '' ''] @ p'))" using p'(2) by (cases "p' = []") (auto simp: is_whitespace_def)
    then show ?thesis using that [of "q @ [CHR '' ''] @ p'"] q p'(1) False by (simp add: partial_def)
  qed
  obtain cmd where cmd: "Option.bind (resolve r name) (commands_of r) = Some cmd"
    using assms sp unfolding complete_def line_def [symmetric] Let_def
    by (cases "Option.bind (resolve r name) (commands_of r)") auto
  have "comp_start c = length p" "comp_length c = length partial" "\<exists>found. comp_matches c = keep_first {} found"
    using assms [unfolded complete_def Let_def line_def [symmetric] sp option.case prod.case cmd,
        folded tokens_def, folded fresh_def, folded partial_def] find_last_suffix [of partial p] p
    by auto
  moreover have "list_all (\<lambda>ch. \<not> is_whitespace ch) partial"
    using split_whitespace_words [of _ rest] unfolding partial_def fresh_def tokens_def by auto
  moreover have "is_whitespace (text ! (length p - 1))" using p by (simp add: nth_append last_conv_nth)
  ultimately show ?thesis using p distinct_keep_first by auto
qed

text \<open>The start of the last word in \<open>/team Alice r\<close>, completed from a list of colours.\<close>

definition colour_arg :: "(unit, nat) arg_parser" where
  "colour_arg = (plain_parser ''colour'' (\<lambda>input. Inr (VText input)) None)
     \<lparr>suggestions := (\<lambda>partial _. filter (\<lambda>n. starts_with_ignore_case n partial) [''red'', ''blue''])\<rparr>"

definition team_command :: "(unit, nat, nat) command" where
  "team_command = \<lparr>cmd_name = ''team'', cmd_description = [], cmd_aliases = [''t''], cmd_usage = None,
     arguments = [\<lparr>arg_name = ''player'', parser_of = string_arg SingleWord, arg_required = True, variadic = False\<rparr>,
                  \<lparr>arg_name = ''team'', parser_of = colour_arg, arg_required = True, variadic = False\<rparr>],
     flag_definitions = [], cmd_handler = 0, suggest_entity_types = False\<rparr>"

lemma completion_replaces_what_is_typed_witness:
  "\<exists>c. complete [] (register team_command new_registry) ''/t Alice r'' () = Some c \<and> comp_start c + comp_length c = 10 \<and>
    is_whitespace (''/t Alice r'' ! (comp_start c - 1))"
proof -
  have "complete [] (register team_command new_registry) ''/t Alice r'' ()
      = Some \<lparr>comp_start = 9, comp_length = 1, comp_matches = [''red'']\<rparr>"
    by (simp add: complete_def register_def new_registry_def team_command_def strip_prefix_def split_space_def
        split_whitespace.simps [of "''Alice r''"] split_whitespace.simps [of "'' r''"] is_whitespace_def Let_def resolve_def
        positional_count_def count_step_def is_combined_short_flags_def argument_at_def string_arg_def plain_parser_def
        colour_arg_def starts_with_ignore_case_def eq_ignore_ascii_case_def ascii_lower_def)
  then show ?thesis using completion_replaces_what_is_typed [of "[]" _ "''/t Alice r''" "()"] by fastforce
qed

end
