(* ===== verification/Command_Dispatch.thy ===== *)
theory Command_Dispatch
  imports Command_Registry
begin

text \<open>
  The command pipeline (\<open>void/src/commands/mod.rs\<close>, \<open>void/src/plugins/chat.rs\<close>): chat input is queued,
  the queue is drained once a tick, and each command is resolved, its flags and arguments are parsed,
  and its handler run. The server state has the registry, the queue, the entities alive, the lines
  sent to chat and the rest of the world; \<open>run\<close> executes a handler and \<open>flush\<close> the world's deferred
  commands, and both may change all of the state.
\<close>

section \<open>Positional arguments\<close>

type_synonym ('w, 'u) parse_state = "nat \<times> (string \<rightharpoonup> 'u arg_value) \<times> parse_error list"

definition parse_one ::
  "('w, 'u) argument_definition \<Rightarrow> 'w parse_context \<Rightarrow> string \<Rightarrow> nat \<Rightarrow> (string \<rightharpoonup> 'u arg_value) \<Rightarrow> parse_error list \<Rightarrow>
   ('w, 'u) parse_state" where
  "parse_one a ctx input next_idx parsed errors =
     (case parse_in (parser_of a) input ctx of
        Inr v \<Rightarrow> (next_idx, parsed(arg_name a \<mapsto> v), errors)
      | Inl detail \<Rightarrow> (next_idx, parsed, errors @ [InvalidValue (arg_name a) input (type_name_of (parser_of a)) (Some detail)]))"

definition missing :: "('w, 'u) argument_definition \<Rightarrow> parse_error" where
  "missing a = MissingArgument (arg_name a) (type_name_of (parser_of a))"

definition argument_step ::
  "string list \<Rightarrow> 'w parse_context \<Rightarrow> ('w, 'u) argument_definition \<Rightarrow> ('w, 'u) parse_state \<Rightarrow> ('w, 'u) parse_state" where
  "argument_step tokens ctx a st =
     (case st of (idx, parsed, errors) \<Rightarrow>
       if variadic a then
         (if idx < length tokens then parse_one a ctx (join '' '' (drop idx tokens)) (length tokens) parsed errors
          else if arg_required a then (idx, parsed, errors @ [missing a])
          else st)
       else if idx < length tokens then
         (let until = min (idx + token_count (parser_of a)) (length tokens) in
          parse_one a ctx (join '' '' (take (until - idx) (drop idx tokens))) until parsed errors)
       else if arg_required a then (idx, parsed, errors @ [missing a])
       else st)"

definition parse_positional ::
  "string list \<Rightarrow> ('w, 'u) argument_definition list \<Rightarrow> 'w parse_context \<Rightarrow> parse_error list + (string \<rightharpoonup> 'u arg_value)" where
  "parse_positional tokens ds ctx =
     (case fold (argument_step tokens ctx) ds (0, Map.empty, []) of (idx, parsed, errors) \<Rightarrow>
       (let errors' = (if \<not> list_ex variadic ds \<and> idx < length tokens
                       then errors @ [TooManyArguments (sum_list (map (\<lambda>a. token_count (parser_of a)) ds)) (length tokens)]
                       else errors)
        in if errors' = [] then Inr parsed else Inl errors'))"

section \<open>The server as commands see it\<close>

datatype chat_color = Red | Gray | White

datatype chat_line =
    ToPlayer nat string chat_color
  | ToEveryone string

record queued_command =
  qc_client :: u32
  qc_entity :: nat
  qc_command :: string
  qc_args :: "string list"
  qc_sequence :: u64

datatype chat_event =
    ChatCommandEvent nat u32 string "string list"
  | ChatMessageEvent nat u32 string

record ('w, 'u, 'h) server =
  sv_registry :: "('w, 'u, 'h) registry"
  sv_queue :: "queued_command list"
  sv_sequence :: u64
  sv_entities :: "nat set"
  sv_chat :: "chat_line list"
  sv_events :: "chat_event list"
  sv_world :: 'w

record 'u command_context =
  cc_entity :: nat
  cc_client :: u32
  cc_args :: "string list"
  cc_parsed :: "string \<rightharpoonup> 'u arg_value"
  cc_flags :: "'u flag_set"

type_synonym ('w, 'u, 'h) runner = "'h \<Rightarrow> 'u command_context \<Rightarrow> ('w, 'u, 'h) server \<Rightarrow> ('w, 'u, 'h) server"

definition say :: "chat_line \<Rightarrow> ('w, 'u, 'h) server \<Rightarrow> ('w, 'u, 'h) server" where
  "say line s = s\<lparr>sv_chat := sv_chat s @ [line]\<rparr>"

text \<open>\<open>send_system_chat\<close>; delivery to the player is the message layer's.\<close>

definition send_system_chat :: "nat \<Rightarrow> string \<Rightarrow> chat_color \<Rightarrow> ('w, 'u, 'h) server \<Rightarrow> ('w, 'u, 'h) server" where
  "send_system_chat player message color = say (ToPlayer player message color)"

definition get_arg :: "'u command_context \<Rightarrow> string \<Rightarrow> 'u arg_value option" where
  "get_arg cc name = cc_parsed cc name"

definition has_arg :: "'u command_context \<Rightarrow> string \<Rightarrow> bool" where
  "has_arg cc name \<longleftrightarrow> cc_parsed cc name \<noteq> None"

definition reply :: "'u command_context \<Rightarrow> string \<Rightarrow> ('w, 'u, 'h) server \<Rightarrow> ('w, 'u, 'h) server" where
  "reply cc message = say (ToPlayer (cc_entity cc) message White)"

definition reply_error :: "'u command_context \<Rightarrow> string \<Rightarrow> ('w, 'u, 'h) server \<Rightarrow> ('w, 'u, 'h) server" where
  "reply_error cc message = say (ToPlayer (cc_entity cc) message Red)"

definition broadcast :: "string \<Rightarrow> ('w, 'u, 'h) server \<Rightarrow> ('w, 'u, 'h) server" where
  "broadcast message = say (ToEveryone message)"

section \<open>Dispatch\<close>

definition report_errors :: "string \<Rightarrow> nat \<Rightarrow> string \<Rightarrow> parse_error list \<Rightarrow> ('w, 'u, 'h) server \<Rightarrow> ('w, 'u, 'h) server" where
  "report_errors infty entity usage_text errors s =
     send_system_chat entity (''Usage: '' @ usage_text) Gray
       (fold (\<lambda>e. send_system_chat entity (to_player_message infty e) Red) errors s)"

definition dispatch_command ::
  "string \<Rightarrow> ('w, 'u, 'h) runner \<Rightarrow> u32 \<Rightarrow> nat \<Rightarrow> string \<Rightarrow> string list \<Rightarrow> ('w, 'u, 'h) server \<Rightarrow> ('w, 'u, 'h) server" where
  "dispatch_command infty run client entity name args s =
     (case resolve_handler (sv_registry s) name of
        Inl err \<Rightarrow> send_system_chat entity err Red s
      | Inr res \<Rightarrow>
          (let ctx = \<lparr>pc_world = sv_world s, pc_executor = entity\<rparr> in
           case extract_flags args (res_flags res) ctx of (positional, fs, flag_errors) \<Rightarrow>
             if flag_errors \<noteq> [] then report_errors infty entity (res_usage res) flag_errors s
             else
               (case parse_positional positional (res_arguments res) ctx of
                  Inr parsed \<Rightarrow>
                    run (res_handler res) \<lparr>cc_entity = entity, cc_client = client, cc_args = args, cc_parsed = parsed, cc_flags = fs\<rparr> s
                | Inl errors \<Rightarrow> report_errors infty entity (res_usage res) errors s)))"

section \<open>The queue\<close>

definition enqueue_command :: "u32 \<Rightarrow> nat \<Rightarrow> string \<Rightarrow> string list \<Rightarrow> ('w, 'u, 'h) server \<Rightarrow> ('w, 'u, 'h) server" where
  "enqueue_command client entity name args s =
     s\<lparr>sv_sequence := sv_sequence s + 1,
       sv_queue := sv_queue s @ [\<lparr>qc_client = client, qc_entity = entity, qc_command = name, qc_args = args, qc_sequence = sv_sequence s\<rparr>]\<rparr>"

definition handle_command :: "u32 \<Rightarrow> nat \<Rightarrow> string \<Rightarrow> ('w, 'u, 'h) server \<Rightarrow> ('w, 'u, 'h) server" where
  "handle_command client entity line s =
     (case split_whitespace line of
        [] \<Rightarrow> s
      | name # args \<Rightarrow>
          (let s' = enqueue_command client entity name args s
           in s'\<lparr>sv_events := sv_events s' @ [ChatCommandEvent entity client name args]\<rparr>))"

text \<open>The player's name, where it has one, is a lookup in the world.\<close>

definition handle_chat_message ::
  "(nat \<Rightarrow> 'w \<Rightarrow> string option) \<Rightarrow> u32 \<Rightarrow> nat \<Rightarrow> string \<Rightarrow> ('w, 'u, 'h) server \<Rightarrow> ('w, 'u, 'h) server" where
  "handle_chat_message player_name client entity message s =
     (case strip_prefix ''/'' message of
        Some line \<Rightarrow> handle_command client entity line s
      | None \<Rightarrow>
          (let name = (case player_name entity (sv_world s) of Some n \<Rightarrow> n | None \<Rightarrow> ''Unknown'');
               s' = broadcast (''<'' @ name @ ''> '' @ message) s
           in s'\<lparr>sv_events := sv_events s' @ [ChatMessageEvent entity client message]\<rparr>))"

definition dispatch_queued :: "string \<Rightarrow> ('w, 'u, 'h) runner \<Rightarrow> queued_command \<Rightarrow> ('w, 'u, 'h) server \<Rightarrow> ('w, 'u, 'h) server" where
  "dispatch_queued infty run q = dispatch_command infty run (qc_client q) (qc_entity q) (qc_command q) (qc_args q)"

text \<open>The loop goes on while handlers queue further commands, so it need not return.\<close>

partial_function (option) drain_command_queue ::
  "string \<Rightarrow> ('w, 'u, 'h) runner \<Rightarrow> (('w, 'u, 'h) server \<Rightarrow> ('w, 'u, 'h) server) \<Rightarrow> ('w, 'u, 'h) server \<Rightarrow>
   ('w, 'u, 'h) server option" where
  "drain_command_queue infty run flush s =
     (case sv_queue s of
        [] \<Rightarrow> Some s
      | q # queue \<Rightarrow>
          (let s' = s\<lparr>sv_queue := queue\<rparr> in
           if qc_entity q \<notin> sv_entities s' then drain_command_queue infty run flush s'
           else drain_command_queue infty run flush (flush (dispatch_queued infty run q s'))))"

section \<open>What the arguments get\<close>

text \<open>The tokens each argument is given, and the tokens left over.\<close>

fun share ::
  "('w, 'u) argument_definition list \<Rightarrow> string list \<Rightarrow> (('w, 'u) argument_definition \<times> string option) list \<times> string list" where
  "share [] ts = ([], ts)"
| "share (a # as) ts =
     (if ts = [] then apfst ((#) (a, None)) (share as [])
      else
        (let n = (if variadic a then length ts else token_count (parser_of a))
         in apfst ((#) (a, Some (join '' '' (take n ts)))) (share as (drop n ts))))"

definition share_error :: "'w parse_context \<Rightarrow> ('w, 'u) argument_definition \<times> string option \<Rightarrow> parse_error list" where
  "share_error ctx p =
     (case p of
        (a, None) \<Rightarrow> if arg_required a then [missing a] else []
      | (a, Some input) \<Rightarrow>
          (case parse_in (parser_of a) input ctx of
             Inr _ \<Rightarrow> []
           | Inl detail \<Rightarrow> [InvalidValue (arg_name a) input (type_name_of (parser_of a)) (Some detail)]))"

definition share_value :: "'w parse_context \<Rightarrow> ('w, 'u) argument_definition \<times> string option \<Rightarrow> (string \<times> 'u arg_value) list" where
  "share_value ctx p =
     (case p of
        (a, Some input) \<Rightarrow> (case parse_in (parser_of a) input ctx of Inr v \<Rightarrow> [(arg_name a, v)] | Inl _ \<Rightarrow> [])
      | (a, None) \<Rightarrow> [])"

lemma share_Nil: "snd (share ds []) = []"
  by (induction ds) auto

lemma share_variadic: "list_ex variadic ds \<Longrightarrow> snd (share ds ts) = []"
  by (induction ds ts rule: share.induct) (auto simp: Let_def share_Nil)

lemma argument_step_share:
  assumes "idx \<le> length tokens"
  shows "fold (argument_step tokens ctx) ds (idx, parsed, errors) =
    (length tokens - length (snd (share ds (drop idx tokens))),
     parsed ++ map_of (rev (concat (map (share_value ctx) (fst (share ds (drop idx tokens)))))),
     errors @ concat (map (share_error ctx) (fst (share ds (drop idx tokens)))))"
  using assms
proof (induction ds arbitrary: idx parsed errors)
  case (Cons a ds)
  show ?case
  proof (cases "idx < length tokens")
    case False
    then show ?thesis
      using Cons by (auto simp: argument_step_def share_error_def share_value_def)
  next
    case True
    define n where "n = (if variadic a then length tokens - idx else min (token_count (parser_of a)) (length tokens - idx))"
    define input where "input = join '' '' (take n (drop idx tokens))"
    have step: "argument_step tokens ctx a (idx, parsed, errors) = parse_one a ctx input (idx + n) parsed errors"
      using True by (auto simp: argument_step_def n_def input_def Let_def min_def)
    have sh: "share (a # ds) (drop idx tokens) = apfst ((#) (a, Some input)) (share ds (drop (idx + n) tokens))"
      using True by (auto simp: n_def input_def Let_def min_def add.commute)
    have le: "idx + n \<le> length tokens" using True by (cases "variadic a") (auto simp: n_def)
    show ?thesis
      unfolding fold_Cons comp_apply step sh parse_one_def
      by (cases "parse_in (parser_of a) input ctx") (auto simp: Cons.IH [OF le] share_error_def share_value_def map_add_def fun_eq_iff split: option.split)
  qed
qed simp

text \<open>C37: what the positional arguments of a command get. The tokens are shared out from left to right, each
argument as many as its parser takes and a variadic one all that are left; every argument whose tokens do not
parse and every required argument without tokens gives one error, in order, and so do tokens left over; without
errors the arguments that got tokens have the parsed values, the last one where names repeat.\<close>

theorem parse_positional_shares:
  "parse_positional tokens ds ctx =
     (let errors = concat (map (share_error ctx) (fst (share ds tokens))) @
        (if snd (share ds tokens) = [] then []
         else [TooManyArguments (sum_list (map (\<lambda>a. token_count (parser_of a)) ds)) (length tokens)])
      in if errors = [] then Inr (map_of (rev (concat (map (share_value ctx) (fst (share ds tokens))))))
         else Inl errors)"
proof -
  have "list_ex variadic ds \<Longrightarrow> snd (share ds tokens) = []" by (rule share_variadic)
  moreover have "length (snd (share ds tokens)) \<le> length tokens"
    by (induction ds tokens rule: share.induct) (auto simp: Let_def intro: order_trans)
  then have "length tokens - length (snd (share ds tokens)) < length tokens \<longleftrightarrow> snd (share ds tokens) \<noteq> []"
    by (cases "snd (share ds tokens)") auto
  ultimately show ?thesis
    using argument_step_share [of 0 tokens ctx ds Map.empty "[]"]
    by (auto simp: parse_positional_def Let_def)
qed

section \<open>Handlers get what was parsed\<close>

lemma share_args: "map fst (fst (share ds ts)) = ds"
  by (induction ds ts rule: share.induct) (auto simp: Let_def)

lemma required_get_values:
  assumes "parse_positional tokens ds ctx = Inr parsed" and "a \<in> set ds" and "arg_required a"
  shows "\<exists>v. parsed (arg_name a) = Some v"
proof -
  obtain input where p: "(a, input) \<in> set (fst (share ds tokens))"
  proof -
    have "a \<in> set (map fst (fst (share ds tokens)))" unfolding share_args by (rule assms(2))
    then show ?thesis using that by auto
  qed
  have ok: "share_error ctx (a, input) = []"
    and parsed: "parsed = map_of (rev (concat (map (share_value ctx) (fst (share ds tokens)))))"
    using assms(1) p by (auto simp: parse_positional_shares Let_def split: if_splits)
  then obtain v where "(arg_name a, v) \<in> set (share_value ctx (a, input))"
    using assms(3) by (auto simp: share_error_def share_value_def split: option.splits sum.splits)
  then have "arg_name a \<in> fst ` set (rev (concat (map (share_value ctx) (fst (share ds tokens)))))"
    using p by force
  then show ?thesis unfolding parsed by (metis domD dom_map_of_conv_image_fst)
qed

lemma values_were_parsed:
  assumes "parse_positional tokens ds ctx = Inr parsed" and "parsed name = Some v"
  shows "\<exists>a \<in> set ds. \<exists>input. arg_name a = name \<and> parse_in (parser_of a) input ctx = Inr v"
proof -
  have "parsed = map_of (rev (concat (map (share_value ctx) (fst (share ds tokens)))))"
    using assms(1) by (auto simp: parse_positional_shares Let_def split: if_splits)
  then have "(name, v) \<in> set (rev (concat (map (share_value ctx) (fst (share ds tokens)))))"
    using assms(2) by (metis map_of_SomeD)
  then obtain a input where "(a, input) \<in> set (fst (share ds tokens))" "(name, v) \<in> set (share_value ctx (a, input))"
    by auto
  moreover then have "a \<in> set ds" using share_args [of ds tokens] by (metis (no_types, lifting) fst_conv image_eqI list.set_map)
  ultimately show ?thesis by (auto simp: share_value_def split: option.splits sum.splits) metis
qed

lemma usage_alt: "usage r name = map_option usage_line (Option.bind (resolve r name) (commands_of r))"
  by (cases "resolve r name") (simp_all add: usage_def)

lemma resolve_handler_alt:
  "resolve_handler r name =
     (case Option.bind (resolve r name) (commands_of r) of
        Some c \<Rightarrow> Inr \<lparr>res_handler = cmd_handler c, res_arguments = arguments c, res_flags = flag_definitions c,
            res_usage = usage_line c\<rparr>
      | None \<Rightarrow> Inl (''Unknown command: /'' @ name))"
  by (auto simp: resolve_handler_def resolve_def Let_def split: option.splits)

lemma sv_chat_say: "fold (\<lambda>e. send_system_chat entity (f e) Red) errors s
    = s\<lparr>sv_chat := sv_chat s @ map (\<lambda>e. ToPlayer entity (f e) Red) errors\<rparr>"
  by (induction errors arbitrary: s) (auto simp: send_system_chat_def say_def)

lemma report_errors_chat: "report_errors infty entity usage_text errors s
    = s\<lparr>sv_chat := sv_chat s @ map (\<lambda>e. ToPlayer entity (to_player_message infty e) Red) errors
          @ [ToPlayer entity (''Usage: '' @ usage_text) Gray]\<rparr>"
  by (simp add: report_errors_def sv_chat_say) (simp add: send_system_chat_def say_def)

text \<open>C14: a command either runs or explains itself. If its name resolves to a registered command and its flags
and arguments parse, its handler is run once, on the unchanged server, with a value for every required
argument, and every value it is given was accepted by the parser of an argument of that name; otherwise nothing
changes but the chat of the player, who gets one red line at least and, when the command exists, its usage.\<close>

theorem dispatch_runs_or_explains:
  "(\<exists>cmd parsed fs.
      Option.bind (resolve (sv_registry s) name) (commands_of (sv_registry s)) = Some cmd
      \<and> dispatch_command infty run client entity name args s
        = run (cmd_handler cmd)
            \<lparr>cc_entity = entity, cc_client = client, cc_args = args, cc_parsed = parsed, cc_flags = fs\<rparr> s
      \<and> list_all (\<lambda>a. \<not> arg_required a \<or> parsed (arg_name a) \<noteq> None) (arguments cmd)
      \<and> (\<forall>n \<in> dom parsed. list_ex (\<lambda>a. arg_name a = n
          \<and> (\<exists>input. parse_in (parser_of a) input \<lparr>pc_world = sv_world s, pc_executor = entity\<rparr> = Inr (the (parsed n))))
          (arguments cmd)))
   \<or> (\<exists>msgs. msgs \<noteq> [] \<and> dispatch_command infty run client entity name args s
        = s\<lparr>sv_chat := sv_chat s @ map (\<lambda>m. ToPlayer entity m Red) msgs @
            (case usage (sv_registry s) name of Some u \<Rightarrow> [ToPlayer entity (''Usage: '' @ u) Gray] | None \<Rightarrow> [])\<rparr>)"
proof (cases "Option.bind (resolve (sv_registry s) name) (commands_of (sv_registry s))")
  case None
  then have "resolve_handler (sv_registry s) name = Inl (''Unknown command: /'' @ name)" "usage (sv_registry s) name = None"
    by (simp_all add: resolve_handler_alt usage_alt)
  then show ?thesis
    by (auto simp: dispatch_command_def send_system_chat_def say_def intro!: disjI2 exI [of _ "[''Unknown command: /'' @ name]"])
next
  case (Some cmd)
  let ?ctx = "\<lparr>pc_world = sv_world s, pc_executor = entity\<rparr>"
  have res: "resolve_handler (sv_registry s) name = Inr \<lparr>res_handler = cmd_handler cmd, res_arguments = arguments cmd,
      res_flags = flag_definitions cmd, res_usage = usage_line cmd\<rparr>"
    and usage: "usage (sv_registry s) name = Some (usage_line cmd)"
    using Some by (simp_all add: resolve_handler_alt usage_alt)
  have explained: ?thesis if "errors \<noteq> []" "dispatch_command infty run client entity name args s
      = report_errors infty entity (usage_line cmd) errors s" for errors
    using that usage by (intro disjI2 exI [of _ "map (to_player_message infty) errors"]) (auto simp: report_errors_chat)
  obtain positional fs flag_errors where fl: "extract_flags args (flag_definitions cmd) ?ctx = (positional, fs, flag_errors)"
    by (cases "extract_flags args (flag_definitions cmd) ?ctx")
  show ?thesis
  proof (cases "flag_errors = []")
    case False
    then show ?thesis using explained [of flag_errors] by (simp add: dispatch_command_def res fl)
  next
    case True
    show ?thesis
    proof (cases "parse_positional positional (arguments cmd) ?ctx")
      case (Inl errors)
      then have "errors \<noteq> []" by (auto simp: parse_positional_def Let_def split: prod.splits if_splits)
      then show ?thesis using explained [of errors] True Inl by (simp add: dispatch_command_def res fl)
    next
      case (Inr parsed)
      then show ?thesis
        using True Some required_get_values [OF Inr] values_were_parsed [OF Inr]
        by (intro disjI1 exI [of _ cmd] exI [of _ parsed] exI [of _ fs])
          (fastforce simp: dispatch_command_def res fl list_all_iff list_ex_iff)
    qed
  qed
qed

text \<open>A command with one required integer, given one and given text.\<close>

definition count_command :: "(unit, nat, nat) command" where
  "count_command = \<lparr>cmd_name = ''count'', cmd_description = [], cmd_aliases = [''c''], cmd_usage = None,
     arguments = [\<lparr>arg_name = ''n'', parser_of = integer_arg (Some 0) None, arg_required = True, variadic = False\<rparr>],
     flag_definitions = [], cmd_handler = 7, suggest_entity_types = False\<rparr>"

definition count_server :: "(unit, nat, nat) server" where
  "count_server = \<lparr>sv_registry = register count_command new_registry, sv_queue = [], sv_sequence = 0, sv_entities = {1},
     sv_chat = [], sv_events = [], sv_world = ()\<rparr>"

lemma dispatch_runs_or_explains_witness:
  "\<exists>msgs. msgs \<noteq> [] \<and> dispatch_command [] (\<lambda>_ _ s. s) 5 1 ''count'' [''x''] count_server
     = count_server\<lparr>sv_chat := map (\<lambda>m. ToPlayer 1 m Red) msgs @ [ToPlayer 1 ''Usage: /count <n:integer>'' Gray]\<rparr>"
proof -
  have found: "Option.bind (resolve (sv_registry count_server) ''count'') (commands_of (sv_registry count_server)) = Some count_command"
    by (simp add: count_server_def register_def resolve_def count_command_def new_registry_def)
  have "usage (sv_registry count_server) ''count'' = Some ''/count <n:integer>''"
    unfolding usage_alt found
    by (simp add: usage_line_def count_command_def auto_usage_def argument_usage_def integer_arg_def plain_parser_def Let_def)
  moreover have "dispatch_command [] (\<lambda>_ _ s. s) 5 1 ''count'' [''x''] count_server \<noteq> count_server"
    unfolding dispatch_command_def resolve_handler_alt found
    by (simp add: count_command_def extract_flags_def flag_step_def strip_prefix_def parse_positional_def argument_step_def
        parse_one_def integer_arg_def plain_parser_def parse_signed_def digit_value_def report_errors_chat Let_def)
      (simp add: count_server_def)
  ultimately show ?thesis
    using dispatch_runs_or_explains [of count_server "''count''" "[]" "\<lambda>_ _ s. s" 5 1 "[''x'']"]
    by (auto simp: count_server_def)
qed

section \<open>Queued commands run in order\<close>

text \<open>Handlers and deferred commands that leave the queue alone.\<close>

definition keeps_queue :: "(('w, 'u, 'h) server \<Rightarrow> ('w, 'u, 'h) server) \<Rightarrow> bool" where
  "keeps_queue f \<longleftrightarrow> (\<forall>s queue. f (s\<lparr>sv_queue := queue\<rparr>) = (f s)\<lparr>sv_queue := queue\<rparr>)"

text \<open>What a queued command does: nothing once its entity is gone.\<close>

definition execute ::
  "string \<Rightarrow> ('w, 'u, 'h) runner \<Rightarrow> (('w, 'u, 'h) server \<Rightarrow> ('w, 'u, 'h) server) \<Rightarrow> queued_command \<Rightarrow>
   ('w, 'u, 'h) server \<Rightarrow> ('w, 'u, 'h) server" where
  "execute infty run flush q s = (if qc_entity q \<in> sv_entities s then flush (dispatch_queued infty run q s) else s)"

lemma keeps_queueD: "keeps_queue f \<Longrightarrow> f (s\<lparr>sv_queue := queue\<rparr>) = (f s)\<lparr>sv_queue := queue\<rparr>"
  by (simp add: keeps_queue_def)

lemma dispatch_keeps_queue:
  assumes "\<And>h cc. keeps_queue (run h cc)"
  shows "keeps_queue (dispatch_command infty run client entity name args)"
  unfolding keeps_queue_def dispatch_command_def
  by (auto simp: keeps_queueD [OF assms] report_errors_chat send_system_chat_def say_def Let_def
      split: sum.splits prod.splits)

lemma execute_keeps_queue:
  assumes "\<And>h cc. keeps_queue (run h cc)" and "keeps_queue flush"
  shows "execute infty run flush q (s\<lparr>sv_queue := queue\<rparr>) = (execute infty run flush q s)\<lparr>sv_queue := queue\<rparr>"
  using keeps_queueD [OF dispatch_keeps_queue [OF assms(1)]] keeps_queueD [OF assms(2)]
  by (simp add: execute_def dispatch_queued_def)

lemma drain_executes:
  assumes "\<And>h cc. keeps_queue (run h cc)" and "keeps_queue flush"
  shows "drain_command_queue infty run flush (s\<lparr>sv_queue := queue\<rparr>)
    = Some ((fold (execute infty run flush) queue s)\<lparr>sv_queue := []\<rparr>)"
proof (induction queue arbitrary: s)
  case Nil
  show ?case by (subst drain_command_queue.simps) simp
next
  case (Cons q queue)
  have "drain_command_queue infty run flush (s\<lparr>sv_queue := q # queue\<rparr>)
      = drain_command_queue infty run flush (execute infty run flush q (s\<lparr>sv_queue := queue\<rparr>))"
    by (subst drain_command_queue.simps) (simp add: execute_def Let_def)
  then show ?case by (simp add: execute_keeps_queue [OF assms] Cons)
qed

text \<open>The commands in lines of chat input, each from a client and its entity.\<close>

definition typed_commands :: "(u32 \<times> nat \<times> string) list \<Rightarrow> (u32 \<times> nat \<times> string \<times> string list) list" where
  "typed_commands inputs = concat (map (\<lambda>(client, entity, line).
     case split_whitespace line of [] \<Rightarrow> [] | name # args \<Rightarrow> [(client, entity, name, args)]) inputs)"

definition handle_inputs :: "(u32 \<times> nat \<times> string) list \<Rightarrow> ('w, 'u, 'h) server \<Rightarrow> ('w, 'u, 'h) server" where
  "handle_inputs inputs s = fold (\<lambda>(client, entity, line). handle_command client entity line) inputs s"

definition number :: "u64 \<Rightarrow> (u32 \<times> nat \<times> string \<times> string list) list \<Rightarrow> queued_command list" where
  "number n cs = map2 (\<lambda>i (client, entity, name, args). \<lparr>qc_client = client, qc_entity = entity, qc_command = name,
     qc_args = args, qc_sequence = n + of_nat i\<rparr>) [0..<length cs] cs"

lemma number_Cons: "number n ((client, entity, name, args) # cs) = \<lparr>qc_client = client, qc_entity = entity,
    qc_command = name, qc_args = args, qc_sequence = n\<rparr> # number (n + 1) cs"
  unfolding number_def
  by (simp add: upt_conv_Cons map_Suc_upt [symmetric] zip_map1 add.assoc del: upt_Suc) (simp add: case_prod_beta add.assoc)

lemma handle_inputs_queue:
  "sv_queue (handle_inputs inputs s) = sv_queue s @ number (sv_sequence s) (typed_commands inputs)"
proof (induction inputs arbitrary: s)
  case (Cons i inputs)
  obtain client entity line where i: "i = (client, entity, line)" by (cases i)
  show ?case
    using Cons [of "handle_command client entity line s"]
    by (auto simp: i handle_inputs_def handle_command_def enqueue_command_def typed_commands_def number_Cons Let_def
        split: list.splits)
qed (simp add: handle_inputs_def typed_commands_def number_def)

text \<open>C15: commands run in the order they were typed. However many players type commands between two ticks,
the tick runs each exactly once, in the order the lines came in and under consecutive sequence numbers, skipping
those whose player is gone by then, and leaves the queue empty, as long as handlers do not queue commands
themselves.\<close>

theorem commands_run_in_order:
  assumes "\<And>h cc. keeps_queue (run h cc)" and "keeps_queue flush" and "sv_queue s = []"
  shows "drain_command_queue infty run flush (handle_inputs inputs s)
    = Some ((fold (execute infty run flush) (number (sv_sequence s) (typed_commands inputs)) (handle_inputs inputs s))
        \<lparr>sv_queue := []\<rparr>)"
proof -
  have "drain_command_queue infty run flush ((handle_inputs inputs s)\<lparr>sv_queue := number (sv_sequence s) (typed_commands inputs)\<rparr>)
    = Some ((fold (execute infty run flush) (number (sv_sequence s) (typed_commands inputs)) (handle_inputs inputs s))
        \<lparr>sv_queue := []\<rparr>)"
    by (rule drain_executes) (rule assms)+
  moreover have "(handle_inputs inputs s)\<lparr>sv_queue := number (sv_sequence s) (typed_commands inputs)\<rparr> = handle_inputs inputs s"
    using handle_inputs_queue [of inputs s] assms(3) by simp
  ultimately show ?thesis by simp
qed

lemma commands_run_in_order_witness:
  "\<exists>s. drain_command_queue [] (\<lambda>_ cc. reply cc ''done'') id (handle_inputs [(5, 1, ''count 3''), (6, 2, ''x''), (5, 1, '' '')] count_server) = Some s
     \<and> sv_chat s = [ToPlayer 1 ''done'' White]"
proof -
  let ?run = "\<lambda>_ cc. reply cc ''done'' :: (unit, nat, nat) server \<Rightarrow> (unit, nat, nat) server"
  have keeps: "keeps_queue (?run h cc)" for h and cc :: "nat command_context"
    by (simp add: keeps_queue_def reply_def say_def)
  have split: "split_whitespace ''count 3'' = [''count'', ''3'']" "split_whitespace ''x'' = [''x'']" "split_whitespace '' '' = []"
    by (simp_all add: split_whitespace.simps [of "''count 3''"] split_whitespace.simps [of "'' 3''"]
        split_whitespace.simps [of "''x''"] split_whitespace.simps [of "'' ''"] is_whitespace_def Let_def)
  have typed: "typed_commands [(5, 1, ''count 3''), (6, 2, ''x''), (5, 1, '' '')] = [(5, 1, ''count'', [''3'']), (6, 2, ''x'', [])]"
    by (simp add: typed_commands_def split)
  define s0 where "s0 = handle_inputs [(5, 1, ''count 3''), (6, 2, ''x''), (5, 1, '' '')] count_server"
  have s0: "sv_registry s0 = sv_registry count_server" "sv_entities s0 = {1}" "sv_chat s0 = []"
    unfolding s0_def handle_inputs_def handle_command_def enqueue_command_def
    by (simp_all add: split Let_def) (simp_all add: count_server_def)
  have first: "execute [] ?run id \<lparr>qc_client = 5, qc_entity = 1, qc_command = ''count'', qc_args = [''3''], qc_sequence = 0\<rparr> s
      = say (ToPlayer 1 ''done'' White) s" if "sv_registry s = sv_registry count_server" "sv_entities s = {1}" for s
    using that
    by (simp add: execute_def dispatch_queued_def dispatch_command_def count_server_def register_def resolve_handler_alt resolve_def
        new_registry_def)
      (simp add: count_command_def extract_flags_def flag_step_def strip_prefix_def parse_positional_def argument_step_def
        parse_one_def integer_arg_def plain_parser_def parse_signed_def digit_value_def check_bounds_def reply_def Let_def)
  have queue: "number (sv_sequence count_server) [(5, 1, ''count'', [''3'']), (6, 2, ''x'', [])]
      = [\<lparr>qc_client = 5, qc_entity = 1, qc_command = ''count'', qc_args = [''3''], qc_sequence = 0\<rparr>,
         \<lparr>qc_client = 6, qc_entity = 2, qc_command = ''x'', qc_args = [], qc_sequence = 1\<rparr>]"
    by (simp add: number_def count_server_def)
  have "drain_command_queue [] ?run id s0
      = Some ((fold (execute [] ?run id) (number (sv_sequence count_server) (typed_commands [(5, 1, ''count 3''), (6, 2, ''x''), (5, 1, '' '')])) s0)
          \<lparr>sv_queue := []\<rparr>)"
    unfolding s0_def by (rule commands_run_in_order) (rule keeps, simp_all add: keeps_queue_def count_server_def)
  also have "fold (execute [] ?run id) (number (sv_sequence count_server) (typed_commands [(5, 1, ''count 3''), (6, 2, ''x''), (5, 1, '' '')])) s0
      = say (ToPlayer 1 ''done'' White) s0"
    unfolding typed queue by (simp add: first s0 del: One_nat_def) (simp add: execute_def say_def s0)
  finally show ?thesis unfolding s0_def [symmetric]
    by (intro exI conjI) (assumption, simp add: say_def s0)
qed

end
