(* ===== verification/Command_Tree.thy ===== *)
theory Command_Tree
  imports Command_Registry
begin

text \<open>
  The command tree sent to clients (\<open>build_command_tree\<close> in \<open>void/src/commands/mod.rs\<close>): a literal for
  every name and alias, the chain of argument nodes behind it, and flags that lead back to the node
  they start from. Node indices are natural numbers; the code's casts to \<open>i32\<close> keep them below 2^31 nodes.
\<close>

section \<open>Nodes\<close>

record command_node =
  node_type :: nat
  is_executable :: bool
  node_children :: "nat list"
  redirect_node :: "nat option"
  node_name :: "string option"
  node_parser :: "protocol_parser option"
  node_suggestions :: "string option"

definition literal_node :: "string \<Rightarrow> bool \<Rightarrow> nat list \<Rightarrow> nat option \<Rightarrow> command_node" where
  "literal_node name exec cs redirect = \<lparr>node_type = 1, is_executable = exec, node_children = cs, redirect_node = redirect,
     node_name = Some name, node_parser = None, node_suggestions = None\<rparr>"

definition root_node :: command_node where
  "root_node = \<lparr>node_type = 0, is_executable = False, node_children = [], redirect_node = None, node_name = None,
     node_parser = None, node_suggestions = None\<rparr>"

definition push_child :: "nat \<Rightarrow> nat \<Rightarrow> command_node list \<Rightarrow> command_node list" where
  "push_child parent i nodes =
     nodes[parent := (nodes ! parent)\<lparr>node_children := node_children (nodes ! parent) @ [i]\<rparr>]"

definition append_flag_branch ::
  "nat \<Rightarrow> string \<Rightarrow> ('w, 'u) flag_definition \<Rightarrow> command_node list \<Rightarrow> command_node list" where
  "append_flag_branch parent literal d nodes =
     (let literal_index = length nodes; nodes' = push_child parent literal_index nodes in
      if takes_value d then
        (let protocol_parser = (case Option.bind (value_parser d) protocol_parser_of of
               Some p \<Rightarrow> p | None \<Rightarrow> PString SingleWord);
             suggestions = Option.bind (value_parser d) suggestions_type
         in nodes' @ [literal_node literal False [literal_index + 1] None,
              \<lparr>node_type = 2, is_executable = True, node_children = [], redirect_node = Some parent,
               node_name = Some (fl_long d), node_parser = Some protocol_parser, node_suggestions = suggestions\<rparr>])
      else nodes' @ [literal_node literal True [] (Some parent)])"

definition append_flag_branches ::
  "nat \<Rightarrow> ('w, 'u) flag_definition list \<Rightarrow> command_node list \<Rightarrow> command_node list" where
  "append_flag_branches parent ds =
     fold (\<lambda>d nodes.
       let nodes' = append_flag_branch parent (''--'' @ fl_long d) d nodes in
       case fl_short d of
         Some c \<Rightarrow> append_flag_branch parent [CHR ''-'', c] d nodes'
       | None \<Rightarrow> nodes') ds"

definition optional_from :: "('w, 'u) argument_definition list \<Rightarrow> nat \<Rightarrow> bool" where
  "optional_from args i \<longleftrightarrow> list_all (\<lambda>a. \<not> arg_required a) (drop i args)"

definition argument_node :: "('w, 'u) argument_definition list \<Rightarrow> nat list \<Rightarrow> nat \<Rightarrow> command_node" where
  "argument_node args arg_indices i =
     (let a = args ! i in
      \<lparr>node_type = 2, is_executable = (i + 1 = length args \<or> optional_from args (i + 1)),
       node_children = (if i + 1 < length args then [arg_indices ! (i + 1)] else []),
       redirect_node = None, node_name = Some (arg_name a),
       node_parser = Some (case protocol_parser_of (parser_of a) of Some p \<Rightarrow> p | None \<Rightarrow> PString SingleWord),
       node_suggestions = suggestions_type (parser_of a)\<rparr>)"

text \<open>
  The nodes of one command, from index \<open>base\<close> on: the literal of its name, its arguments, and the
  literals of its aliases; the indices of its arguments and aliases; and the nodes a command may end
  at, which are the ones flags are appended to.
\<close>

definition arg_indices :: "nat \<Rightarrow> ('w, 'u, 'h) command \<Rightarrow> nat list" where
  "arg_indices base cmd = map (\<lambda>i. base + i + 1) [0..<length (arguments cmd)]"

definition alias_indices :: "nat \<Rightarrow> ('w, 'u, 'h) command \<Rightarrow> nat list" where
  "alias_indices base cmd = map (\<lambda>i. base + 1 + length (arguments cmd) + i) [0..<length (cmd_aliases cmd)]"

definition starts_executable :: "('w, 'u, 'h) command \<Rightarrow> bool" where
  "starts_executable cmd \<longleftrightarrow> arguments cmd = [] \<or> optional_from (arguments cmd) 0"

definition name_node :: "nat \<Rightarrow> ('w, 'u, 'h) command \<Rightarrow> string \<Rightarrow> command_node" where
  "name_node base cmd name =
     literal_node name (starts_executable cmd) (case arg_indices base cmd of [] \<Rightarrow> [] | i # _ \<Rightarrow> [i]) None"

definition command_nodes :: "nat \<Rightarrow> ('w, 'u, 'h) command \<Rightarrow> command_node list" where
  "command_nodes base cmd =
     name_node base cmd (cmd_name cmd)
     # map (argument_node (arguments cmd) (arg_indices base cmd)) [0..<length (arguments cmd)]
     @ map (name_node base cmd) (cmd_aliases cmd)"

definition flag_parents :: "nat \<Rightarrow> ('w, 'u, 'h) command \<Rightarrow> command_node list \<Rightarrow> nat list" where
  "flag_parents base cmd nodes =
     (if starts_executable cmd then [base] else [])
     @ filter (\<lambda>i. is_executable (nodes ! i)) (arg_indices base cmd)
     @ (if starts_executable cmd then alias_indices base cmd else [])"

definition add_command ::
  "('w, 'u, 'h) command \<Rightarrow> command_node list \<times> nat list \<Rightarrow> command_node list \<times> nat list" where
  "add_command cmd st =
     (case st of (nodes, root_children) \<Rightarrow>
       (let base = length nodes; nodes' = nodes @ command_nodes base cmd
        in (fold (\<lambda>parent. append_flag_branches parent (flag_definitions cmd)) (flag_parents base cmd nodes') nodes',
            root_children @ base # alias_indices base cmd)))"

text \<open>\<open>cmds\<close> are the registered commands in the order the map iterates over them.\<close>

definition build_command_tree :: "('w, 'u, 'h) command list \<Rightarrow> command_node list" where
  "build_command_tree cmds =
     (let (nodes, root_children) = fold add_command cmds ([root_node], [])
      in nodes[0 := (nodes ! 0)\<lparr>node_children := root_children\<rparr>])"

section \<open>What a tree offers\<close>

definition in_range :: "command_node list \<Rightarrow> bool" where
  "in_range nodes \<longleftrightarrow> list_all (\<lambda>n. list_all (\<lambda>i. i < length nodes) (node_children n)
     \<and> (case redirect_node n of Some i \<Rightarrow> i < length nodes | None \<Rightarrow> True)) nodes"

text \<open>A flag under a node: its literal leads back to the node, through a value node if it takes a value.\<close>

definition offers_literal :: "command_node list \<Rightarrow> nat \<Rightarrow> string \<Rightarrow> ('w, 'u) flag_definition \<Rightarrow> bool" where
  "offers_literal nodes i literal d \<longleftrightarrow>
     (\<exists>j \<in> set (node_children (nodes ! i)). j < length nodes \<and> node_type (nodes ! j) = 1 \<and> node_name (nodes ! j) = Some literal
       \<and> (if takes_value d
          then (\<exists>k. take 1 (node_children (nodes ! j)) = [k] \<and> k < length nodes \<and> node_type (nodes ! k) = 2
                 \<and> redirect_node (nodes ! k) = Some i)
          else redirect_node (nodes ! j) = Some i))"

definition offers_flag :: "command_node list \<Rightarrow> nat \<Rightarrow> ('w, 'u) flag_definition \<Rightarrow> bool" where
  "offers_flag nodes i d \<longleftrightarrow> offers_literal nodes i (''--'' @ fl_long d) d
     \<and> (case fl_short d of Some c \<Rightarrow> offers_literal nodes i [CHR ''-'', c] d | None \<Rightarrow> True)"

text \<open>The children of a node are \<open>cs\<close> and then one literal for each of \<open>ls\<close>, and no others.\<close>

definition flag_literals :: "('w, 'u) flag_definition list \<Rightarrow> string list" where
  "flag_literals ds =
     concat (map (\<lambda>d. (''--'' @ fl_long d) # (case fl_short d of Some c \<Rightarrow> [[CHR ''-'', c]] | None \<Rightarrow> [])) ds)"

definition children_are :: "command_node list \<Rightarrow> nat \<Rightarrow> nat list \<Rightarrow> string list \<Rightarrow> bool" where
  "children_are nodes i cs ls \<longleftrightarrow>
     (\<exists>js. node_children (nodes ! i) = cs @ js \<and> map (\<lambda>j. node_name (nodes ! j)) js = map Some ls
        \<and> (\<forall>j \<in> set js. j < length nodes))"

text \<open>The node at \<open>idx ! k\<close> is where \<open>k\<close> arguments have been typed.\<close>

definition fits :: "command_node list \<Rightarrow> ('w, 'u, 'h) command \<Rightarrow> nat list \<Rightarrow> nat \<Rightarrow> bool" where
  "fits nodes cmd idx k \<longleftrightarrow>
     (let n = nodes ! (idx ! k); args = arguments cmd in
      idx ! k < length nodes
      \<and> is_executable n = optional_from args k
      \<and> (k < length args \<longrightarrow> take 1 (node_children n) = [idx ! (k + 1)])
      \<and> (0 < k \<longrightarrow> node_type n = 2 \<and> node_name n = Some (arg_name (args ! (k - 1)))
          \<and> node_parser n = Some (case protocol_parser_of (parser_of (args ! (k - 1))) of Some p \<Rightarrow> p | None \<Rightarrow> PString SingleWord))
      \<and> (is_executable n \<longrightarrow> list_all (offers_flag nodes (idx ! k)) (flag_definitions cmd))
      \<and> children_are nodes (idx ! k) (if k < length args then [idx ! (k + 1)] else [])
          (if is_executable n then flag_literals (flag_definitions cmd) else []))"

definition spells :: "command_node list \<Rightarrow> ('w, 'u, 'h) command \<Rightarrow> nat list \<Rightarrow> bool" where
  "spells nodes cmd idx \<longleftrightarrow> length idx = Suc (length (arguments cmd)) \<and> (\<forall>k \<le> length (arguments cmd). fits nodes cmd idx k)"

text \<open>The names of a command are literals under the root, each the start of the command's arguments.\<close>

definition names_of :: "('w, 'u, 'h) command \<Rightarrow> (string \<times> ('w, 'u, 'h) command) list" where
  "names_of cmd = map (\<lambda>n. (n, cmd)) (cmd_name cmd # cmd_aliases cmd)"

definition offers :: "command_node list \<Rightarrow> nat \<Rightarrow> string \<times> ('w, 'u, 'h) command \<Rightarrow> bool" where
  "offers nodes i p \<longleftrightarrow> node_type (nodes ! i) = 1 \<and> node_name (nodes ! i) = Some (fst p)
     \<and> (\<exists>idx. spells nodes (snd p) (i # idx))"

section \<open>Trees grow\<close>

definition grows :: "command_node list \<Rightarrow> command_node list \<Rightarrow> bool" where
  "grows N N' \<longleftrightarrow> length N \<le> length N' \<and>
     (\<forall>i < length N. \<exists>cs. N' ! i = (N ! i)\<lparr>node_children := node_children (N ! i) @ cs\<rparr>)"

lemma grows_refl: "grows N N"
  by (auto simp: grows_def intro: exI [of _ "[]"])

lemma grows_trans:
  assumes "grows N N'" and "grows N' N''"
  shows "grows N N''"
  unfolding grows_def
proof (intro conjI allI impI)
  show "length N \<le> length N''" using assms by (simp add: grows_def)
next
  fix i assume i: "i < length N"
  then obtain cs where cs: "N' ! i = (N ! i)\<lparr>node_children := node_children (N ! i) @ cs\<rparr>"
    using assms(1) by (auto simp: grows_def)
  have "i < length N'" using assms(1) i by (simp add: grows_def)
  then obtain cs' where "N'' ! i = (N' ! i)\<lparr>node_children := node_children (N' ! i) @ cs'\<rparr>"
    using assms(2) by (auto simp: grows_def)
  then show "\<exists>cs. N'' ! i = (N ! i)\<lparr>node_children := node_children (N ! i) @ cs\<rparr>" using cs by auto
qed

lemma grows_append: "grows N (N @ M)"
  by (auto simp: grows_def nth_append intro: exI [of _ "[]"])

lemma grows_push: "grows N (push_child parent i N)"
  by (cases "parent < length N") (auto simp: grows_def push_child_def nth_list_update intro: exI [of _ "[]"])

lemma grows_nth:
  assumes "grows N N'" and "i < length N"
  shows "i < length N'" "node_type (N' ! i) = node_type (N ! i)" "node_name (N' ! i) = node_name (N ! i)"
    "node_parser (N' ! i) = node_parser (N ! i)" "is_executable (N' ! i) = is_executable (N ! i)"
    "redirect_node (N' ! i) = redirect_node (N ! i)" "\<exists>cs. node_children (N' ! i) = node_children (N ! i) @ cs"
proof -
  obtain cs where "N' ! i = (N ! i)\<lparr>node_children := node_children (N ! i) @ cs\<rparr>"
    using assms by (auto simp: grows_def)
  then show "i < length N'" "node_type (N' ! i) = node_type (N ! i)" "node_name (N' ! i) = node_name (N ! i)"
    "node_parser (N' ! i) = node_parser (N ! i)" "is_executable (N' ! i) = is_executable (N ! i)"
    "redirect_node (N' ! i) = redirect_node (N ! i)" "\<exists>cs. node_children (N' ! i) = node_children (N ! i) @ cs"
    using assms by (simp_all add: grows_def)
qed

lemma grows_first:
  assumes "grows N N'" and "i < length N" and "take 1 (node_children (N ! i)) = [k]"
  shows "take 1 (node_children (N' ! i)) = [k]"
  using grows_nth(7) [OF assms(1,2)] assms(3) by (cases "node_children (N ! i)") auto

lemma grows_offers_literal:
  assumes "grows N N'" and "i < length N" and "offers_literal N i l d"
  shows "offers_literal N' i l d"
proof -
  obtain j where j: "j \<in> set (node_children (N ! i))" "j < length N" "node_type (N ! j) = 1" "node_name (N ! j) = Some l"
    and returns: "if takes_value d then (\<exists>k. take 1 (node_children (N ! j)) = [k] \<and> k < length N \<and> node_type (N ! k) = 2
        \<and> redirect_node (N ! k) = Some i) else redirect_node (N ! j) = Some i"
    using assms(3) by (auto simp: offers_literal_def)
  have "j \<in> set (node_children (N' ! i))" using grows_nth(7) [OF assms(1,2)] j(1) by auto
  moreover have "if takes_value d then (\<exists>k. take 1 (node_children (N' ! j)) = [k] \<and> k < length N' \<and> node_type (N' ! k) = 2
        \<and> redirect_node (N' ! k) = Some i) else redirect_node (N' ! j) = Some i"
    using returns grows_nth [OF assms(1)] grows_first [OF assms(1) j(2)] j(2) by (auto split: if_splits)
  ultimately show ?thesis
    using grows_nth [OF assms(1) j(2)] j(3,4) unfolding offers_literal_def by auto
qed

lemma grows_offers_flag:
  assumes "grows N N'" and "i < length N" and "offers_flag N i d"
  shows "offers_flag N' i d"
  using assms(3) grows_offers_literal [OF assms(1,2)] unfolding offers_flag_def by (auto split: option.splits)

section \<open>Flags\<close>

lemma in_rangeD:
  assumes "in_range N" and "i < length N"
  shows "\<forall>j \<in> set (node_children (N ! i)). j < length N" "redirect_node (N ! i) = Some r \<Longrightarrow> r < length N"
  using assms by (auto simp: in_range_def list_all_iff dest!: nth_mem split: option.splits)

lemma in_rangeI:
  assumes "\<And>n i. n \<in> set N \<Longrightarrow> i \<in> set (node_children n) \<Longrightarrow> i < length N"
    and "\<And>n i. n \<in> set N \<Longrightarrow> redirect_node n = Some i \<Longrightarrow> i < length N"
  shows "in_range N"
  using assms by (auto simp: in_range_def list_all_iff split: option.splits)

lemma append_flag_branch_grows: "grows N (append_flag_branch parent l d N)"
  using grows_trans [OF grows_push grows_append] by (auto simp: append_flag_branch_def Let_def)

lemma append_flag_branch_offers:
  assumes "parent < length N"
  shows "offers_literal (append_flag_branch parent l d N) parent l d"
proof (cases "takes_value d")
  case True
  then show ?thesis
    using assms unfolding offers_literal_def
    by (intro bexI [of _ "length N"])
      (auto simp: append_flag_branch_def Let_def push_child_def nth_append literal_node_def)
next
  case False
  then show ?thesis
    using assms unfolding offers_literal_def
    by (intro bexI [of _ "length N"])
      (auto simp: append_flag_branch_def Let_def push_child_def nth_append literal_node_def)
qed

lemma append_flag_branch_in_range:
  assumes "parent < length N" and "in_range N"
  shows "in_range (append_flag_branch parent l d N)"
proof -
  have old: "i < length N" if "n \<in> set N" "i \<in> set (node_children n)" for n i
    using assms(2) that by (auto simp: in_range_def list_all_iff)
  have old': "i < length N" if "n \<in> set N" "redirect_node n = Some i" for n i
    using assms(2) that by (auto simp: in_range_def list_all_iff split: option.splits)
  have par: "N ! parent \<in> set N" using assms(1) by simp
  have pushed: "n \<in> set (push_child parent (length N) N) \<Longrightarrow> n \<in> set N \<or>
      n = (N ! parent)\<lparr>node_children := node_children (N ! parent) @ [length N]\<rparr>" for n
    using set_update_subset_insert [of N parent] by (auto simp: push_child_def)
  have len: "length (push_child parent (length N) N) = length N" by (simp add: push_child_def)
  show ?thesis
    by (rule in_rangeI)
      (auto simp: append_flag_branch_def Let_def len literal_node_def less_SucI [OF assms(1)] less_SucI [OF less_SucI [OF assms(1)]]
        dest!: pushed old [OF par] old' [OF par] dest: old old' split: if_splits)
qed

text \<open>A step that keeps a tree in shape.\<close>

definition extends :: "command_node list \<Rightarrow> command_node list \<Rightarrow> bool" where
  "extends N N' \<longleftrightarrow> grows N N' \<and> in_range N'"

lemma branch_extends:
  assumes "parent < length N" and "in_range N"
  shows "extends N (append_flag_branch parent l d N)"
  unfolding extends_def using assms by (intro conjI append_flag_branch_grows append_flag_branch_in_range)

lemma extends_trans: "extends N N' \<Longrightarrow> extends N' N'' \<Longrightarrow> extends N N''"
  by (auto simp: extends_def intro: grows_trans)

lemma extends_length: "extends N N' \<Longrightarrow> i < length N \<Longrightarrow> i < length N'"
  by (auto simp: extends_def grows_def)

lemma flag_branches_offer:
  assumes "parent < length N" and "in_range N"
  shows "extends N (append_flag_branches parent ds N) \<and> list_all (offers_flag (append_flag_branches parent ds N) parent) ds"
  using assms
proof (induction ds arbitrary: N)
  case Nil
  then show ?case by (simp add: append_flag_branches_def extends_def grows_refl)
next
  case (Cons d ds)
  let ?long = "append_flag_branch parent (''--'' @ fl_long d) d N"
  define N' where "N' = (case fl_short d of Some c \<Rightarrow> append_flag_branch parent [CHR ''-'', c] d ?long | None \<Rightarrow> ?long)"
  have long: "extends N ?long" by (rule branch_extends [OF Cons.prems])
  then have parent: "parent < length ?long" "in_range ?long" using extends_length Cons.prems by (auto simp: extends_def)
  have N': "extends ?long N'"
    using branch_extends [OF parent] parent(2) by (auto simp: N'_def extends_def grows_refl split: option.split)
  have "offers_literal N' parent (''--'' @ fl_long d) d"
    by (rule grows_offers_literal [OF _ parent(1) append_flag_branch_offers [OF Cons.prems(1)]])
      (use N' in \<open>simp add: extends_def\<close>)
  moreover have "fl_short d = Some c \<Longrightarrow> offers_literal N' parent [CHR ''-'', c] d" for c
    using append_flag_branch_offers [OF parent(1)] by (simp add: N'_def)
  ultimately have off: "offers_flag N' parent d" by (auto simp: offers_flag_def split: option.split)
  have p': "parent < length N'" "in_range N'" using extends_length [OF N' parent(1)] N' by (auto simp: extends_def)
  have eq: "append_flag_branches parent (d # ds) N = append_flag_branches parent ds N'"
    by (simp only: append_flag_branches_def N'_def Let_def fold_Cons comp_apply)
  show ?case
    unfolding eq using Cons.IH [OF p'] extends_trans [OF long N'] grows_offers_flag [OF _ p'(1) off]
    by (auto simp: extends_def intro: grows_trans)
qed

lemma all_flag_branches_offer:
  assumes "\<forall>p \<in> set parents. p < length N" and "in_range N"
  shows "extends N (fold (\<lambda>p. append_flag_branches p ds) parents N)
    \<and> (\<forall>p \<in> set parents. list_all (offers_flag (fold (\<lambda>p. append_flag_branches p ds) parents N) p) ds)"
  using assms
proof (induction parents arbitrary: N)
  case Nil
  then show ?case by (simp add: extends_def grows_refl)
next
  case (Cons p parents)
  let ?N = "append_flag_branches p ds N"
  have p: "p < length N" using Cons.prems by simp
  have N: "extends N ?N" "list_all (offers_flag ?N p) ds" using flag_branches_offer [OF p Cons.prems(2)] by auto
  have rest: "\<forall>p \<in> set parents. p < length ?N" "in_range ?N"
    using Cons.prems extends_length [OF N(1)] N(1) by (auto simp: extends_def)
  let ?F = "fold (\<lambda>p. append_flag_branches p ds) parents ?N"
  have "extends ?N ?F" "\<forall>p \<in> set parents. list_all (offers_flag ?F p) ds" using Cons.IH [OF rest] by auto
  moreover from this have "list_all (offers_flag ?F p) ds"
    using N(2) grows_offers_flag [OF _ extends_length [OF N(1) p]] by (auto simp: list_all_iff extends_def)
  ultimately show ?case using extends_trans [OF N(1)] by simp
qed

text \<open>Children of a node change only when flags are appended to that very node.\<close>

lemma children_are_grows:
  assumes "grows N F" and "node_children (F ! i) = node_children (N ! i)" and "children_are N i cs ls"
  shows "children_are F i cs ls"
proof -
  obtain js where js: "node_children (N ! i) = cs @ js" "map (\<lambda>j. node_name (N ! j)) js = map Some ls" "\<forall>j \<in> set js. j < length N"
    using assms(3) by (auto simp: children_are_def)
  have "map (\<lambda>j. node_name (F ! j)) js = map (\<lambda>j. node_name (N ! j)) js" using js(3) grows_nth(3) [OF assms(1)] by auto
  then show ?thesis using js assms(2) grows_nth(1) [OF assms(1)] by (auto simp: children_are_def intro!: exI [of _ js])
qed

lemma append_flag_branch_other:
  "i < length N \<Longrightarrow> i \<noteq> parent \<Longrightarrow> append_flag_branch parent l d N ! i = N ! i"
  by (auto simp: append_flag_branch_def Let_def push_child_def nth_append)

lemma append_flag_branch_children:
  assumes "p < length N" and "children_are N p cs ls"
  shows "children_are (append_flag_branch p l d N) p cs (ls @ [l])"
proof -
  let ?F = "append_flag_branch p l d N"
  obtain js where js: "node_children (N ! p) = cs @ js" "map (\<lambda>j. node_name (N ! j)) js = map Some ls" "\<forall>j \<in> set js. j < length N"
    using assms(2) by (auto simp: children_are_def)
  have "map (\<lambda>j. node_name (?F ! j)) js = map (\<lambda>j. node_name (N ! j)) js"
    using js(3) grows_nth(3) [OF append_flag_branch_grows [of N p l d]] by auto
  moreover have "node_children (?F ! p) = node_children (N ! p) @ [length N]" "node_name (?F ! length N) = Some l"
      "length N < length ?F"
    using assms(1) by (auto simp: append_flag_branch_def Let_def push_child_def nth_append literal_node_def)
  moreover have "\<forall>j \<in> set js. j < length ?F" using js(3) grows_nth(1) [OF append_flag_branch_grows [of N p l d]] by blast
  ultimately show ?thesis using js(1,2) unfolding children_are_def by (intro exI [of _ "js @ [length N]"]) simp
qed

lemma flag_branches_children:
  assumes "p < length N" and "children_are N p cs ls"
  shows "children_are (append_flag_branches p ds N) p cs (ls @ flag_literals ds)"
  using assms
proof (induction ds arbitrary: N ls)
  case Nil
  then show ?case by (simp add: append_flag_branches_def flag_literals_def)
next
  case (Cons d ds)
  let ?long = "append_flag_branch p (''--'' @ fl_long d) d N"
  define N' where "N' = (case fl_short d of Some c \<Rightarrow> append_flag_branch p [CHR ''-'', c] d ?long | None \<Rightarrow> ?long)"
  define own where "own = (''--'' @ fl_long d) # (case fl_short d of Some c \<Rightarrow> [[CHR ''-'', c]] | None \<Rightarrow> [])"
  have long: "children_are ?long p cs (ls @ [''--'' @ fl_long d])" "p < length ?long"
    using append_flag_branch_children [OF Cons.prems] grows_nth(1) [OF append_flag_branch_grows Cons.prems(1)] by simp_all
  have N': "children_are N' p cs (ls @ own)" "p < length N'"
    using append_flag_branch_children [OF long(2,1)] grows_nth(1) [OF append_flag_branch_grows long(2)] long
    unfolding N'_def own_def by (auto split: option.split)
  have "append_flag_branches p (d # ds) N = append_flag_branches p ds N'"
    by (simp only: append_flag_branches_def N'_def Let_def fold_Cons comp_apply)
  moreover have "flag_literals (d # ds) = own @ flag_literals ds" by (simp add: flag_literals_def own_def)
  ultimately show ?case using Cons.IH [OF N'(2,1)] by simp
qed

lemma flag_branches_other:
  "i < length N \<Longrightarrow> i \<noteq> parent \<Longrightarrow> i < length (append_flag_branches parent ds N) \<and> append_flag_branches parent ds N ! i = N ! i"
proof (induction ds arbitrary: N)
  case (Cons d ds)
  let ?long = "append_flag_branch parent (''--'' @ fl_long d) d N"
  define N' where "N' = (case fl_short d of Some c \<Rightarrow> append_flag_branch parent [CHR ''-'', c] d ?long | None \<Rightarrow> ?long)"
  have long: "i < length ?long" "?long ! i = N ! i"
    using append_flag_branch_grows [of N parent "''--'' @ fl_long d" d] Cons.prems
    by (auto simp: grows_def append_flag_branch_other)
  then have "i < length N' \<and> N' ! i = N ! i"
    using append_flag_branch_grows [of ?long parent _ d] Cons.prems(2) unfolding N'_def
    by (auto simp: grows_def append_flag_branch_other split: option.split intro: less_le_trans)
  moreover have "append_flag_branches parent (d # ds) N = append_flag_branches parent ds N'"
    by (simp only: append_flag_branches_def N'_def Let_def fold_Cons comp_apply)
  ultimately show ?case using Cons.IH [of N'] Cons.prems(2) by simp
qed (simp add: append_flag_branches_def)

lemma all_flag_branches_other:
  "i < length N \<Longrightarrow> i \<notin> set parents \<Longrightarrow> fold (\<lambda>p. append_flag_branches p ds) parents N ! i = N ! i"
  by (induction parents arbitrary: N) (auto simp: flag_branches_other)

lemma all_flag_branches_children:
  assumes "\<forall>q \<in> set parents. q < length N" and "in_range N" and "distinct parents" and "p < length N"
    and "children_are N p cs []"
  shows "children_are (fold (\<lambda>p. append_flag_branches p ds) parents N) p cs (if p \<in> set parents then flag_literals ds else [])"
proof (cases "p \<in> set parents")
  case False
  have "extends N (fold (\<lambda>p. append_flag_branches p ds) parents N)"
    using all_flag_branches_offer [OF assms(1,2), of ds] by simp
  then show ?thesis
    using children_are_grows [OF _ _ assms(5)] all_flag_branches_other [OF assms(4) False, of ds] False by (simp add: extends_def)
next
  case True
  then obtain before after where split: "parents = before @ p # after" by (meson split_list)
  let ?A = "fold (\<lambda>p. append_flag_branches p ds) before N"
  let ?B = "append_flag_branches p ds ?A"
  let ?C = "fold (\<lambda>p. append_flag_branches p ds) after ?B"
  have out: "p \<notin> set before" "p \<notin> set after" using assms(3) split by auto
  have A: "extends N ?A" using all_flag_branches_offer [of before N ds] assms(1,2) split by auto
  have pA: "p < length ?A" by (rule extends_length [OF A assms(4)])
  have cA: "children_are ?A p cs []"
    using children_are_grows [OF _ _ assms(5)] A all_flag_branches_other [OF assms(4) out(1), of ds] by (simp add: extends_def)
  have B: "extends ?A ?B" using flag_branches_offer [OF pA, of ds] A by (simp add: extends_def)
  have pB: "p < length ?B" by (rule extends_length [OF B pA])
  have cB: "children_are ?B p cs (flag_literals ds)" using flag_branches_children [OF pA cA] by simp
  have "\<forall>q \<in> set after. q < length ?B"
    using assms(1) split extends_length [OF B] extends_length [OF A] by auto
  then have "grows ?B ?C" using all_flag_branches_offer [of after ?B ds] B by (simp add: extends_def)
  then show ?thesis
    using children_are_grows [OF _ _ cB] all_flag_branches_other [OF pB out(2), of ds] True split by simp
qed

section \<open>Commands\<close>

lemma fits_grown:
  assumes "grows N F" and "idx ! k < length N" and "is_executable (N ! (idx ! k)) = optional_from (arguments cmd) k"
    and "k < length (arguments cmd) \<longrightarrow> take 1 (node_children (N ! (idx ! k))) = [idx ! (k + 1)]"
    and "0 < k \<longrightarrow> node_type (N ! (idx ! k)) = 2 \<and> node_name (N ! (idx ! k)) = Some (arg_name (arguments cmd ! (k - 1)))
      \<and> node_parser (N ! (idx ! k)) = Some (case protocol_parser_of (parser_of (arguments cmd ! (k - 1))) of Some p \<Rightarrow> p | None \<Rightarrow> PString SingleWord)"
    and "is_executable (N ! (idx ! k)) \<longrightarrow> list_all (offers_flag F (idx ! k)) (flag_definitions cmd)"
    and "children_are F (idx ! k) (if k < length (arguments cmd) then [idx ! (k + 1)] else [])
      (if is_executable (N ! (idx ! k)) then flag_literals (flag_definitions cmd) else [])"
  shows "fits F cmd idx k"
  using assms(3-7) grows_nth [OF assms(1,2)] grows_first [OF assms(1,2)] by (simp add: fits_def Let_def)

lemma fits_grows:
  assumes "grows N F" and "fits N cmd idx k" and "node_children (F ! (idx ! k)) = node_children (N ! (idx ! k))"
  shows "fits F cmd idx k"
proof (rule fits_grown [OF assms(1)])
  show l: "idx ! k < length N" using assms(2) by (simp add: fits_def Let_def)
  show "is_executable (N ! (idx ! k)) \<longrightarrow> list_all (offers_flag F (idx ! k)) (flag_definitions cmd)"
    using assms(2) grows_offers_flag [OF assms(1) l] by (auto simp: fits_def Let_def list_all_iff)
  show "children_are F (idx ! k) (if k < length (arguments cmd) then [idx ! (k + 1)] else [])
      (if is_executable (N ! (idx ! k)) then flag_literals (flag_definitions cmd) else [])"
  proof (rule children_are_grows [OF assms(1,3)])
    show "children_are N (idx ! k) (if k < length (arguments cmd) then [idx ! (k + 1)] else [])
      (if is_executable (N ! (idx ! k)) then flag_literals (flag_definitions cmd) else [])"
      using assms(2) unfolding fits_def Let_def by blast
  qed
qed (use assms(2) in \<open>simp_all add: fits_def Let_def\<close>)

lemma offers_length:
  assumes "offers N i p"
  shows "i < length N"
proof -
  obtain idx where "spells N (snd p) (i # idx)" using assms by (auto simp: offers_def)
  then have "fits N (snd p) (i # idx) 0" by (simp add: spells_def)
  then show ?thesis by (simp add: fits_def Let_def)
qed

text \<open>The nodes below the root stay as they are.\<close>

lemma offers_grows:
  assumes "grows N F" and "\<And>i. i < length N \<Longrightarrow> node_type (N ! i) \<noteq> 0 \<Longrightarrow> F ! i = N ! i" and "offers N i p"
  shows "offers F i p"
proof -
  obtain idx where idx: "spells N (snd p) (i # idx)" using assms(3) by (auto simp: offers_def)
  have "i < length N" by (rule offers_length [OF assms(3)])
  moreover have "fits F (snd p) (i # idx) k" if "fits N (snd p) (i # idx) k" for k
  proof -
    have "(i # idx) ! k < length N" "node_type (N ! ((i # idx) ! k)) \<noteq> 0"
      using that assms(3) by (cases k; simp add: fits_def Let_def offers_def)+
    from fits_grows [OF assms(1) that] assms(2) [OF this] show ?thesis by simp
  qed
  then have "spells F (snd p) (i # idx)" using idx by (auto simp: spells_def)
  ultimately show ?thesis using assms grows_nth [OF assms(1)] by (auto simp: offers_def)
qed

lemma command_nodes_nth:
  assumes "N1 = N @ command_nodes (length N) cmd"
  shows "N1 ! length N = name_node (length N) cmd (cmd_name cmd)"
    and "i < length (arguments cmd) \<Longrightarrow>
      N1 ! (length N + i + 1) = argument_node (arguments cmd) (arg_indices (length N) cmd) i"
    and "i < length (cmd_aliases cmd) \<Longrightarrow>
      N1 ! (length N + 1 + length (arguments cmd) + i) = name_node (length N) cmd (cmd_aliases cmd ! i)"
    and "length N1 = length N + 1 + length (arguments cmd) + length (cmd_aliases cmd)"
  unfolding assms by (simp_all add: command_nodes_def nth_append)

lemma arg_indices_bound: "i \<in> set (arg_indices base cmd) \<Longrightarrow> base < i \<and> i < base + 1 + length (arguments cmd)"
  by (auto simp: arg_indices_def)

lemma command_nodes_children:
  assumes "n \<in> set (command_nodes base cmd)"
  shows "redirect_node n = None" and "set (node_children n) \<subseteq> set (arg_indices base cmd)"
proof -
  consider name where "n = name_node base cmd name"
    | i where "i < length (arguments cmd)" "n = argument_node (arguments cmd) (arg_indices base cmd) i"
    using assms by (auto simp: command_nodes_def)
  then have "redirect_node n = None \<and> set (node_children n) \<subseteq> set (arg_indices base cmd)"
  proof cases
    case 1
    then show ?thesis by (cases "arg_indices base cmd") (simp_all add: name_node_def literal_node_def)
  next
    case 2
    have "i + 1 < length (arguments cmd) \<Longrightarrow> arg_indices base cmd ! (i + 1) \<in> set (arg_indices base cmd)"
      by (rule nth_mem) (simp add: arg_indices_def)
    then show ?thesis using 2 by (auto simp: argument_node_def Let_def)
  qed
  then show "redirect_node n = None" and "set (node_children n) \<subseteq> set (arg_indices base cmd)" by auto
qed

lemma command_nodes_in_range:
  assumes "in_range N"
  shows "in_range (N @ command_nodes (length N) cmd)"
proof (rule in_rangeI)
  fix n i
  assume n: "n \<in> set (N @ command_nodes (length N) cmd)"
  have len: "length (N @ command_nodes (length N) cmd) = length N + 1 + length (arguments cmd) + length (cmd_aliases cmd)"
    by (simp add: command_nodes_def)
  have old: "n \<in> set N \<Longrightarrow> (\<forall>i \<in> set (node_children n). i < length N) \<and> (\<forall>i. redirect_node n = Some i \<longrightarrow> i < length N)"
    using assms by (auto simp: in_range_def list_all_iff)
  show "i \<in> set (node_children n) \<Longrightarrow> i < length (N @ command_nodes (length N) cmd)"
    using n old command_nodes_children(2) [of n "length N" cmd] arg_indices_bound [of i "length N" cmd] unfolding len by fastforce
  show "redirect_node n = Some i \<Longrightarrow> i < length (N @ command_nodes (length N) cmd)"
    using n old command_nodes_children(1) [of n "length N" cmd] unfolding len by fastforce
qed

lemma flag_parents_bound:
  assumes "N1 = N @ command_nodes (length N) cmd" and "p \<in> set (flag_parents (length N) cmd N1)"
  shows "length N \<le> p \<and> p < length N1"
  using assms(2) unfolding command_nodes_nth(4) [OF assms(1)]
  by (auto simp: flag_parents_def alias_indices_def dest: arg_indices_bound split: if_splits)

lemma flag_parents_distinct: "distinct (flag_parents base cmd nodes)"
  by (auto simp: flag_parents_def alias_indices_def arg_indices_def distinct_map inj_on_def)

lemma flag_parents_start:
  assumes "i \<in> insert base (set (alias_indices base cmd))"
  shows "i \<in> set (flag_parents base cmd nodes) \<longleftrightarrow> starts_executable cmd"
  using assms by (auto simp: flag_parents_def alias_indices_def dest: arg_indices_bound)

lemma flag_parents_argument:
  assumes "j < length (arguments cmd)"
  shows "arg_indices base cmd ! j \<in> set (flag_parents base cmd nodes) \<longleftrightarrow> is_executable (nodes ! (arg_indices base cmd ! j))"
proof -
  have "arg_indices base cmd ! j \<in> set (arg_indices base cmd)" using assms by (simp add: arg_indices_def)
  moreover from this have "arg_indices base cmd ! j \<notin> insert base (set (alias_indices base cmd))"
    by (auto simp: alias_indices_def dest: arg_indices_bound)
  ultimately show ?thesis by (auto simp: flag_parents_def)
qed

text \<open>Every name at which the command's literal stands starts the command's arguments.\<close>

lemma add_command_offers:
  assumes N1: "N1 = N @ command_nodes (length N) cmd" and grown: "grows N1 F"
    and flags: "\<forall>p \<in> set (flag_parents (length N) cmd N1). list_all (offers_flag F p) (flag_definitions cmd)"
    and kids: "\<And>p. p < length N1 \<Longrightarrow> children_are F p (node_children (N1 ! p))
      (if p \<in> set (flag_parents (length N) cmd N1) then flag_literals (flag_definitions cmd) else [])"
    and i: "i \<in> insert (length N) (set (alias_indices (length N) cmd))" and name: "N1 ! i = name_node (length N) cmd name"
  shows "offers F i (name, cmd)"
proof -
  let ?ais = "arg_indices (length N) cmd" and ?n = "length (arguments cmd)"
  have i_len: "i < length N1" using i unfolding command_nodes_nth(4) [OF N1] by (auto simp: alias_indices_def)
  have ais: "length ?ais = ?n" "\<And>k. k < ?n \<Longrightarrow> ?ais ! k = length N + k + 1" by (simp_all add: arg_indices_def)
  have "fits F cmd (i # ?ais) k" if k: "k \<le> ?n" for k
  proof (cases k)
    case 0
    have first: "0 < ?n \<Longrightarrow> (case ?ais of [] \<Rightarrow> [] | i # _ \<Rightarrow> [i]) = [?ais ! 0]" using ais(1) by (cases ?ais) auto
    have exec: "starts_executable cmd = optional_from (arguments cmd) 0" by (auto simp: starts_executable_def optional_from_def)
    have "starts_executable cmd \<Longrightarrow> i \<in> set (flag_parents (length N) cmd N1)" using i by (auto simp: flag_parents_def)
    moreover have "children_are F i (if 0 < ?n then [?ais ! 0] else [])
        (if optional_from (arguments cmd) 0 then flag_literals (flag_definitions cmd) else [])"
      using kids [OF i_len] first ais(1) unfolding flag_parents_start [OF i] exec
      by (cases "arguments cmd") (simp_all add: name name_node_def literal_node_def arg_indices_def)
    ultimately show ?thesis
      unfolding 0 using flags first exec
      by (intro fits_grown [OF grown]) (auto simp: i_len name name_node_def literal_node_def)
  next
    case (Suc j)
    then have j: "j < ?n" using k by simp
    have node: "N1 ! (?ais ! j) = argument_node (arguments cmd) ?ais j" using command_nodes_nth(2) [OF N1 j] ais(2) [OF j] by simp
    have l: "?ais ! j < length N1" using j ais(2) [OF j] unfolding command_nodes_nth(4) [OF N1] by simp
    have "is_executable (N1 ! (?ais ! j)) \<Longrightarrow> ?ais ! j \<in> set (flag_parents (length N) cmd N1)"
      using j ais(1) by (auto simp: flag_parents_def)
    moreover have "children_are F (?ais ! j) (if Suc j < ?n then [?ais ! Suc j] else [])
        (if is_executable (N1 ! (?ais ! j)) then flag_literals (flag_definitions cmd) else [])"
      using kids [OF l] unfolding flag_parents_argument [OF j] node by (auto simp: argument_node_def Let_def split: if_splits)
    ultimately show ?thesis
      unfolding Suc using flags j l
      by (intro fits_grown [OF grown]) (auto simp: node argument_node_def Let_def optional_from_def)
  qed
  then have "spells F cmd (i # ?ais)" by (simp add: spells_def ais(1))
  then show ?thesis
    using grows_nth [OF grown i_len] name by (auto simp: offers_def name_node_def literal_node_def)
qed

section \<open>The whole tree\<close>

definition good_tree :: "('w, 'u, 'h) command list \<Rightarrow> command_node list \<times> nat list \<Rightarrow> bool" where
  "good_tree cmds st \<longleftrightarrow> in_range (fst st) \<and> 0 < length (fst st) \<and> fst st ! 0 = root_node
     \<and> list_all2 (offers (fst st)) (snd st) (concat (map names_of cmds))"

lemma add_command_good:
  assumes "good_tree cmds (N, roots)"
  shows "good_tree (cmds @ [cmd]) (add_command cmd (N, roots))"
proof -
  define N1 where N1: "N1 = N @ command_nodes (length N) cmd"
  define F where "F = fold (\<lambda>p. append_flag_branches p (flag_definitions cmd)) (flag_parents (length N) cmd N1) N1"
  let ?als = "alias_indices (length N) cmd"
  have old: "in_range N" "0 < length N" "N ! 0 = root_node" "list_all2 (offers N) roots (concat (map names_of cmds))"
    using assms by (auto simp: good_tree_def)
  have par: "\<forall>p \<in> set (flag_parents (length N) cmd N1). p < length N1" and no0: "0 \<notin> set (flag_parents (length N) cmd N1)"
    using flag_parents_bound [OF N1] old(2) by force+
  have F: "extends N1 F" "\<forall>p \<in> set (flag_parents (length N) cmd N1). list_all (offers_flag F p) (flag_definitions cmd)"
    using all_flag_branches_offer [OF par, of "flag_definitions cmd"] command_nodes_in_range [OF old(1), of cmd]
    by (auto simp: F_def N1)
  have kids: "children_are F p (node_children (N1 ! p))
      (if p \<in> set (flag_parents (length N) cmd N1) then flag_literals (flag_definitions cmd) else [])" if "p < length N1" for p
    unfolding F_def using par command_nodes_in_range [OF old(1), of cmd] flag_parents_distinct that
    by (intro all_flag_branches_children) (simp_all add: N1 children_are_def)
  have unchanged: "F ! i = N ! i" if "i < length N" for i
  proof -
    have "i \<notin> set (flag_parents (length N) cmd N1)" using flag_parents_bound [OF N1, of i] that by auto
    then show ?thesis
      using all_flag_branches_other [of i N1 "flag_parents (length N) cmd N1" "flag_definitions cmd"] that
      by (simp add: F_def N1 nth_append)
  qed
  from F have grown: "grows N1 F" "grows N F" using grows_trans [OF grows_append [of N]] by (auto simp: extends_def N1)
  have add: "add_command cmd (N, roots) = (F, roots @ length N # ?als)"
    by (simp add: add_command_def F_def N1 Let_def)
  have "F ! 0 = root_node"
    using all_flag_branches_other [OF _ no0, of N1 "flag_definitions cmd"] old(2,3) command_nodes_nth(4) [OF N1]
    by (simp add: F_def N1 nth_append)
  moreover have "list_all2 (offers F) roots (concat (map names_of cmds))"
    using old(4) by (rule list_all2_mono) (rule offers_grows [OF grown(2) unchanged])
  moreover have "offers F (length N) (cmd_name cmd, cmd)"
    by (rule add_command_offers [OF N1 grown(1) F(2) kids]) (simp_all add: command_nodes_nth(1) [OF N1])
  moreover have "list_all2 (offers F) ?als (map (\<lambda>n. (n, cmd)) (cmd_aliases cmd))"
  proof (rule list_all2_all_nthI)
    fix i assume i: "i < length ?als"
    then have i': "i < length (cmd_aliases cmd)" by (simp add: alias_indices_def)
    have "?als ! i = length N + 1 + length (arguments cmd) + i" using i' by (simp add: alias_indices_def)
    then show "offers F (?als ! i) (map (\<lambda>n. (n, cmd)) (cmd_aliases cmd) ! i)"
      using i' nth_mem [OF i] command_nodes_nth(3) [OF N1 i']
      by (simp add: add_command_offers [OF N1 grown(1) F(2) kids])
  qed (simp add: alias_indices_def)
  moreover have "in_range F" "0 < length F"
    using F(1) grown(2) old(2) by (auto simp: extends_def grows_def)
  ultimately show ?thesis by (simp add: add good_tree_def names_of_def list_all2_appendI)
qed

lemma add_commands_good: "good_tree cmds st \<Longrightarrow> good_tree (cmds @ cmds') (fold add_command cmds' st)"
proof (induction cmds' arbitrary: cmds st)
  case (Cons c cs)
  then have "good_tree (cmds @ [c]) (add_command c st)" by (cases st) (simp add: add_command_good)
  from Cons.IH [OF this] show ?case by simp
qed simp

text \<open>C16: the tree sent to clients is well formed and offers every command: all indices are in range, the
root's children are the literals of the commands' names and aliases in order, and from each of them the
arguments of the command follow one another with their parsers, where exactly the nodes after which no argument
is required can be run, and exactly these offer the flags: each of them every flag of the command, long and
short, leading back, and no node has any child beside its next argument and those flags.\<close>

theorem command_tree_offers_every_command:
  "in_range (build_command_tree cmds)
   \<and> list_all2 (offers (build_command_tree cmds)) (node_children (build_command_tree cmds ! 0)) (concat (map names_of cmds))"
proof -
  obtain N roots where N: "fold add_command cmds ([root_node], []) = (N, roots)" by (metis prod.exhaust)
  have "good_tree [] ([root_node], [])" by (simp add: good_tree_def in_range_def root_node_def)
  from add_commands_good [OF this, of cmds] N have good: "good_tree cmds (N, roots)" by simp
  define T where "T = N[0 := (N ! 0)\<lparr>node_children := roots\<rparr>]"
  have T: "build_command_tree cmds = T" by (simp add: build_command_tree_def N T_def)
  have N0: "0 < length N" "N ! 0 = root_node" "in_range N" using good by (auto simp: good_tree_def)
  have grown: "grows N T"
    using N0 by (auto simp: grows_def T_def nth_list_update root_node_def intro: exI [of _ "[]"])
  have offered: "list_all2 (offers T) roots (concat (map names_of cmds))"
  proof -
    have "T ! i = N ! i" if "node_type (N ! i) \<noteq> 0" for i
      using that N0(2) by (cases i) (simp_all add: T_def root_node_def)
    then show ?thesis using good by (auto simp: good_tree_def intro: list_all2_mono offers_grows [OF grown])
  qed
  have "\<forall>i \<in> set roots. i < length T"
  proof
    fix i assume "i \<in> set roots"
    then obtain j where "j < length roots" "i = roots ! j" by (auto simp: in_set_conv_nth)
    then show "i < length T" using offers_length [OF list_all2_nthD [OF offered]] by simp
  qed
  moreover have members: "n = root_node\<lparr>node_children := roots\<rparr> \<or> n \<in> set N" if "n \<in> set T" for n
    using that set_update_subset_insert [of N 0] N0(2) unfolding T_def by auto
  moreover have "length T = length N" by (simp add: T_def)
  moreover have "i < length N" if "n \<in> set N" "i \<in> set (node_children n) \<or> redirect_node n = Some i" for n i
    using that N0(3) by (auto simp: in_range_def list_all_iff)
  ultimately have "in_range T" by (intro in_rangeI) (fastforce simp: root_node_def)+
  moreover have "node_children (T ! 0) = roots" using N0 by (simp add: T_def)
  ultimately show ?thesis using offered by (simp add: T)
qed

end
