(* ===== verification/Connection_Packets.thy ===== *)
theory Connection_Packets
  imports Codec_Structs Frames
begin

text \<open>
  The packets a client sends before it plays (\<open>void-protocol/src/serverbound/\<close>, \<open>handshake\<close>, \<open>status\<close>,
  \<open>login\<close>, \<open>configuration\<close>), with the codecs the derive macros generate for their structures, for enums
  written as their discriminant, and for packet sets tagged with a packet id. Text is its UTF-8 bytes.
\<close>

section \<open>States and small enums\<close>

datatype protocol_state = Handshake | Status | Login | Transfer | Configuration | Play

fun state_id :: "protocol_state \<Rightarrow> u8" where
  "state_id Handshake = 0"
| "state_id Status = 1"
| "state_id Login = 2"
| "state_id Transfer = 3"
| "state_id Configuration = 4"
| "state_id Play = 5"

definition encode_state :: "protocol_state \<Rightarrow> u8 list" where
  "encode_state s = encode_u8 (state_id s)"

definition decode_state :: "protocol_state dec" where
  "decode_state = dec_bind (decode decode_u8) (\<lambda>i.
     dec_ok_or (find (\<lambda>s. state_id s = i) [Handshake, Status, Login, Transfer, Configuration, Play]) (InvalidPacketId None))"

datatype chat_mode = Enabled | CommandOnly | Hidden
datatype main_hand = Left | Right
datatype particle_status = All | Decreased | Minimal

fun chat_mode_id :: "chat_mode \<Rightarrow> i32" where
  "chat_mode_id Enabled = 0" | "chat_mode_id CommandOnly = 1" | "chat_mode_id Hidden = 2"

fun main_hand_id :: "main_hand \<Rightarrow> i32" where
  "main_hand_id Left = 0" | "main_hand_id Right = 1"

fun particle_status_id :: "particle_status \<Rightarrow> i32" where
  "particle_status_id All = 0" | "particle_status_id Decreased = 1" | "particle_status_id Minimal = 2"

text \<open>An enum with a VarInt discriminant; \<open>es\<close> lists its values.\<close>

definition decode_enum32 :: "('a \<Rightarrow> i32) \<Rightarrow> 'a list \<Rightarrow> 'a dec" where
  "decode_enum32 f es = dec_bind decode_varint32 (\<lambda>i. dec_ok_or (find (\<lambda>e. f e = i) es) (InvalidPacketId None))"

definition decode_chat_mode :: "chat_mode dec" where
  "decode_chat_mode = decode_enum32 chat_mode_id [Enabled, CommandOnly, Hidden]"

definition decode_main_hand :: "main_hand dec" where
  "decode_main_hand = decode_enum32 main_hand_id [Left, Right]"

definition decode_particle_status :: "particle_status dec" where
  "decode_particle_status = decode_enum32 particle_status_id [All, Decreased, Minimal]"

section \<open>Structures\<close>

record handshake =
  hs_protocol_version :: i32
  hs_server_address :: "u8 list"
  hs_server_port :: u16
  hs_next_state :: protocol_state

definition encode_handshake :: "handshake \<Rightarrow> u8 list" where
  "encode_handshake h = varint_bytes (hs_protocol_version h) @ encode_string (hs_server_address h)
     @ encode_u16 (hs_server_port h) @ encode_state (hs_next_state h)"

definition decode_handshake :: "handshake dec" where
  "decode_handshake =
     dec_bind decode_varint32 (\<lambda>version.
     dec_bind (decode decode_string) (\<lambda>address.
     dec_bind (decode decode_u16) (\<lambda>port.
     dec_bind (decode decode_state) (\<lambda>next_state.
     dec_ok \<lparr>hs_protocol_version = version, hs_server_address = address, hs_server_port = port, hs_next_state = next_state\<rparr>))))"

record login_start =
  ls_name :: "u8 list"
  ls_uuid :: u128

definition encode_login_start :: "login_start \<Rightarrow> u8 list" where
  "encode_login_start l = encode_string (ls_name l) @ encode_uuid (ls_uuid l)"

definition decode_login_start :: "login_start dec" where
  "decode_login_start =
     dec_bind (decode decode_string) (\<lambda>name.
     dec_bind (decode decode_uuid) (\<lambda>uuid.
     dec_ok \<lparr>ls_name = name, ls_uuid = uuid\<rparr>))"

record client_information =
  ci_locale :: "u8 list"
  ci_view_distance :: u8
  ci_chat_mode :: chat_mode
  ci_chat_colors :: bool
  ci_skin_parts :: u8
  ci_main_hand :: main_hand
  ci_text_filtering :: bool
  ci_server_listings :: bool
  ci_particle_status :: particle_status

definition encode_client_information :: "client_information \<Rightarrow> u8 list" where
  "encode_client_information c =
     encode_string (ci_locale c) @ encode_u8 (ci_view_distance c) @ varint_bytes (chat_mode_id (ci_chat_mode c))
     @ encode_bool (ci_chat_colors c) @ encode_u8 (ci_skin_parts c) @ varint_bytes (main_hand_id (ci_main_hand c))
     @ encode_bool (ci_text_filtering c) @ encode_bool (ci_server_listings c)
     @ varint_bytes (particle_status_id (ci_particle_status c))"

definition decode_client_information :: "client_information dec" where
  "decode_client_information =
     dec_bind (decode decode_string) (\<lambda>locale.
     dec_bind (decode decode_u8) (\<lambda>view_distance.
     dec_bind (decode decode_chat_mode) (\<lambda>chat_mode.
     dec_bind (decode decode_bool) (\<lambda>chat_colors.
     dec_bind (decode decode_u8) (\<lambda>skin_parts.
     dec_bind (decode decode_main_hand) (\<lambda>main_hand.
     dec_bind (decode decode_bool) (\<lambda>filtering.
     dec_bind (decode decode_bool) (\<lambda>listings.
     dec_bind (decode decode_particle_status) (\<lambda>particles.
     dec_ok \<lparr>ci_locale = locale, ci_view_distance = view_distance, ci_chat_mode = chat_mode, ci_chat_colors = chat_colors,
       ci_skin_parts = skin_parts, ci_main_hand = main_hand, ci_text_filtering = filtering, ci_server_listings = listings,
       ci_particle_status = particles\<rparr>)))))))))"

record known_pack =
  kp_namespace :: "u8 list"
  kp_id :: "u8 list"
  kp_version :: "u8 list"

definition encode_known_pack :: "known_pack \<Rightarrow> u8 list" where
  "encode_known_pack p = encode_string (kp_namespace p) @ encode_string (kp_id p) @ encode_string (kp_version p)"

definition decode_known_pack :: "known_pack dec" where
  "decode_known_pack =
     dec_bind (decode decode_string) (\<lambda>ns.
     dec_bind (decode decode_string) (\<lambda>i.
     dec_bind (decode decode_string) (\<lambda>version.
     dec_ok \<lparr>kp_namespace = ns, kp_id = i, kp_version = version\<rparr>)))"

record plugin_message =
  pm_channel :: "u8 list"
  pm_data :: "u8 list"

definition encode_plugin_message :: "plugin_message \<Rightarrow> u8 list" where
  "encode_plugin_message m = encode_string (pm_channel m) @ encode_remaining_vec_u8 (pm_data m)"

definition decode_plugin_message :: "plugin_message dec" where
  "decode_plugin_message =
     dec_bind (decode decode_string) (\<lambda>channel.
     dec_bind decode_remaining_vec_u8 (\<lambda>data.
     dec_ok \<lparr>pm_channel = channel, pm_data = data\<rparr>))"

section \<open>Packet sets\<close>

datatype handshake_packet = PHandshake handshake
datatype status_packet = StatusRequest | PingRequest i64
datatype login_packet = LoginStart login_start | LoginAcknowledged
datatype configuration_packet =
    ClientInformation client_information
  | PluginMessage plugin_message
  | FinishConfigurationAcknowledged
  | KnownPacks "known_pack list"

text \<open>\<open>u8::try_from(packet_id).ok()\<close>, and the tag in front of a packet.\<close>

definition unknown_id :: "i32 \<Rightarrow> decode_error" where
  "unknown_id i = InvalidPacketId (if 0 \<le> sint i \<and> sint i < 256 then Some (ucast i) else None)"

definition decode_tagged :: "(i32 \<Rightarrow> 'a dec option) \<Rightarrow> 'a dec" where
  "decode_tagged variants = dec_bind decode_varint32 (\<lambda>i. case variants i of Some m \<Rightarrow> m | None \<Rightarrow> dec_err (unknown_id i))"

definition decode_handshake_packet :: "handshake_packet dec" where
  "decode_handshake_packet = decode_tagged (\<lambda>i.
     if i = 0 then Some (dec_map PHandshake (decode decode_handshake)) else None)"

fun encode_handshake_packet :: "handshake_packet \<Rightarrow> u8 list" where
  "encode_handshake_packet (PHandshake h) = varint_bytes (0 :: i32) @ encode_handshake h"

definition decode_status_packet :: "status_packet dec" where
  "decode_status_packet = decode_tagged (\<lambda>i.
     if i = 0 then Some (dec_map (\<lambda>_. StatusRequest) (decode (dec_ok ())))
     else if i = 1 then Some (dec_map PingRequest (decode (dec_bind (decode decode_i64) dec_ok)))
     else None)"

fun encode_status_packet :: "status_packet \<Rightarrow> u8 list" where
  "encode_status_packet StatusRequest = varint_bytes (0 :: i32)"
| "encode_status_packet (PingRequest t) = varint_bytes (1 :: i32) @ encode_i64 t"

definition decode_login_packet :: "login_packet dec" where
  "decode_login_packet = decode_tagged (\<lambda>i.
     if i = 0 then Some (dec_map LoginStart (decode decode_login_start))
     else if i = 3 then Some (dec_map (\<lambda>_. LoginAcknowledged) (decode (dec_ok ())))
     else None)"

fun encode_login_packet :: "login_packet \<Rightarrow> u8 list" where
  "encode_login_packet (LoginStart l) = varint_bytes (0 :: i32) @ encode_login_start l"
| "encode_login_packet LoginAcknowledged = varint_bytes (3 :: i32)"

text \<open>\<open>k\<close> is \<open>size_of::<KnownPack>()\<close>.\<close>

definition decode_configuration_packet :: "nat \<Rightarrow> configuration_packet dec" where
  "decode_configuration_packet k = decode_tagged (\<lambda>i.
     if i = 0 then Some (dec_map ClientInformation (decode decode_client_information))
     else if i = 2 then Some (dec_map PluginMessage (decode decode_plugin_message))
     else if i = 3 then Some (dec_map (\<lambda>_. FinishConfigurationAcknowledged) (decode (dec_ok ())))
     else if i = 7 then Some (dec_map KnownPacks (decode (dec_bind (decode (decode_vec k decode_known_pack)) dec_ok)))
     else None)"

fun encode_configuration_packet :: "configuration_packet \<Rightarrow> u8 list" where
  "encode_configuration_packet (ClientInformation c) = varint_bytes (0 :: i32) @ encode_client_information c"
| "encode_configuration_packet (PluginMessage m) = varint_bytes (2 :: i32) @ encode_plugin_message m"
| "encode_configuration_packet FinishConfigurationAcknowledged = varint_bytes (3 :: i32)"
| "encode_configuration_packet (KnownPacks ps) = varint_bytes (7 :: i32) @ encode_vec encode_known_pack ps"

section \<open>Round trips\<close>

context codec begin

text \<open>A whole packet, from a new decoder.\<close>

lemma fresh_roundtrip:
  assumes "fits L v" and "fresh_room L (elems v) (bytes v) (Suc (levels v))"
  shows "fst (decode_exact decode_with (new_decoder (\<lambda>_. True) (encode v) L)) = Inr v"
proof -
  let ?d = "new_decoder (\<lambda>_. True) (encode v) L"
  have "decode_exact decode_with ?d = (Inr v, charged ?d (elems v) (bytes v) [])"
    using assms by (intro decode_exact_roundtrip room_fresh) (simp_all add: new_decoder_def)
  then show ?thesis by simp
qed

end

interpretation state: codec decode_state encode_state always_fits no_cost no_cost "\<lambda>_. 1"
proof (rule codecI)
  show "keeps_budget decode_state" by (auto simp: decode_state_def intro!: codec_safe u8.budget)
  fix L and v :: protocol_state
  have found: "find (\<lambda>s. state_id s = state_id v) [Handshake, Status, Login, Transfer, Configuration, Play] = Some v"
    by (cases v) simp_all
  show "delivers decode_state L (encode_state v) v 0 0 1"
    unfolding decode_state_def
    by (rule delivers_eq, rule delivers_bind, rule u8.delivers_field [of _ "state_id v"], simp, rule delivers_ok_or [OF found])
      (simp_all add: encode_state_def)
qed

lemma enum32_delivers:
  assumes "find (\<lambda>e. f e = f v) es = Some v"
  shows "delivers (decode_enum32 f es) L (varint_bytes (f v)) v 0 0 1"
  unfolding decode_enum32_def
  by (rule delivers_eq, rule delivers_bind, rule delivers_varint32 [of _ "f v"], rule delivers_ok_or [OF assms]) simp_all

lemma keeps_decode_enum32 [codec_safe]: "keeps_budget (decode_enum32 f es)"
  by (auto simp: decode_enum32_def intro!: codec_safe)

lemma chat_mode_delivers: "delivers decode_chat_mode L (varint_bytes (chat_mode_id v)) v 0 0 1"
  unfolding decode_chat_mode_def by (rule enum32_delivers) (cases v; simp)

lemma main_hand_delivers: "delivers decode_main_hand L (varint_bytes (main_hand_id v)) v 0 0 1"
  unfolding decode_main_hand_def by (rule enum32_delivers) (cases v; simp)

lemma particle_status_delivers: "delivers decode_particle_status L (varint_bytes (particle_status_id v)) v 0 0 1"
  unfolding decode_particle_status_def by (rule enum32_delivers) (cases v; simp)

lemmas small_enum_budget [codec_safe] =
  keeps_decode_enum32 [of chat_mode_id "[Enabled, CommandOnly, Hidden]", folded decode_chat_mode_def]
  keeps_decode_enum32 [of main_hand_id "[main_hand.Left, main_hand.Right]", folded decode_main_hand_def]
  keeps_decode_enum32 [of particle_status_id "[particle_status.All, Decreased, Minimal]", folded decode_particle_status_def]

definition handshake_fits :: "decode_limits \<Rightarrow> handshake \<Rightarrow> bool" where
  "handshake_fits L h \<longleftrightarrow> string_fits L (hs_server_address h)"

interpretation handshake: codec decode_handshake encode_handshake handshake_fits no_cost
    "\<lambda>h. length (hs_server_address h)" "\<lambda>_. 2"
proof (rule codecI)
  show "keeps_budget decode_handshake"
    by (auto simp: decode_handshake_def intro!: codec_safe u16.budget state.budget)
  fix L v assume "handshake_fits L v"
  then have s: "string_fits L (hs_server_address v)" by (simp add: handshake_fits_def)
  show "delivers decode_handshake L (encode_handshake v) v 0 (length (hs_server_address v)) 2"
    unfolding decode_handshake_def
    by (rule delivers_eq, rule delivers_bind, rule delivers_varint32 [of _ "hs_protocol_version v"],
        rule delivers_bind, rule string.delivers_field [OF s],
        rule delivers_bind, rule u16.delivers_field [of _ "hs_server_port v"], simp,
        rule delivers_bind, rule state.delivers_field [of _ "hs_next_state v"], simp, rule delivers_ok)
      (simp_all add: encode_handshake_def)
qed

definition login_fits :: "decode_limits \<Rightarrow> login_start \<Rightarrow> bool" where
  "login_fits L l \<longleftrightarrow> string_fits L (ls_name l)"

interpretation login_start: codec decode_login_start encode_login_start login_fits no_cost
    "\<lambda>l. length (ls_name l)" "\<lambda>_. 2"
proof (rule codecI)
  show "keeps_budget decode_login_start"
    by (auto simp: decode_login_start_def intro!: codec_safe uuid.budget)
  fix L v assume "login_fits L v"
  then have s: "string_fits L (ls_name v)" by (simp add: login_fits_def)
  show "delivers decode_login_start L (encode_login_start v) v 0 (length (ls_name v)) 2"
    unfolding decode_login_start_def
    by (rule delivers_eq, rule delivers_bind, rule string.delivers_field [OF s],
        rule delivers_bind, rule uuid.delivers_field [of _ "ls_uuid v"], simp, rule delivers_ok)
      (simp_all add: encode_login_start_def)
qed

definition information_fits :: "decode_limits \<Rightarrow> client_information \<Rightarrow> bool" where
  "information_fits L c \<longleftrightarrow> string_fits L (ci_locale c)"

interpretation client_information: codec decode_client_information encode_client_information information_fits no_cost
    "\<lambda>c. length (ci_locale c)" "\<lambda>_. 2"
proof (rule codecI)
  show "keeps_budget decode_client_information"
    by (auto simp: decode_client_information_def intro!: codec_safe u8.budget bool.budget)
  fix L v assume "information_fits L v"
  then have s: "string_fits L (ci_locale v)" by (simp add: information_fits_def)
  show "delivers decode_client_information L (encode_client_information v) v 0 (length (ci_locale v)) 2"
    unfolding decode_client_information_def
    by (rule delivers_eq, rule delivers_bind, rule string.delivers_field [OF s],
        rule delivers_bind, rule u8.delivers_field [of _ "ci_view_distance v"], simp,
        rule delivers_bind, rule delivers_decode [OF chat_mode_delivers [of _ "ci_chat_mode v"]],
        rule delivers_bind, rule bool.delivers_field [of _ "ci_chat_colors v"], simp,
        rule delivers_bind, rule u8.delivers_field [of _ "ci_skin_parts v"], simp,
        rule delivers_bind, rule delivers_decode [OF main_hand_delivers [of _ "ci_main_hand v"]],
        rule delivers_bind, rule bool.delivers_field [of _ "ci_text_filtering v"], simp,
        rule delivers_bind, rule bool.delivers_field [of _ "ci_server_listings v"], simp,
        rule delivers_bind, rule delivers_decode [OF particle_status_delivers [of _ "ci_particle_status v"]], rule delivers_ok)
      (simp_all add: encode_client_information_def)
qed

definition pack_fits :: "decode_limits \<Rightarrow> known_pack \<Rightarrow> bool" where
  "pack_fits L p \<longleftrightarrow> string_fits L (kp_namespace p) \<and> string_fits L (kp_id p) \<and> string_fits L (kp_version p)"

interpretation known_pack: codec decode_known_pack encode_known_pack pack_fits no_cost
    "\<lambda>p. length (kp_namespace p) + length (kp_id p) + length (kp_version p)" "\<lambda>_. 2"
proof (rule codecI)
  show "keeps_budget decode_known_pack" by (auto simp: decode_known_pack_def intro!: codec_safe)
  fix L v assume "pack_fits L v"
  then have s: "string_fits L (kp_namespace v)" "string_fits L (kp_id v)" "string_fits L (kp_version v)"
    by (auto simp: pack_fits_def)
  show "delivers decode_known_pack L (encode_known_pack v) v 0 (length (kp_namespace v) + length (kp_id v) + length (kp_version v)) 2"
    unfolding decode_known_pack_def
    by (rule delivers_eq, rule delivers_bind, rule string.delivers_field [OF s(1)],
        rule delivers_bind, rule string.delivers_field [OF s(2)],
        rule delivers_bind, rule string.delivers_field [OF s(3)], rule delivers_ok)
      (simp_all add: encode_known_pack_def)
qed

text \<open>A packet is its id and its fields.\<close>

lemma tagged_delivers:
  assumes "variants i = Some m" and "delivers m L bs v e b l"
  shows "delivers (decode_tagged variants) L (varint_bytes i @ bs) v e b (max 1 l)"
  unfolding decode_tagged_def
  by (rule delivers_eq, rule delivers_bind, rule delivers_varint32 [of _ i], simp only: assms(1) option.case, rule assms(2)) simp_all

lemma empty_delivers: "delivers (dec_map f (decode (dec_ok ()))) L [] (f ()) 0 0 1"
  using delivers_map [OF delivers_decode [OF delivers_ok [of "()"]]] by simp

lemma keeps_decode_tagged:
  assumes "\<And>i m. variants i = Some m \<Longrightarrow> keeps_budget m"
  shows "keeps_budget (decode_tagged variants)"
  unfolding decode_tagged_def using assms by (auto intro!: codec_safe split: option.split)

fun handshake_packet_fits :: "decode_limits \<Rightarrow> handshake_packet \<Rightarrow> bool" where
  "handshake_packet_fits L (PHandshake h) = handshake_fits L h"

fun handshake_packet_bytes :: "handshake_packet \<Rightarrow> nat" where
  "handshake_packet_bytes (PHandshake h) = length (hs_server_address h)"

interpretation handshake_packet: codec decode_handshake_packet encode_handshake_packet handshake_packet_fits no_cost
    handshake_packet_bytes "\<lambda>_. 3"
proof (rule codecI)
  show "keeps_budget decode_handshake_packet"
    by (auto simp: decode_handshake_packet_def intro!: keeps_decode_tagged codec_safe handshake.budget split: if_splits)
  fix L v assume v: "handshake_packet_fits L v"
  obtain h where h: "v = PHandshake h" by (cases v)
  have "delivers (dec_map PHandshake (decode decode_handshake)) L (encode_handshake h) (PHandshake h) 0 (length (hs_server_address h)) 3"
    using delivers_map [OF handshake.delivers_field [of L h]] v h by simp
  from tagged_delivers [where i = 0 and variants = "\<lambda>i. if i = 0 then Some (dec_map PHandshake (decode decode_handshake)) else None", OF _ this]
  show "delivers decode_handshake_packet L (encode_handshake_packet v) v 0 (handshake_packet_bytes v) 3"
    by (simp add: h decode_handshake_packet_def)
qed

interpretation status_packet: codec decode_status_packet encode_status_packet always_fits no_cost no_cost "\<lambda>_. 2"
proof (rule codecI)
  show "keeps_budget decode_status_packet"
    by (auto simp: decode_status_packet_def intro!: keeps_decode_tagged codec_safe i64.budget split: if_splits)
  fix L and v :: status_packet
  show "delivers decode_status_packet L (encode_status_packet v) v 0 0 2"
  proof (cases v)
    case StatusRequest
    show ?thesis
      unfolding StatusRequest decode_status_packet_def encode_status_packet.simps
      by (rule delivers_eq, rule tagged_delivers [where i = 0, OF _ empty_delivers]) simp_all
  next
    case (PingRequest t)
    have "delivers (dec_map PingRequest (decode (dec_bind (decode decode_i64) dec_ok))) L (encode_i64 t) (PingRequest t) 0 0 2"
      by (rule delivers_eq, rule delivers_map, rule delivers_decode, rule delivers_bind, rule i64.delivers_field [of _ t], simp,
          rule delivers_ok) simp_all
    from tagged_delivers [where i = 1, OF _ this] show ?thesis
      unfolding PingRequest decode_status_packet_def encode_status_packet.simps
      by (rule delivers_eq) simp_all
  qed
qed

fun login_packet_fits :: "decode_limits \<Rightarrow> login_packet \<Rightarrow> bool" where
  "login_packet_fits L (LoginStart l) = login_fits L l"
| "login_packet_fits L LoginAcknowledged = True"

fun login_packet_bytes :: "login_packet \<Rightarrow> nat" where
  "login_packet_bytes (LoginStart l) = length (ls_name l)"
| "login_packet_bytes LoginAcknowledged = 0"

interpretation login_packet: codec decode_login_packet encode_login_packet login_packet_fits no_cost login_packet_bytes "\<lambda>_. 3"
proof (rule codecI)
  show "keeps_budget decode_login_packet"
    by (auto simp: decode_login_packet_def intro!: keeps_decode_tagged codec_safe login_start.budget split: if_splits)
  fix L and v assume v: "login_packet_fits L v"
  show "delivers decode_login_packet L (encode_login_packet v) v 0 (login_packet_bytes v) 3"
  proof (cases v)
    case (LoginStart l)
    have "delivers (dec_map LoginStart (decode decode_login_start)) L (encode_login_start l) (LoginStart l) 0 (length (ls_name l)) 3"
      using delivers_map [OF login_start.delivers_field [of L l]] v LoginStart by simp
    from tagged_delivers [where i = 0, OF _ this] show ?thesis
      unfolding LoginStart decode_login_packet_def encode_login_packet.simps
      by (rule delivers_eq) simp_all
  next
    case LoginAcknowledged
    show ?thesis
      unfolding LoginAcknowledged decode_login_packet_def encode_login_packet.simps
      by (rule delivers_eq, rule tagged_delivers [where i = 3, OF _ empty_delivers]) simp_all
  qed
qed

text \<open>A plugin message takes the rest of its packet and is not a codec in the sense used here.\<close>

fun configuration_fits :: "decode_limits \<Rightarrow> configuration_packet \<Rightarrow> bool" where
  "configuration_fits L (ClientInformation c) = information_fits L c"
| "configuration_fits L (PluginMessage m) = False"
| "configuration_fits L FinishConfigurationAcknowledged = True"
| "configuration_fits L (KnownPacks ps) = vec_fits pack_fits L ps"

abbreviation pack_bytes :: "known_pack \<Rightarrow> nat" where
  "pack_bytes p \<equiv> length (kp_namespace p) + length (kp_id p) + length (kp_version p)"

fun configuration_elems :: "configuration_packet \<Rightarrow> nat" where
  "configuration_elems (KnownPacks ps) = length ps"
| "configuration_elems p = 0"

fun configuration_bytes :: "nat \<Rightarrow> configuration_packet \<Rightarrow> nat" where
  "configuration_bytes k (ClientInformation c) = length (ci_locale c)"
| "configuration_bytes k (KnownPacks ps) = vec_bytes k pack_bytes ps"
| "configuration_bytes k p = 0"

lemma vec_levels_two: "vec_levels (\<lambda>_. 2) xs \<le> 3"
  by (induction xs) (auto simp: vec_levels_def)

interpretation configuration_packet: codec "decode_configuration_packet k" encode_configuration_packet configuration_fits
    configuration_elems "configuration_bytes k" "\<lambda>_. 5" for k
proof (rule codecI)
  show "keeps_budget (decode_configuration_packet k)"
    by (auto simp: decode_configuration_packet_def decode_plugin_message_def intro!: keeps_decode_tagged codec_safe
        client_information.budget known_pack.budget split: if_splits)
  fix L and v assume v: "configuration_fits L v"
  show "delivers (decode_configuration_packet k) L (encode_configuration_packet v) v (configuration_elems v) (configuration_bytes k v) 5"
  proof (cases v)
    case (ClientInformation c)
    have "delivers (dec_map ClientInformation (decode decode_client_information)) L (encode_client_information c)
        (ClientInformation c) 0 (length (ci_locale c)) 3"
      using delivers_map [OF client_information.delivers_field [of L c]] v ClientInformation by simp
    from tagged_delivers [where i = 0, OF _ this] show ?thesis
      unfolding ClientInformation decode_configuration_packet_def encode_configuration_packet.simps
      by (rule delivers_eq) simp_all
  next
    case FinishConfigurationAcknowledged
    show ?thesis
      unfolding FinishConfigurationAcknowledged decode_configuration_packet_def encode_configuration_packet.simps
      by (rule delivers_eq, rule tagged_delivers [where i = 3, OF _ empty_delivers]) simp_all
  next
    case (KnownPacks ps)
    then have fits: "vec_fits pack_fits L ps" using v by simp
    have "delivers (dec_map KnownPacks (decode (dec_bind (decode (decode_vec k decode_known_pack)) dec_ok))) L
        (encode_vec encode_known_pack ps) (KnownPacks ps) (length ps) (vec_bytes k pack_bytes ps) 5"
      by (rule delivers_eq, rule delivers_map, rule delivers_decode, rule delivers_bind,
          rule codec.delivers_field [OF known_pack.vec_codec fits], rule delivers_ok)
        (use vec_levels_two [of ps] in \<open>simp_all add: vec_elems_def\<close>)
    from tagged_delivers [where i = 7, OF _ this] show ?thesis
      unfolding KnownPacks decode_configuration_packet_def encode_configuration_packet.simps
      by (rule delivers_eq) simp_all
  qed (use v in simp)
qed


text \<open>A step that takes whatever is left of the packet: the contract of \<open>delivers\<close> without bytes behind.\<close>

definition delivers_last :: "'a dec \<Rightarrow> decode_limits \<Rightarrow> u8 list \<Rightarrow> 'a \<Rightarrow> nat \<Rightarrow> nat \<Rightarrow> nat \<Rightarrow> bool" where
  "delivers_last m L bs v e b l \<longleftrightarrow>
     (\<forall>d. limits d = L \<longrightarrow> room d e b l \<longrightarrow> remaining d = bs \<longrightarrow> m d = (Inr v, charged d e b []))"

lemma delivers_last_bind:
  assumes "delivers m L bs v e b l" and "delivers_last (f v) L bs' w e' b' l'"
  shows "delivers_last (dec_bind m f) L (bs @ bs') w (e + e') (b + b') (max l l')"
  unfolding delivers_last_def
proof (intro allI impI)
  fix d
  assume d: "limits d = L" "room d (e + e') (b + b') (max l l')" "remaining d = bs @ bs'"
  have "m d = (Inr v, charged d e b bs')"
    using assms(1) d by (intro deliversD [of m d bs v e b l]) (auto elim: room_mono)
  moreover have "f v (charged d e b bs') = (Inr w, charged (charged d e b bs') e' b' [])"
  proof -
    have "room (charged d e b bs') e' b' l'" using d(2) by (auto elim: room_mono)
    then show ?thesis using assms(2) d(1) unfolding delivers_last_def by simp
  qed
  ultimately show "dec_bind m f d = (Inr w, charged d (e + e') (b + b') [])"
    by (simp add: dec_bind_def)
qed

lemma delivers_last_then_ok:
  assumes "delivers_last m L bs v e b l"
  shows "delivers_last (dec_bind m (\<lambda>x. dec_ok (g x))) L bs (g v) e b l"
  using assms by (simp add: delivers_last_def dec_bind_def dec_ok_def)

lemma delivers_last_decode:
  assumes "delivers_last m L bs v e b l"
  shows "delivers_last (decode m) L bs v e b (Suc l)"
  unfolding delivers_last_def
proof (intro allI impI)
  fix d
  assume d: "limits d = L" "room d e b (Suc l)" "remaining d = bs"
  let ?d = "d\<lparr>depth := depth d + 1\<rparr>"
  have "m ?d = (Inr v, charged ?d e b [])"
    using assms d by (simp add: delivers_last_def room_def)
  moreover have "depth d < max_decode_depth (limits d)" using d(2) by (simp add: room_def)
  ultimately show "decode m d = (Inr v, charged d e b [])"
    by (simp add: decode_def charged_def)
qed

lemma remaining_delivers:
  assumes "length bs \<le> max_remaining_bytes L"
  shows "delivers_last decode_remaining_vec_u8 L bs bs 0 (length bs) 0"
  unfolding delivers_last_def decode_remaining_vec_u8_def
  using assms by (auto simp: dec_bind_def dec_get_def charge_allocation_ok take_bytes_def charged_def)

definition message_fits :: "decode_limits \<Rightarrow> plugin_message \<Rightarrow> bool" where
  "message_fits L m \<longleftrightarrow> string_fits L (pm_channel m) \<and> length (pm_data m) \<le> max_remaining_bytes L"

lemma delivers_last_eq:
  assumes "delivers_last m L bs v e b l" and "bs = bs'" "v = v'" "e = e'" "b = b'" "l \<le> l'"
  shows "delivers_last m L bs' v' e' b' l'"
  using assms room_mono [of _ e b l' e b l] by (simp add: delivers_last_def)

lemma tagged_last:
  assumes "variants i = Some m" and "delivers_last m L bs v e b l"
  shows "delivers_last (decode_tagged variants) L (varint_bytes i @ bs) v e b (max 1 l)"
  unfolding decode_tagged_def
  by (rule delivers_last_eq, rule delivers_last_bind, rule delivers_varint32 [of _ i], simp only: assms(1) option.case,
      rule assms(2)) simp_all

lemma plugin_message_delivers:
  assumes "message_fits L m"
  shows "delivers_last (decode_configuration_packet k) L (encode_configuration_packet (PluginMessage m)) (PluginMessage m)
    0 (length (pm_channel m) + length (pm_data m)) 3"
proof -
  have s: "string_fits L (pm_channel m)" and r: "length (pm_data m) \<le> max_remaining_bytes L"
    using assms by (simp_all add: message_fits_def)
  have "delivers_last decode_plugin_message L (encode_plugin_message m) m 0 (length (pm_channel m) + length (pm_data m)) 2"
    unfolding decode_plugin_message_def
    by (rule delivers_last_eq, rule delivers_last_bind, rule string.delivers_field [OF s],
        rule delivers_last_then_ok, rule remaining_delivers [OF r])
      (simp_all add: encode_plugin_message_def encode_remaining_vec_u8_def)
  then have "delivers_last (dec_map PluginMessage (decode decode_plugin_message)) L (encode_plugin_message m) (PluginMessage m)
      0 (length (pm_channel m) + length (pm_data m)) 3"
    unfolding dec_map_def
    by - (rule delivers_last_eq, rule delivers_last_then_ok, rule delivers_last_decode, assumption, simp_all)
  from tagged_last [where i = 2, OF _ this] show ?thesis
    unfolding decode_configuration_packet_def encode_configuration_packet.simps
    by (rule delivers_last_eq) simp_all
qed

lemma decode_exact_last:
  assumes "delivers_last m L bs v e b l" and "fresh_room L e b (Suc l)"
  shows "fst (decode_exact m (new_decoder (\<lambda>_. True) bs L)) = Inr v"
  using delivers_last_decode [OF assms(1)] room_fresh [OF assms(2), of bs]
  by (simp add: delivers_last_def decode_exact_def dec_bind_def dec_get_def dec_ok_def new_decoder_def)

text \<open>C23: A handshake, status, login or configuration packet within the limits of the decoder reads back as it was
  written, with every byte used, whichever packet of its set it is.\<close>

theorem connection_packets_roundtrip:
  "(handshake_packet_fits L h \<longrightarrow> fresh_room L 0 (handshake_packet_bytes h) 4 \<longrightarrow>
      packet_decode (\<lambda>_. True) decode_handshake_packet \<lparr>packet_bytes = encode_handshake_packet h, packet_limits = L\<rparr> = Inr h) \<and>
   (fresh_room L 0 0 3 \<longrightarrow>
      packet_decode (\<lambda>_. True) decode_status_packet \<lparr>packet_bytes = encode_status_packet st, packet_limits = L\<rparr> = Inr st) \<and>
   (login_packet_fits L l \<longrightarrow> fresh_room L 0 (login_packet_bytes l) 4 \<longrightarrow>
      packet_decode (\<lambda>_. True) decode_login_packet \<lparr>packet_bytes = encode_login_packet l, packet_limits = L\<rparr> = Inr l) \<and>
   (message_fits L msg \<longrightarrow> fresh_room L 0 (length (pm_channel msg) + length (pm_data msg)) 4 \<longrightarrow>
      packet_decode (\<lambda>_. True) (decode_configuration_packet k)
        \<lparr>packet_bytes = encode_configuration_packet (PluginMessage msg), packet_limits = L\<rparr> = Inr (PluginMessage msg)) \<and>
   (configuration_fits L c \<longrightarrow> fresh_room L (configuration_elems c) (configuration_bytes k c) 6 \<longrightarrow>
      packet_decode (\<lambda>_. True) (decode_configuration_packet k)
        \<lparr>packet_bytes = encode_configuration_packet c, packet_limits = L\<rparr> = Inr c)"
proof -
  have packet: "packet_decode (\<lambda>_. True) dec \<lparr>packet_bytes = bs, packet_limits = L\<rparr> = Inr v"
    if "fst (decode_exact dec (new_decoder (\<lambda>_. True) bs L)) = Inr v" for dec :: "'x dec" and bs v
    using that by (simp add: packet_decode_def)
  have plugin: "fst (decode_exact (decode_configuration_packet k)
      (new_decoder (\<lambda>_. True) (encode_configuration_packet (PluginMessage msg)) L)) = Inr (PluginMessage msg)"
    if "message_fits L msg" "fresh_room L 0 (length (pm_channel msg) + length (pm_data msg)) 4"
    using decode_exact_last [OF plugin_message_delivers [OF that(1)]] that(2) by simp
  show ?thesis
    using plugin handshake_packet.fresh_roundtrip [of L h] status_packet.fresh_roundtrip [of L st]
      login_packet.fresh_roundtrip [of L l] configuration_packet.fresh_roundtrip [of L c k]
    by (intro conjI impI; intro packet) simp_all
qed

lemma connection_packets_roundtrip_witness:
  "packet_decode (\<lambda>_. True) decode_handshake_packet
     \<lparr>packet_bytes = encode_handshake_packet (PHandshake \<lparr>hs_protocol_version = 775, hs_server_address = [0x76, 0x6D],
        hs_server_port = 25565, hs_next_state = Login\<rparr>), packet_limits = default_limits\<rparr>
   = Inr (PHandshake \<lparr>hs_protocol_version = 775, hs_server_address = [0x76, 0x6D], hs_server_port = 25565, hs_next_state = Login\<rparr>)"
  by (rule connection_packets_roundtrip [THEN conjunct1, rule_format])
    (simp_all add: handshake_fits_def string_fits_def fresh_room_def)

end
