(* ===== verification/Joining.thy ===== *)
theory Joining
  imports Connection_Packets Region_Store Inventory
begin

text \<open>
  What the server does with the packets of one connection until it plays (\<open>void/src/plugins/\<close>, \<open>handshake.rs\<close>,
  \<open>login.rs\<close>, \<open>configuration.rs\<close>, \<open>status.rs\<close>, \<open>play.rs\<close>; \<open>systems/keep_alive.rs\<close>; \<open>server_status.rs\<close>):
  the components a handler inserts into the entity of the client, and the packets it sends, in order.
  Floating-point numbers are their bits; the spawn point, the chunk packets and the command tree of the
  moment are arguments.
\<close>

section \<open>Outgoing packets\<close>

definition ascii :: "string \<Rightarrow> u8 list" where
  "ascii s = map of_char s"

record 'd registry_entry =
  re_id :: "u8 list"
  re_data :: "'d option"

record 'd registry_data =
  rd_id :: "u8 list"
  rd_entries :: "'d registry_entry list"

record tag_entry =
  te_id :: "u8 list"
  te_entries :: "i32 list"

record registry_tags =
  rt_registry :: "u8 list"
  rt_tags :: "tag_entry list"

record server_status =
  st_version :: "u8 list"
  st_protocol :: i32
  st_max :: i32
  st_online :: i32
  st_sample :: "(u8 list \<times> u8 list) list"
  st_description :: "u8 list"
  st_favicon :: "u8 list"
  st_enforces_secure_chat :: bool

record join_login =
  jl_entity_id :: i32
  jl_hardcore :: bool
  jl_dimension_names :: "u8 list list"
  jl_max_players :: i32
  jl_view_distance :: i32
  jl_simulation_distance :: i32
  jl_reduced_debug_info :: bool
  jl_respawn_screen :: bool
  jl_limited_crafting :: bool
  jl_dimension_type :: i32
  jl_dimension_name :: "u8 list"
  jl_hashed_seed :: i64
  jl_game_mode :: u8
  jl_previous_game_mode :: i8
  jl_debug :: bool
  jl_flat :: bool
  jl_death_location :: "(u8 list \<times> i64) option"
  jl_portal_cooldown :: i32
  jl_sea_level :: i32
  jl_secure_chat :: bool

datatype game_event_type = StartWaitingForLevelChunks

text \<open>
  The packets of this part of the server. \<open>'d\<close> is the data of those whose content other parts make: the
  entries of registries, chunks, the command tree, and every other packet.
\<close>

datatype 'd clientbound =
    PingResponse i64
  | StatusResponse server_status
  | LoginSuccess u128 "u8 list"
  | SelectKnownPacks "known_pack list"
  | RegistryData "'d registry_data"
  | UpdateTags "registry_tags list"
  | FinishConfiguration
  | JoinLogin join_login
  | Commands 'd
  | GameEvent game_event_type u32
  | SetCenterChunk chunk_pos
  | ChunkPacket chunk_pos 'd
  | SynchronizePlayerPosition i32 "u64 \<times> u64 \<times> u64" "u64 \<times> u64 \<times> u64" u32 u32 u32
  | KeepAliveRequest i64
  | OtherPacket 'd

section \<open>The components of a client\<close>

record keep_alive_state =
  ka_last_sent_id :: i64
  ka_awaiting_response :: bool
  ka_latency :: i32

definition default_keep_alive :: keep_alive_state where
  "default_keep_alive = \<lparr>ka_last_sent_id = 0, ka_awaiting_response = False, ka_latency = 0\<rparr>"

text \<open>The components that joining the world inserts.\<close>

record 'n avatar =
  av_entity_id :: i32
  av_position :: "u64 \<times> u64 \<times> u64"
  av_previous_position :: "u64 \<times> u64 \<times> u64"
  av_rotation :: "u32 \<times> u32"
  av_next_teleport :: i32
  av_pending_teleport :: "i32 option"
  av_chunk :: chunk_pos
  av_view_distance :: i32
  av_loaded_chunks :: "chunk_pos list"
  av_dimension :: dimension
  av_inventory :: "'n inventory"

record 'n net_client =
  cl_id :: u32
  cl_state :: protocol_state
  cl_version :: "i32 option"
  cl_player :: "(u8 list \<times> u128) option"
  cl_settings :: "(u8 list \<times> u8) option"
  cl_keep_alive :: "keep_alive_state option"
  cl_avatar :: "'n avatar option"
  cl_ready :: bool

text \<open>The components \<open>client_entity\<close> spawns a client with.\<close>

definition new_client :: "u32 \<Rightarrow> 'n net_client" where
  "new_client c = \<lparr>cl_id = c, cl_state = Handshake, cl_version = None, cl_player = None, cl_settings = None,
     cl_keep_alive = None, cl_avatar = None, cl_ready = False\<rparr>"

section \<open>Handshake, status and login\<close>

definition handle_handshake :: "handshake \<Rightarrow> 'n net_client \<Rightarrow> 'n net_client" where
  "handle_handshake h c = c\<lparr>cl_version := Some (hs_protocol_version h), cl_state := hs_next_state h\<rparr>"

definition player_count :: "nat \<Rightarrow> i32" where
  "player_count n = (if n < 2 ^ 31 then of_nat n else 0x7FFFFFFF)"

definition MINECRAFT_VERSION :: "u8 list" where
  "MINECRAFT_VERSION = ascii ''26.1.2''"

definition PROTOCOL_VERSION :: i32 where
  "PROTOCOL_VERSION = 775"

definition status_of :: "i32 \<Rightarrow> i32 \<Rightarrow> u8 list \<Rightarrow> server_status" where
  "status_of max_players online motd = \<lparr>st_version = MINECRAFT_VERSION, st_protocol = PROTOCOL_VERSION, st_max = max_players,
     st_online = online, st_sample = [], st_description = motd, st_favicon = [], st_enforces_secure_chat = False\<rparr>"

definition handle_ping :: "i64 \<Rightarrow> 'd clientbound list" where
  "handle_ping timestamp = [PingResponse timestamp]"

definition handle_status_request :: "i32 \<Rightarrow> nat \<Rightarrow> u8 list \<Rightarrow> 'd clientbound list" where
  "handle_status_request max_players ready motd = [StatusResponse (status_of max_players (player_count ready) motd)]"

definition handle_login_start :: "login_start \<Rightarrow> 'n net_client \<Rightarrow> 'n net_client \<times> 'd clientbound list" where
  "handle_login_start l c =
     (c\<lparr>cl_player := Some (ls_name l, ls_uuid l)\<rparr>, [LoginSuccess (ls_uuid l) (ls_name l)])"

definition handle_login_acknowledged :: "'n net_client \<Rightarrow> 'n net_client \<times> 'd clientbound list" where
  "handle_login_acknowledged c =
     (c\<lparr>cl_state := Configuration\<rparr>,
      [SelectKnownPacks [\<lparr>kp_namespace = ascii ''minecraft'', kp_id = ascii ''core'', kp_version = MINECRAFT_VERSION\<rparr>]])"

section \<open>Configuration\<close>

definition handle_client_information :: "client_information \<Rightarrow> 'n net_client \<Rightarrow> 'n net_client" where
  "handle_client_information ci c = c\<lparr>cl_settings := Some (ci_locale ci, ci_view_distance ci)\<rparr>"

definition get_registry :: "'d registry_data list \<Rightarrow> u8 list \<Rightarrow> 'd registry_data option" where
  "get_registry rs i = find (\<lambda>r. rd_id r = i) rs"

text \<open>The indices of the entries a tag names, in the order of the tag; names the registry lacks are skipped.\<close>

fun tag_indices :: "'d registry_entry list \<Rightarrow> u8 list list \<Rightarrow> i32 list" where
  "tag_indices es [] = []"
| "tag_indices es (i # is) =
     (case position (\<lambda>e. re_id e = i) es of
        Some n \<Rightarrow> of_nat n # tag_indices es is
      | None \<Rightarrow> tag_indices es is)"

text \<open>\<open>tagged\<close> is \<open>voidmc_data::tagged_registries\<close>: per registry, its tags and the entries of each.\<close>

fun build_update_tags :: "'d registry_data list \<Rightarrow> (u8 list \<times> (u8 list \<times> u8 list list) list) list \<Rightarrow> registry_tags list" where
  "build_update_tags rs [] = []"
| "build_update_tags rs ((registry_id, tags) # tagged) =
     (case get_registry rs registry_id of
        None \<Rightarrow> build_update_tags rs tagged
      | Some r \<Rightarrow>
          \<lparr>rt_registry = registry_id,
           rt_tags = map (\<lambda>(tag_id, entry_ids). \<lparr>te_id = tag_id, te_entries = tag_indices (rd_entries r) entry_ids\<rparr>) tags\<rparr>
          # build_update_tags rs tagged)"

definition handle_known_packs ::
  "'d registry_data list \<Rightarrow> (u8 list \<times> (u8 list \<times> u8 list list) list) list \<Rightarrow> 'd clientbound list" where
  "handle_known_packs rs tagged = map RegistryData rs @ [UpdateTags (build_update_tags rs tagged), FinishConfiguration]"

section \<open>Joining the world\<close>

definition chunk_offsets :: "i32 \<Rightarrow> (int \<times> int) list" where
  "chunk_offsets radius =
     concat (map (\<lambda>dx. map (\<lambda>dz. (dx, dz)) [- sint radius .. sint radius]) [- sint radius .. sint radius])"

definition chunks_in_radius :: "chunk_pos \<Rightarrow> i32 \<Rightarrow> chunk_pos list" where
  "chunks_in_radius p radius =
     sort_key (\<lambda>c. let dx = cp_x c - cp_x p; dz = cp_z c - cp_z p in sint (dx * dx + dz * dz))
       (map (\<lambda>(dx, dz). \<lparr>cp_x = cp_x p + word_of_int dx, cp_z = cp_z p + word_of_int dz\<rparr>) (chunk_offsets radius))"

definition send_teleport :: "u64 \<times> u64 \<times> u64 \<Rightarrow> 'd clientbound" where
  "send_teleport p = SynchronizePlayerPosition 0 p (0, 0, 0) 0 0 0"

text \<open>The loop over the chunks around the spawn point: packets, chunks sent, and whether the teleport went out.\<close>

fun send_initial_chunks ::
  "(chunk_pos \<Rightarrow> 'd option) \<Rightarrow> u64 \<times> u64 \<times> u64 \<Rightarrow> chunk_pos list \<Rightarrow> chunk_pos list \<Rightarrow> bool
   \<Rightarrow> 'd clientbound list \<times> chunk_pos list \<times> bool" where
  "send_initial_chunks chunk spawn [] loaded teleport_sent = ([], loaded, teleport_sent)"
| "send_initial_chunks chunk spawn (p # ps) loaded teleport_sent =
     (let (sent, loaded') = (case chunk p of
            Some d \<Rightarrow> ([ChunkPacket p d], List.insert p loaded)
          | None \<Rightarrow> ([], loaded));
          now = (\<not> teleport_sent \<and> 9 \<le> length loaded');
          (rest, loaded'', done) = send_initial_chunks chunk spawn ps loaded' (teleport_sent \<or> now)
      in (sent @ (if now then [send_teleport spawn] else []) @ rest, loaded'', done))"

text \<open>The settings of the server that joining reads.\<close>

record server_config =
  sc_hardcore :: bool
  sc_max_players :: i32
  sc_motd :: "u8 list"
  sc_view_distance :: i32
  sc_simulation_distance :: i32
  sc_game_mode :: u8
  sc_initial_chunk_radius :: i32
  sc_max_packets_per_tick :: nat
  sc_packet_ingest_budget_ms :: u64

definition make_join_login :: "server_config \<Rightarrow> i32 \<Rightarrow> join_login" where
  "make_join_login cfg entity_id = \<lparr>
     jl_entity_id = entity_id,
     jl_hardcore = sc_hardcore cfg,
     jl_dimension_names = map ascii [''minecraft:overworld'', ''minecraft:the_nether'', ''minecraft:the_end''],
     jl_max_players = sc_max_players cfg,
     jl_view_distance = sc_view_distance cfg,
     jl_simulation_distance = sc_simulation_distance cfg,
     jl_reduced_debug_info = False,
     jl_respawn_screen = True,
     jl_limited_crafting = False,
     jl_dimension_type = 0,
     jl_dimension_name = ascii ''minecraft:overworld'',
     jl_hashed_seed = 0,
     jl_game_mode = sc_game_mode cfg,
     jl_previous_game_mode = -1,
     jl_debug = False,
     jl_flat = False,
     jl_death_location = None,
     jl_portal_cooldown = 0,
     jl_sea_level = 63,
     jl_secure_chat = False\<rparr>"

definition handle_finish_configuration ::
  "server_config \<Rightarrow> 'd \<Rightarrow> (chunk_pos \<Rightarrow> 'd option) \<Rightarrow> u64 \<times> u64 \<times> u64 \<Rightarrow> chunk_pos \<Rightarrow> i32 \<Rightarrow> 'n net_client
   \<Rightarrow> 'n net_client \<times> 'd clientbound list" where
  "handle_finish_configuration cfg command_tree chunk spawn spawn_chunk entity_id c =
     (let (chunks, loaded, teleport_sent) =
            send_initial_chunks chunk spawn (chunks_in_radius spawn_chunk (sc_initial_chunk_radius cfg)) [] False;
          avatar = \<lparr>av_entity_id = entity_id, av_position = spawn, av_previous_position = spawn, av_rotation = (0, 0),
            av_next_teleport = 1, av_pending_teleport = Some 0, av_chunk = spawn_chunk,
            av_view_distance = sc_initial_chunk_radius cfg, av_loaded_chunks = loaded, av_dimension = Overworld,
            av_inventory = new_inventory\<rparr>
      in (c\<lparr>cl_state := Play, cl_keep_alive := Some default_keep_alive, cl_avatar := Some avatar\<rparr>,
          [JoinLogin (make_join_login cfg entity_id), Commands command_tree, GameEvent StartWaitingForLevelChunks 0,
           SetCenterChunk spawn_chunk] @ chunks @ (if teleport_sent then [] else [send_teleport spawn])))"

section \<open>Playing\<close>

definition handle_player_loaded :: "'n net_client \<Rightarrow> 'n net_client" where
  "handle_player_loaded c = c\<lparr>cl_ready := True\<rparr>"

definition round_trip_millis :: "i64 \<Rightarrow> i64 \<Rightarrow> i32" where
  "round_trip_millis now sent_at = word_of_int (min (max (sint (now - sent_at)) 0) 0x7FFFFFFF)"

definition handle_keep_alive :: "i64 \<Rightarrow> i64 \<Rightarrow> 'n net_client \<Rightarrow> 'n net_client" where
  "handle_keep_alive now keep_alive_id c =
     (case cl_keep_alive c of
        None \<Rightarrow> c
      | Some k \<Rightarrow>
          if ka_awaiting_response k \<and> ka_last_sent_id k = keep_alive_id
          then c\<lparr>cl_keep_alive := Some (k\<lparr>ka_awaiting_response := False,
                 ka_latency := round_trip_millis now (ka_last_sent_id k)\<rparr>)\<rparr>
          else c)"

text \<open>One client of the loop of \<open>send_keep_alive\<close>: a client that has not answered yet is skipped.\<close>

definition keep_alive_one :: "i64 \<Rightarrow> 'n net_client \<Rightarrow> 'n net_client \<times> 'd clientbound list" where
  "keep_alive_one now c =
     (case cl_keep_alive c of
        Some k \<Rightarrow>
          if \<not> cl_ready c \<or> ka_awaiting_response k then (c, [])
          else (c\<lparr>cl_keep_alive := Some (k\<lparr>ka_last_sent_id := now, ka_awaiting_response := True\<rparr>)\<rparr>, [KeepAliveRequest now])
      | None \<Rightarrow> (c, []))"

end
