(* ===== verification/Connections.thy ===== *)
theory Connections
  imports Joining
begin

text \<open>
  Connections between the tokio tasks and the game thread (\<open>void/src/network.rs\<close>, \<open>server.rs\<close>, \<open>client.rs\<close>,
  \<open>Outbox\<close> of \<open>players.rs\<close>, \<open>server_status.rs\<close>). The threads share only channels, so a run is an interleaving of
  \<open>action\<close>s: the accept loop, the task of each client and the game thread each do one at a time. An action that
  cannot happen in a state is \<open>None\<close>. A channel is the list of what is in it, oldest first.
\<close>

section \<open>State\<close>

definition OUTBOUND_QUEUE_CAPACITY :: nat where
  "OUTBOUND_QUEUE_CAPACITY = 16 * 1024"

record client_sender =
  snd_outgoing :: u32  \<comment> \<open>the queue it sends into, named by the client the queue was made for\<close>
  snd_kicked :: bool

record 'd out_queue =
  q_items :: "'d clientbound list"
  q_open :: bool       \<comment> \<open>the client task still holds the receiver\<close>

text \<open>\<open>StatusFastPath\<close>: server-list connections are answered by their own task.\<close>

datatype fast_path = FastHandshake | FastStatus | FastDisabled

record 'd task =
  t_fast_path :: fast_path
  t_status :: "'d clientbound list"
  t_aborted :: bool
  t_finished :: bool

datatype game_event = PlayerJoin u32 nat | PlayerReady u32 nat | PlayerQuit u32 nat

text \<open>Where the game thread stands in \<open>ingest_network_packets\<close>; \<open>Idle\<close> is the rest of the tick.\<close>

datatype phase =
    Idle
  | Synced
  | Processing "(u32 \<times> packet) list"
  | Drained "u32 list"
  | Handling "u32 list"

record ('d, 'n) system =
  n_next_id :: u32
  n_connections :: "u32 set"
  n_tasks :: "u32 \<rightharpoonup> 'd task"
  n_ended :: "u32 list"
  ch_connected :: "(u32 \<times> u32) list"
  ch_incoming :: "(u32 \<times> packet) list"
  ch_disconnect :: "u32 list"
  ch_kick :: "u32 list"
  ch_fallback :: "(u32 \<times> 'd clientbound) list"
  queues :: "u32 \<rightharpoonup> 'd out_queue"
  g_phase :: phase
  g_sends :: "(nat \<times> 'd clientbound) list"  \<comment> \<open>what the running system or observer still has to send\<close>
  g_pending :: "u32 \<rightharpoonup> u32"
  g_active :: "nat \<rightharpoonup> client_sender"
  g_map :: "u32 \<rightharpoonup> nat"
  g_clients :: "nat \<rightharpoonup> 'n net_client"
  g_next_entity :: nat
  g_next_minecraft_id :: i32
  g_registries_sent :: bool
  g_ticks_since_last :: u32   \<comment> \<open>the keep-alive ticker\<close>
  g_events :: "game_event list"

text \<open>What does not change while the server runs, and the parts that other components supply.\<close>

record ('d, 'q) env =
  env_memory :: "nat \<Rightarrow> bool"
  env_pack_size :: nat
  env_config :: server_config
  env_registries :: "'d registry_data list"
  env_tagged :: "(u8 list \<times> (u8 list \<times> u8 list list) list) list"
  env_command_tree :: 'd
  env_spawn :: "u64 \<times> u64 \<times> u64"
  env_spawn_chunk :: chunk_pos
  env_decode_other :: "i32 \<Rightarrow> 'q dec option"
  env_handle_other :: "'q \<Rightarrow> nat \<Rightarrow> (nat \<times> 'd clientbound) list"

text \<open>What a packet is handled with: the clock, and the packets of the overworld chunks that are loaded.\<close>

record 'd moment =
  m_now :: i64
  m_chunk :: "chunk_pos \<Rightarrow> 'd option"

definition start :: "('d, 'n) system" where
  "start = \<lparr>n_next_id = 1, n_connections = {}, n_tasks = Map.empty, n_ended = [], ch_connected = [], ch_incoming = [],
     ch_disconnect = [], ch_kick = [], ch_fallback = [], queues = Map.empty, g_phase = Idle, g_sends = [],
     g_pending = Map.empty, g_active = Map.empty, g_map = Map.empty, g_clients = Map.empty, g_next_entity = 0,
     g_next_minecraft_id = 1, g_registries_sent = False, g_ticks_since_last = 0, g_events = []\<rparr>"

section \<open>The accept loop\<close>

text \<open>
  A new connection: its id is announced with a bounded queue before its task starts. The next id past
  \<open>u32::MAX\<close> is an arithmetic overflow and not modelled further.
\<close>

definition accept :: "('d, 'n) system \<Rightarrow> ('d, 'n) system option" where
  "accept s =
     (let c = n_next_id s in
      if c = -1 then None
      else Some (s\<lparr>n_next_id := c + 1,
        ch_connected := ch_connected s @ [(c, c)],
        queues := (queues s)(c \<mapsto> \<lparr>q_items = [], q_open = True\<rparr>),
        n_tasks := (n_tasks s)(c \<mapsto> \<lparr>t_fast_path = FastHandshake, t_status = [], t_aborted = False, t_finished = False\<rparr>),
        n_connections := insert c (n_connections s)\<rparr>))"

definition server_ended :: "('d, 'n) system \<Rightarrow> ('d, 'n) system option" where
  "server_ended s =
     (case n_ended s of
        [] \<Rightarrow> None
      | c # cs \<Rightarrow> Some (s\<lparr>n_ended := cs, n_connections := n_connections s - {c}, ch_disconnect := ch_disconnect s @ [c]\<rparr>))"

definition abort :: "u32 \<Rightarrow> (u32 \<rightharpoonup> 'd task) \<Rightarrow> (u32 \<rightharpoonup> 'd task)" where
  "abort c tasks = (case tasks c of None \<Rightarrow> tasks | Some t \<Rightarrow> tasks(c \<mapsto> t\<lparr>t_aborted := True\<rparr>))"

definition server_kick :: "('d, 'n) system \<Rightarrow> ('d, 'n) system option" where
  "server_kick s =
     (case ch_kick s of
        [] \<Rightarrow> None
      | c # cs \<Rightarrow>
          Some (if c \<in> n_connections s
                then s\<lparr>ch_kick := cs, n_connections := n_connections s - {c}, n_tasks := abort c (n_tasks s)\<rparr>
                else s\<lparr>ch_kick := cs\<rparr>))"

section \<open>The task of a client\<close>

datatype 'd status_action = Forward | Consumed "'d clientbound option"

text \<open>\<open>response\<close> is what the status snapshot answers.\<close>

definition handle_status_packet ::
  "(nat \<Rightarrow> bool) \<Rightarrow> 'd clientbound \<Rightarrow> packet \<Rightarrow> fast_path \<Rightarrow> (decode_error + 'd status_action) \<times> fast_path" where
  "handle_status_packet mem response p path =
     (case path of
        FastHandshake \<Rightarrow>
          (case packet_decode mem decode_handshake_packet p of
             Inl e \<Rightarrow> (Inr Forward, path)
           | Inr (PHandshake h) \<Rightarrow>
               if hs_next_state h = Status then (Inr (Consumed None), FastStatus) else (Inr Forward, FastDisabled))
      | FastStatus \<Rightarrow>
          (case packet_decode mem decode_status_packet p of
             Inl e \<Rightarrow> (Inl e, path)
           | Inr StatusRequest \<Rightarrow> (Inr (Consumed (Some response)), path)
           | Inr (PingRequest t) \<Rightarrow> (Inr (Consumed (Some (PingResponse t))), path))
      | FastDisabled \<Rightarrow> (Inr Forward, path))"

text \<open>A task returns, or is dropped: its end of the queue closes, and what is in the queue is lost.\<close>

definition finish_task :: "u32 \<Rightarrow> ('d, 'n) system \<Rightarrow> ('d, 'n) system option" where
  "finish_task c s =
     (case n_tasks s c of
        Some t \<Rightarrow>
          if t_finished t then None
          else Some (s\<lparr>n_tasks := (n_tasks s)(c \<mapsto> t\<lparr>t_finished := True, t_status := []\<rparr>),
                      queues := (queues s)(c \<mapsto> \<lparr>q_items = [], q_open = False\<rparr>)\<rparr>)
      | None \<Rightarrow> None)"

text \<open>The reader loop receives a packet; the snapshot answers with the player count of some tick, \<open>online\<close>.\<close>

definition task_receive ::
  "('d, 'q) env \<Rightarrow> i32 \<Rightarrow> u32 \<Rightarrow> packet \<Rightarrow> ('d, 'n) system \<Rightarrow> ('d, 'n) system option" where
  "task_receive env online c p s =
     (case n_tasks s c of
        Some t \<Rightarrow>
          if t_finished t then None
          else
            (let response = StatusResponse (status_of (sc_max_players (env_config env)) online (sc_motd (env_config env)));
                 (r, path) = handle_status_packet (env_memory env) response p (t_fast_path t);
                 t' = t\<lparr>t_fast_path := path\<rparr>
             in (case r of
                   Inl e \<Rightarrow> finish_task c s
                 | Inr Forward \<Rightarrow>
                     Some (s\<lparr>n_tasks := (n_tasks s)(c \<mapsto> t'), ch_incoming := ch_incoming s @ [(c, p)]\<rparr>)
                 | Inr (Consumed None) \<Rightarrow> Some (s\<lparr>n_tasks := (n_tasks s)(c \<mapsto> t')\<rparr>)
                 | Inr (Consumed (Some out)) \<Rightarrow>
                     Some (s\<lparr>n_tasks := (n_tasks s)(c \<mapsto> t'\<lparr>t_status := t_status t' @ [out]\<rparr>)\<rparr>)))
      | None \<Rightarrow> None)"

text \<open>The writer loop takes the next packet of the game or of the status queue; \<open>Frames\<close> has what it does with it.\<close>

definition task_write :: "u32 \<Rightarrow> ('d, 'n) system \<Rightarrow> ('d, 'n) system option" where
  "task_write c s =
     (case (n_tasks s c, queues s c) of
        (Some t, Some q) \<Rightarrow>
          if t_finished t \<or> q_items q = [] then None
          else Some (s\<lparr>queues := (queues s)(c \<mapsto> q\<lparr>q_items := tl (q_items q)\<rparr>)\<rparr>)
      | _ \<Rightarrow> None)"

definition task_write_status :: "u32 \<Rightarrow> ('d, 'n) system \<Rightarrow> ('d, 'n) system option" where
  "task_write_status c s =
     (case n_tasks s c of
        Some t \<Rightarrow>
          if t_finished t \<or> t_status t = [] then None
          else Some (s\<lparr>n_tasks := (n_tasks s)(c \<mapsto> t\<lparr>t_status := tl (t_status t)\<rparr>)\<rparr>)
      | None \<Rightarrow> None)"

text \<open>The second task per client waits for the first and reports its end.\<close>

definition task_ended :: "u32 \<Rightarrow> ('d, 'n) system \<Rightarrow> ('d, 'n) system option" where
  "task_ended c s =
     (case n_tasks s c of
        Some t \<Rightarrow> if t_finished t then Some (s\<lparr>n_tasks := (n_tasks s)(c := None), n_ended := n_ended s @ [c]\<rparr>) else None
      | None \<Rightarrow> None)"

section \<open>Sending\<close>

definition deliver :: "nat \<Rightarrow> u32 \<Rightarrow> 'd clientbound \<Rightarrow> ('d, 'n) system \<Rightarrow> ('d, 'n) system" where
  "deliver e c p s =
     (case g_active s e of
        None \<Rightarrow> s\<lparr>ch_fallback := ch_fallback s @ [(c, p)]\<rparr>
      | Some sender \<Rightarrow>
          if snd_kicked sender then s
          else (case queues s (snd_outgoing sender) of
                  None \<Rightarrow> s
                | Some q \<Rightarrow>
                    if \<not> q_open q then s
                    else if length (q_items q) < OUTBOUND_QUEUE_CAPACITY
                    then s\<lparr>queues := (queues s)(snd_outgoing sender \<mapsto> q\<lparr>q_items := q_items q @ [p]\<rparr>)\<rparr>
                    else s\<lparr>g_active := (g_active s)(e \<mapsto> sender\<lparr>snd_kicked := True\<rparr>), ch_kick := ch_kick s @ [c]\<rparr>))"

definition players_send :: "nat \<Rightarrow> 'd clientbound \<Rightarrow> ('d, 'n) system \<Rightarrow> ('d, 'n) system" where
  "players_send e p s = (case g_clients s e of None \<Rightarrow> s | Some c \<Rightarrow> deliver e (cl_id c) p s)"

section \<open>The senders of the clients\<close>

text \<open>\<open>ClientSenders::sync\<close>: what has been announced is parked by client id.\<close>

definition sync :: "('d, 'n) system \<Rightarrow> ('d, 'n) system" where
  "sync s = s\<lparr>g_pending := g_pending s ++ map_of (rev (ch_connected s)), ch_connected := []\<rparr>"

definition take_pending :: "u32 \<Rightarrow> ('d, 'n) system \<Rightarrow> u32 option \<times> ('d, 'n) system" where
  "take_pending c s =
     (let s' = if g_pending s c = None then sync s else s
      in (g_pending s' c, s'\<lparr>g_pending := (g_pending s')(c := None)\<rparr>))"

definition register_sender :: "nat \<Rightarrow> u32 \<Rightarrow> ('d, 'n) system \<Rightarrow> ('d, 'n) system" where
  "register_sender e outgoing s = s\<lparr>g_active := (g_active s)(e \<mapsto> \<lparr>snd_outgoing = outgoing, snd_kicked = False\<rparr>)\<rparr>"

definition detach :: "u32 \<Rightarrow> nat option \<Rightarrow> ('d, 'n) system \<Rightarrow> ('d, 'n) system" where
  "detach c entity s =
     (let s' = s\<lparr>g_pending := (g_pending s)(c := None)\<rparr>
      in case entity of None \<Rightarrow> s' | Some e \<Rightarrow> s'\<lparr>g_active := (g_active s')(e := None)\<rparr>)"

definition spawn_client :: "u32 \<Rightarrow> ('d, 'n) system \<Rightarrow> nat \<times> ('d, 'n) system" where
  "spawn_client c s =
     (g_next_entity s, s\<lparr>g_next_entity := g_next_entity s + 1, g_clients := (g_clients s)(g_next_entity s \<mapsto> new_client c)\<rparr>)"

definition client_entity :: "u32 \<Rightarrow> ('d, 'n) system \<Rightarrow> nat option \<times> ('d, 'n) system" where
  "client_entity c s =
     (case g_map s c of
        Some e \<Rightarrow> (Some e, s)
      | None \<Rightarrow>
          (case take_pending c s of
             (None, s') \<Rightarrow> (None, s')
           | (Some outgoing, s') \<Rightarrow>
               (let (e, s'') = spawn_client c s';
                    s3 = register_sender e outgoing s''
                in (Some e, s3\<lparr>g_map := (g_map s3)(c \<mapsto> e)\<rparr>))))"

section \<open>Packets\<close>

text \<open>The packets of the play state this part handles; the others belong to other components.\<close>

datatype 'q play_packet =
    KeepAlive i64
  | PlayerLoaded
  | PlayInformation client_information
  | OtherPlay 'q

definition decode_play_packet :: "(i32 \<Rightarrow> 'q dec option) \<Rightarrow> 'q play_packet dec" where
  "decode_play_packet other = decode_tagged (\<lambda>i.
     if i = 0x1C then Some (dec_map KeepAlive (decode (dec_bind (decode decode_i64) dec_ok)))
     else if i = 0x2C then Some (dec_map (\<lambda>_. PlayerLoaded) (decode (dec_ok ())))
     else if i = 0x0E then Some (dec_map PlayInformation (decode decode_client_information))
     else map_option (dec_map OtherPlay) (other i))"

definition ready_players :: "('d, 'n) system \<Rightarrow> nat" where
  "ready_players s =
     length (filter (\<lambda>e. case g_clients s e of None \<Rightarrow> False | Some c \<Rightarrow> cl_ready c) [0 ..< g_next_entity s])"

text \<open>The entity \<open>e\<close> of the client becomes \<open>c\<close>, and the observer sends \<open>out\<close> to it.\<close>

definition respond :: "nat \<Rightarrow> 'n net_client \<times> 'd clientbound list \<Rightarrow> ('d, 'n) system \<Rightarrow> ('d, 'n) system" where
  "respond e r s = s\<lparr>g_clients := (g_clients s)(e \<mapsto> fst r), g_sends := g_sends s @ map (\<lambda>p. (e, p)) (snd r)\<rparr>"

abbreviation announce :: "game_event \<Rightarrow> ('d, 'n) system \<Rightarrow> ('d, 'n) system" where
  "announce ev s \<equiv> s\<lparr>g_events := g_events s @ [ev]\<rparr>"

fun handle_handshake_packet :: "nat \<Rightarrow> 'n net_client \<Rightarrow> handshake_packet \<Rightarrow> ('d, 'n) system \<Rightarrow> ('d, 'n) system" where
  "handle_handshake_packet e c (PHandshake h) s = respond e (handle_handshake h c, []) s"

fun handle_status :: "server_config \<Rightarrow> nat \<Rightarrow> 'n net_client \<Rightarrow> status_packet \<Rightarrow> ('d, 'n) system \<Rightarrow> ('d, 'n) system" where
  "handle_status cfg e c (PingRequest t) s = respond e (c, handle_ping t) s"
| "handle_status cfg e c StatusRequest s =
     respond e (c, handle_status_request (sc_max_players cfg) (ready_players s) (sc_motd cfg)) s"

fun handle_login :: "nat \<Rightarrow> 'n net_client \<Rightarrow> login_packet \<Rightarrow> ('d, 'n) system \<Rightarrow> ('d, 'n) system" where
  "handle_login e c (LoginStart l) s = respond e (handle_login_start l c) s"
| "handle_login e c LoginAcknowledged s = respond e (handle_login_acknowledged c) s"

fun handle_configuration ::
  "('d, 'q) env \<Rightarrow> 'd moment \<Rightarrow> u32 \<Rightarrow> nat \<Rightarrow> 'n net_client \<Rightarrow> configuration_packet \<Rightarrow> ('d, 'n) system \<Rightarrow> ('d, 'n) system" where
  "handle_configuration env m cid e c (ClientInformation ci) s = respond e (handle_client_information ci c, []) s"
| "handle_configuration env m cid e c (PluginMessage pm) s = s"
| "handle_configuration env m cid e c (KnownPacks ks) s =
     respond e (c, handle_known_packs (env_registries env) (env_tagged env)) (s\<lparr>g_registries_sent := True\<rparr>)"
| "handle_configuration env m cid e c FinishConfigurationAcknowledged s =
     announce (PlayerJoin cid e)
       (respond e (handle_finish_configuration (env_config env) (env_command_tree env) (m_chunk m) (env_spawn env)
                     (env_spawn_chunk env) (g_next_minecraft_id s) c)
         (s\<lparr>g_next_minecraft_id := g_next_minecraft_id s + 1\<rparr>))"

fun handle_play ::
  "('d, 'q) env \<Rightarrow> 'd moment \<Rightarrow> u32 \<Rightarrow> nat \<Rightarrow> 'n net_client \<Rightarrow> 'q play_packet \<Rightarrow> ('d, 'n) system \<Rightarrow> ('d, 'n) system" where
  "handle_play env m cid e c (KeepAlive i) s = respond e (handle_keep_alive (m_now m) i c, []) s"
| "handle_play env m cid e c PlayerLoaded s = announce (PlayerReady cid e) (respond e (handle_player_loaded c, []) s)"
| "handle_play env m cid e c (PlayInformation ci) s = respond e (handle_client_information ci c, []) s"
| "handle_play env m cid e c (OtherPlay q) s = s\<lparr>g_sends := g_sends s @ env_handle_other env q e\<rparr>"

text \<open>
  \<open>dispatch_packet\<close>: the state of the client chooses the packet set. A packet that does not decode is logged and
  changes nothing. \<open>None\<close> is the panic on an entity without a connection state.
\<close>

definition dispatch_packet ::
  "('d, 'q) env \<Rightarrow> 'd moment \<Rightarrow> u32 \<Rightarrow> nat \<Rightarrow> packet \<Rightarrow> ('d, 'n) system \<Rightarrow> (decode_error + ('d, 'n) system) option" where
  "dispatch_packet env m cid e p s =
     (case g_clients s e of
        None \<Rightarrow> None
      | Some c \<Rightarrow> Some
          (case cl_state c of
             Handshake \<Rightarrow> map_sum id (\<lambda>pk. handle_handshake_packet e c pk s) (packet_decode (env_memory env) decode_handshake_packet p)
           | Status \<Rightarrow> map_sum id (\<lambda>pk. handle_status (env_config env) e c pk s) (packet_decode (env_memory env) decode_status_packet p)
           | Login \<Rightarrow> map_sum id (\<lambda>pk. handle_login e c pk s) (packet_decode (env_memory env) decode_login_packet p)
           | Configuration \<Rightarrow> map_sum id (\<lambda>pk. handle_configuration env m cid e c pk s)
               (packet_decode (env_memory env) (decode_configuration_packet (env_pack_size env)) p)
           | Play \<Rightarrow> map_sum id (\<lambda>pk. handle_play env m cid e c pk s)
               (packet_decode (env_memory env) (decode_play_packet (env_decode_other env)) p)
           | Transfer \<Rightarrow> Inr s))"

section \<open>A tick of the game thread\<close>

definition ingest_packet :: "('d, 'q) env \<Rightarrow> 'd moment \<Rightarrow> u32 \<Rightarrow> packet \<Rightarrow> ('d, 'n) system \<Rightarrow> ('d, 'n) system option" where
  "ingest_packet env m c p s =
     (case client_entity c s of
        (None, s') \<Rightarrow> Some s'
      | (Some e, s') \<Rightarrow>
          (case dispatch_packet env m c e p s' of
             None \<Rightarrow> None
           | Some (Inl err) \<Rightarrow> Some s'
           | Some (Inr s'') \<Rightarrow> Some s''))"

text \<open>\<open>n\<close> packets are taken: all there are, unless the packet limit or the time budget stops the loop before.\<close>

definition receive_allowed :: "server_config \<Rightarrow> nat \<Rightarrow> nat \<Rightarrow> bool" where
  "receive_allowed cfg n backlog \<longleftrightarrow>
     n \<le> backlog \<and> (sc_max_packets_per_tick cfg \<noteq> 0 \<longrightarrow> n \<le> sc_max_packets_per_tick cfg) \<and>
     (n = backlog \<or> n = sc_max_packets_per_tick cfg \<and> n \<noteq> 0 \<or> sc_packet_ingest_budget_ms cfg \<noteq> 0)"

definition handle_disconnect :: "u32 \<Rightarrow> ('d, 'n) system \<Rightarrow> ('d, 'n) system" where
  "handle_disconnect c s =
     (let entity = g_map s c;
          s1 = s\<lparr>g_map := (g_map s)(c := None)\<rparr>;
          s2 = (case entity of
                  None \<Rightarrow> s1
                | Some e \<Rightarrow>
                    (let s' = (case g_clients s1 e of
                         Some cl \<Rightarrow> if cl_ready cl then announce (PlayerQuit c e) s1 else s1
                       | None \<Rightarrow> s1)
                     in s'\<lparr>g_clients := (g_clients s')(e := None)\<rparr>))
      in detach c entity s2)"

fun send_keep_alive :: "i64 \<Rightarrow> nat list \<Rightarrow> ('d, 'n) system \<Rightarrow> ('d, 'n) system" where
  "send_keep_alive now [] s = s"
| "send_keep_alive now (e # es) s =
     send_keep_alive now es (case g_clients s e of None \<Rightarrow> s | Some c \<Rightarrow> respond e (keep_alive_one now c) s)"

text \<open>\<open>interval_ticks\<close> is 200, ten seconds.\<close>

definition keep_alive_tick :: "i64 \<Rightarrow> ('d, 'n) system \<Rightarrow> ('d, 'n) system" where
  "keep_alive_tick now s =
     (let t = g_ticks_since_last s + 1
      in if t < 200 then s\<lparr>g_ticks_since_last := t\<rparr>
         else send_keep_alive now [0 ..< g_next_entity s] (s\<lparr>g_ticks_since_last := 0\<rparr>))"

section \<open>Runs\<close>

text \<open>
  \<open>SystemSend\<close> is a send of any other system or observer, and \<open>AllocateEntityId\<close> an entity spawned by one. Every action of the game thread but \<open>Deliver\<close> waits
  until the sends of the one before are done.
\<close>

datatype 'd action =
    Accept | ServerEnded | ServerKick
  | TaskReceive i32 u32 packet | TaskWrite u32 | TaskWriteStatus u32 | FinishTask u32 | TaskEnded u32
  | Sync | ReceivePackets nat | IngestPacket "'d moment" | DrainDisconnects | SyncAgain | HandleDisconnect | EndIngest
  | Deliver | SystemSend nat "'d clientbound" | SendKeepAlive i64 | AllocateEntityId

definition game_idle :: "('d, 'n) system \<Rightarrow> phase \<Rightarrow> bool" where
  "game_idle s ph \<longleftrightarrow> g_sends s = [] \<and> g_phase s = ph"

fun perform :: "('d, 'q) env \<Rightarrow> 'd action \<Rightarrow> ('d, 'n) system \<Rightarrow> ('d, 'n) system option" where
  "perform env Accept s = accept s"
| "perform env ServerEnded s = server_ended s"
| "perform env ServerKick s = server_kick s"
| "perform env (TaskReceive online c p) s = task_receive env online c p s"
| "perform env (TaskWrite c) s = task_write c s"
| "perform env (TaskWriteStatus c) s = task_write_status c s"
| "perform env (FinishTask c) s = finish_task c s"
| "perform env (TaskEnded c) s = task_ended c s"
| "perform env Sync s = (if game_idle s Idle then Some (sync s\<lparr>g_phase := Synced\<rparr>) else None)"
| "perform env (ReceivePackets n) s =
     (if game_idle s Synced \<and> receive_allowed (env_config env) n (length (ch_incoming s))
      then Some (s\<lparr>g_phase := Processing (take n (ch_incoming s)), ch_incoming := drop n (ch_incoming s)\<rparr>) else None)"
| "perform env (IngestPacket m) s =
     (if g_sends s = [] then
        (case g_phase s of
           Processing ((c, p) # ps) \<Rightarrow> ingest_packet env m c p (s\<lparr>g_phase := Processing ps\<rparr>)
         | _ \<Rightarrow> None)
      else None)"
| "perform env DrainDisconnects s =
     (if game_idle s (Processing []) then Some (s\<lparr>g_phase := Drained (ch_disconnect s), ch_disconnect := []\<rparr>) else None)"
| "perform env SyncAgain s =
     (if g_sends s = [] then
        (case g_phase s of
           Drained cs \<Rightarrow> Some (if cs = [] then s\<lparr>g_phase := Handling []\<rparr> else sync s\<lparr>g_phase := Handling cs\<rparr>)
         | _ \<Rightarrow> None)
      else None)"
| "perform env HandleDisconnect s =
     (if g_sends s = [] then
        (case g_phase s of
           Handling (c # cs) \<Rightarrow> Some (handle_disconnect c (s\<lparr>g_phase := Handling cs\<rparr>))
         | _ \<Rightarrow> None)
      else None)"
| "perform env EndIngest s = (if game_idle s (Handling []) then Some (s\<lparr>g_phase := Idle\<rparr>) else None)"
| "perform env Deliver s =
     (case g_sends s of [] \<Rightarrow> None | (e, p) # sends \<Rightarrow> Some (players_send e p (s\<lparr>g_sends := sends\<rparr>)))"
| "perform env (SystemSend e p) s = (if g_sends s = [] then Some (s\<lparr>g_sends := [(e, p)]\<rparr>) else None)"
| "perform env (SendKeepAlive now) s =
     (if game_idle s Idle then Some (keep_alive_tick now s) else None)"
| "perform env AllocateEntityId s = Some (s\<lparr>g_next_minecraft_id := g_next_minecraft_id s + 1\<rparr>)"

fun perform_all :: "('d, 'q) env \<Rightarrow> 'd action list \<Rightarrow> ('d, 'n) system \<Rightarrow> ('d, 'n) system option" where
  "perform_all env [] s = Some s"
| "perform_all env (a # as) s = Option.bind (perform env a s) (perform_all env as)"

inductive reachable :: "('d, 'q) env \<Rightarrow> ('d, 'n) system \<Rightarrow> bool" for env where
  reachable_start: "reachable env start"
| reachable_step: "reachable env s \<Longrightarrow> perform env a s = Some s' \<Longrightarrow> reachable env s'"

end
