(* ===== verification/Connection_Laws.thy ===== *)
theory Connection_Laws
  imports Connections
begin

text \<open>
  Invariants of every run of \<open>Connections\<close>: which clients the game thread knows, one entity per client, bounded
  queues and kicks, and the order of the connection states.
\<close>

section \<open>The life of a client\<close>

definition accepted :: "('d, 'n) system \<Rightarrow> u32 \<Rightarrow> bool" where
  "accepted s c \<longleftrightarrow> c \<noteq> 0 \<and> c < n_next_id s"

fun leaving :: "phase \<Rightarrow> u32 list" where
  "leaving (Drained cs) = cs"
| "leaving (Handling cs) = cs"
| "leaving _ = []"

text \<open>The clients whose task is gone while the game thread has not handled their disconnect.\<close>

definition over :: "('d, 'n) system \<Rightarrow> u32 list" where
  "over s = n_ended s @ ch_disconnect s @ leaving (g_phase s)"

definition live :: "('d, 'n) system \<Rightarrow> u32 set" where
  "live s = dom (n_tasks s) \<union> set (over s)"

text \<open>The clients the game thread has, or will find in its channel, something of.\<close>

definition known :: "('d, 'n) system \<Rightarrow> u32 set" where
  "known s = fst ` set (ch_connected s) \<union> dom (g_pending s) \<union> dom (g_map s)"

definition life_ok :: "('d, 'n) system \<Rightarrow> bool" where
  "life_ok s \<longleftrightarrow>
     n_next_id s \<noteq> 0 \<and> distinct (over s) \<and> dom (n_tasks s) \<inter> set (over s) = {} \<and> (\<forall>c \<in> live s. accepted s c) \<and> known s = live s \<and>
     (\<forall>cs. g_phase s = Handling cs \<longrightarrow> set cs \<inter> fst ` set (ch_connected s) = {})"

text \<open>Steps that change only components of existing clients, what is to be sent, ids and events.\<close>

definition client_step :: "('d, 'n) system \<Rightarrow> ('d, 'n) system \<Rightarrow> bool" where
  "client_step s s' \<longleftrightarrow>
     s' = s\<lparr>g_clients := g_clients s', g_sends := g_sends s', g_next_minecraft_id := g_next_minecraft_id s',
            g_registries_sent := g_registries_sent s', g_ticks_since_last := g_ticks_since_last s',
            g_events := g_events s'\<rparr> \<and>
     (\<forall>e. map_option cl_id (g_clients s' e) = map_option cl_id (g_clients s e))"

lemma client_stepI:
  assumes "s' = s\<lparr>g_clients := cs, g_sends := ss, g_next_minecraft_id := i, g_registries_sent := b,
    g_ticks_since_last := t, g_events := evs\<rparr>"
    and "\<And>e. map_option cl_id (cs e) = map_option cl_id (g_clients s e)"
  shows "client_step s s'"
  using assms by (simp add: client_step_def)

lemma client_step_refl: "client_step s s"
  by (simp add: client_step_def)

lemma client_step_trans: "client_step s s' \<Longrightarrow> client_step s' s'' \<Longrightarrow> client_step s s''"
  unfolding client_step_def by (cases s; cases s'; cases s'') simp

lemma client_step_respond:
  assumes "g_clients s e = Some c" and "cl_id (fst r) = cl_id c"
  shows "client_step s (respond e r s)"
  using assms by (simp add: client_step_def respond_def)


lemma handlers_keep_id [simp]:
  "cl_id (handle_handshake h c) = cl_id c"
  "cl_id (fst (handle_login_start l c)) = cl_id c"
  "cl_id (fst (handle_login_acknowledged c)) = cl_id c"
  "cl_id (handle_client_information ci c) = cl_id c"
  "cl_id (handle_player_loaded c) = cl_id c"
  "cl_id (handle_keep_alive now i c) = cl_id c"
  "cl_id (fst (keep_alive_one now c)) = cl_id c"
  "cl_id (fst (handle_finish_configuration cfg tree chunk spawn sc ent c)) = cl_id c"
  by (auto simp: handle_handshake_def handle_login_start_def handle_login_acknowledged_def handle_client_information_def
      handle_player_loaded_def handle_keep_alive_def keep_alive_one_def handle_finish_configuration_def Let_def
      split: option.split prod.split)

lemma handle_packets_client_step:
  assumes "g_clients s e = Some c"
  shows "client_step s (handle_handshake_packet e c hp s)"
    and "client_step s (handle_status cfg e c sp s)"
    and "client_step s (handle_login e c lp s)"
    and "client_step s (handle_configuration env m cid e c cp s)"
    and "client_step s (handle_play env m cid e c pp s)"
proof -
  show "client_step s (handle_handshake_packet e c hp s)"
    by (cases hp) (simp add: client_step_respond assms)
  show "client_step s (handle_status cfg e c sp s)"
    by (cases sp) (simp_all add: client_step_respond assms)
  show "client_step s (handle_login e c lp s)"
    by (cases lp) (simp_all add: client_step_respond assms)
  show "client_step s (handle_configuration env m cid e c cp s)"
    by (cases cp) (use assms in \<open>simp_all add: client_step_def respond_def\<close>)
  show "client_step s (handle_play env m cid e c pp s)"
    by (cases pp) (use assms in \<open>simp_all add: client_step_def respond_def\<close>)
qed

lemma map_sum_Inr: "map_sum f g r = Inr y \<longleftrightarrow> (\<exists>x. r = Inr x \<and> y = g x)"
  by (cases r) auto

lemma dispatch_client_step:
  assumes "dispatch_packet env m cid e p s = Some (Inr s')"
  shows "client_step s s'"
proof -
  obtain c where c: "g_clients s e = Some c" using assms by (auto simp: dispatch_packet_def split: option.splits)
  show ?thesis
  proof (cases "cl_state c")
    case Transfer
    then show ?thesis using assms by (simp add: dispatch_packet_def c client_step_refl)
  qed (use assms in \<open>simp add: dispatch_packet_def c map_sum_Inr, elim exE conjE,
      simp only: handle_packets_client_step [OF c]\<close>)+
qed

lemma client_step_keep_alive: "client_step s (send_keep_alive now es s)"
proof (induction es arbitrary: s)
  case (Cons e es)
  have "client_step s (case g_clients s e of None \<Rightarrow> s | Some c \<Rightarrow> respond e (keep_alive_one now c) s)"
    by (auto simp: client_step_refl client_step_respond split: option.split)
  then show ?case using Cons.IH client_step_trans by fastforce
qed (simp add: client_step_refl)

lemma client_step_tick: "client_step s (keep_alive_tick now s)"
proof -
  have "client_step s (s\<lparr>g_ticks_since_last := t\<rparr>)" for t by (simp add: client_step_def)
  from this client_step_trans [OF this client_step_keep_alive] show ?thesis
    by (simp add: keep_alive_tick_def Let_def)
qed

text \<open>What such a step leaves alone.\<close>

lemma client_step_frame:
  assumes "client_step s s'"
  shows "n_next_id s' = n_next_id s" "n_connections s' = n_connections s" "n_tasks s' = n_tasks s" "n_ended s' = n_ended s"
    "ch_connected s' = ch_connected s" "ch_incoming s' = ch_incoming s" "ch_disconnect s' = ch_disconnect s"
    "ch_kick s' = ch_kick s" "ch_fallback s' = ch_fallback s" "queues s' = queues s" "g_phase s' = g_phase s"
    "g_pending s' = g_pending s" "g_active s' = g_active s" "g_map s' = g_map s" "g_next_entity s' = g_next_entity s"
    "\<And>e. map_option cl_id (g_clients s' e) = map_option cl_id (g_clients s e)"
proof -
  obtain cs ss i b t evs where s': "s' = s\<lparr>g_clients := cs, g_sends := ss, g_next_minecraft_id := i, g_registries_sent := b,
      g_ticks_since_last := t, g_events := evs\<rparr>"
    using assms unfolding client_step_def by blast
  show "n_next_id s' = n_next_id s" "n_connections s' = n_connections s" "n_tasks s' = n_tasks s" "n_ended s' = n_ended s"
    "ch_connected s' = ch_connected s" "ch_incoming s' = ch_incoming s" "ch_disconnect s' = ch_disconnect s"
    "ch_kick s' = ch_kick s" "ch_fallback s' = ch_fallback s" "queues s' = queues s" "g_phase s' = g_phase s"
    "g_pending s' = g_pending s" "g_active s' = g_active s" "g_map s' = g_map s" "g_next_entity s' = g_next_entity s"
    by (simp_all add: s')
  show "map_option cl_id (g_clients s' e) = map_option cl_id (g_clients s e)" for e
    using assms by (simp add: client_step_def)
qed

section \<open>Entities\<close>

definition owner :: "('d, 'n) system \<Rightarrow> nat \<Rightarrow> u32 option" where
  "owner s e = map_option cl_id (g_clients s e)"

definition entities_ok :: "('d, 'n) system \<Rightarrow> bool" where
  "entities_ok s \<longleftrightarrow>
     (\<forall>(c, q) \<in> set (ch_connected s). q = c) \<and>
     (\<forall>c q. g_pending s c = Some q \<longrightarrow> q = c) \<and>
     (\<forall>c e. g_map s c = Some e \<longleftrightarrow> owner s e = Some c) \<and>
     (\<forall>e. map_option snd_outgoing (g_active s e) = owner s e) \<and>
     (\<forall>e. owner s e \<noteq> None \<longrightarrow> e < g_next_entity s) \<and>
     ch_fallback s = []"

lemma client_step_owner: "client_step s s' \<Longrightarrow> owner s' = owner s"
  by (rule ext) (simp add: owner_def client_step_frame)

lemma client_step_entities: "client_step s s' \<Longrightarrow> entities_ok s \<Longrightarrow> entities_ok s'"
  by (simp add: entities_ok_def client_step_frame client_step_owner)

lemma client_step_life: "client_step s s' \<Longrightarrow> life_ok s \<Longrightarrow> life_ok s'"
  by (simp add: life_ok_def live_def known_def over_def accepted_def client_step_frame)


section \<open>Queues and kicks\<close>

definition queues_ok :: "('d, 'n) system \<Rightarrow> bool" where
  "queues_ok s \<longleftrightarrow>
     (\<forall>c. queues s c \<noteq> None \<longleftrightarrow> accepted s c) \<and>
     (\<forall>c q. queues s c = Some q \<longrightarrow> length (q_items q) \<le> OUTBOUND_QUEUE_CAPACITY) \<and>
     (\<forall>c q. queues s c = Some q \<longrightarrow> q_open q = (\<exists>t. n_tasks s c = Some t \<and> \<not> t_finished t)) \<and>
     (\<forall>c t. n_tasks s c = Some t \<longrightarrow> t_aborted t = (c \<notin> n_connections s)) \<and>
     (\<forall>c \<in> n_connections s. accepted s c)"

definition kicks_ok :: "('d, 'n) system \<Rightarrow> bool" where
  "kicks_ok s \<longleftrightarrow>
     distinct (ch_kick s) \<and> (\<forall>c \<in> set (ch_kick s). accepted s c) \<and>
     (\<forall>c \<in> set (ch_kick s). c \<in> known s \<longrightarrow>
        (\<exists>e sender. g_map s c = Some e \<and> g_active s e = Some sender \<and> snd_kicked sender)) \<and>
     (\<forall>c e sender. g_map s c = Some e \<longrightarrow> g_active s e = Some sender \<longrightarrow> snd_kicked sender \<longrightarrow>
        c \<in> set (ch_kick s) \<or> c \<notin> n_connections s)"

lemma client_step_queues: "client_step s s' \<Longrightarrow> queues_ok s \<Longrightarrow> queues_ok s'"
  by (simp add: queues_ok_def accepted_def client_step_frame)

lemma client_step_kicks: "client_step s s' \<Longrightarrow> kicks_ok s \<Longrightarrow> kicks_ok s'"
  by (simp add: kicks_ok_def known_def accepted_def client_step_frame)

definition sys_ok :: "('d, 'n) system \<Rightarrow> bool" where
  "sys_ok s \<longleftrightarrow> life_ok s \<and> entities_ok s \<and> queues_ok s \<and> kicks_ok s"

lemma client_step_ok: "client_step s s' \<Longrightarrow> sys_ok s \<Longrightarrow> sys_ok s'"
  by (simp add: sys_ok_def client_step_life client_step_entities client_step_queues client_step_kicks)

lemmas ok_defs = life_ok_def live_def known_def over_def accepted_def entities_ok_def owner_def

lemma start_ok: "sys_ok start"
  by (simp add: sys_ok_def ok_defs queues_ok_def kicks_ok_def start_def)

text \<open>The accept loop.\<close>

lemma succ_not_0: "c \<noteq> -1 \<Longrightarrow> c + 1 \<noteq> (0 :: u32)"
  by (metis add_eq_0_iff2)

lemma less_next: "c \<noteq> -1 \<Longrightarrow> x < c + 1 \<longleftrightarrow> x \<le> (c :: u32)"
  using succ_not_0 [of c] unatSuc [of c] by (simp add: word_less_nat_alt word_le_nat_alt less_Suc_eq_le add.commute)

lemma accept_ok:
  assumes "accept s = Some s'" and "sys_ok s"
  shows "sys_ok s'"
proof -
  let ?c = "n_next_id s"
  have c: "?c \<noteq> -1" "?c \<noteq> 0" and s': "s' = s\<lparr>n_next_id := ?c + 1, ch_connected := ch_connected s @ [(?c, ?c)],
      queues := (queues s)(?c \<mapsto> \<lparr>q_items = [], q_open = True\<rparr>),
      n_tasks := (n_tasks s)(?c \<mapsto> \<lparr>t_fast_path = FastHandshake, t_status = [], t_aborted = False, t_finished = False\<rparr>),
      n_connections := insert ?c (n_connections s)\<rparr>"
    using assms by (auto simp: accept_def Let_def sys_ok_def life_ok_def split: if_splits)
  have fresh: "\<not> accepted s ?c" by (simp add: accepted_def)
  have acc: "accepted s' x \<longleftrightarrow> accepted s x \<or> x = ?c" for x
    using c by (auto simp: accepted_def s' less_next)
  have ok: "life_ok s" "entities_ok s" "queues_ok s" "kicks_ok s" using assms by (simp_all add: sys_ok_def)
  have notlive: "?c \<notin> live s" using ok(1) fresh by (auto simp: life_ok_def)
  have live': "live s' = insert ?c (live s)" and known': "known s' = insert ?c (known s)" and over': "over s' = over s"
    by (auto simp: live_def known_def over_def s')
  have "life_ok s'"
    unfolding life_ok_def acc live' known' over'
    using ok(1) notlive succ_not_0 [OF c(1)]
    by (auto simp: life_ok_def s' live_def over_def)
  moreover have "entities_ok s'" using ok(2) by (simp add: entities_ok_def owner_def s')
  moreover have "queues_ok s'"
    using ok(3) fresh unfolding queues_ok_def acc by (auto simp: s')
  moreover have "kicks_ok s'"
    using ok(1,4) fresh notlive unfolding kicks_ok_def acc known' by (auto simp: s' life_ok_def known_def, blast)
  ultimately show ?thesis by (simp add: sys_ok_def)
qed


lemma server_ended_ok:
  assumes "server_ended s = Some s'" and "sys_ok s"
  shows "sys_ok s'"
proof -
  obtain c cs where c: "n_ended s = c # cs"
    and s': "s' = s\<lparr>n_ended := cs, n_connections := n_connections s - {c}, ch_disconnect := ch_disconnect s @ [c]\<rparr>"
    using assms(1) by (auto simp: server_ended_def split: list.splits)
  have ok: "life_ok s" "entities_ok s" "queues_ok s" "kicks_ok s" using assms by (simp_all add: sys_ok_def)
  have same: "live s' = live s" "known s' = known s" "accepted s' = accepted s"
    by (auto simp: live_def known_def over_def accepted_def s' c)
  have c': "n_tasks s c = None" using ok(1) by (auto simp: life_ok_def over_def c)
  have "life_ok s'"
    unfolding life_ok_def same using ok(1) by (auto simp: life_ok_def s' over_def c)
  moreover have "entities_ok s'" using ok(2) by (simp add: entities_ok_def owner_def s')
  moreover have "queues_ok s'"
    using ok(3) c' unfolding queues_ok_def same by (auto simp: s')
  moreover have "kicks_ok s'"
    using ok(4) unfolding kicks_ok_def same by (auto simp: s', blast+)
  ultimately show ?thesis by (simp add: sys_ok_def)
qed

lemma server_kick_ok:
  assumes "server_kick s = Some s'" and "sys_ok s"
  shows "sys_ok s'"
proof -
  obtain c cs where c: "ch_kick s = c # cs"
    and s': "s' = (if c \<in> n_connections s
        then s\<lparr>ch_kick := cs, n_connections := n_connections s - {c}, n_tasks := abort c (n_tasks s)\<rparr>
        else s\<lparr>ch_kick := cs\<rparr>)"
    using assms(1) by (auto simp: server_kick_def split: list.splits)
  have ok: "life_ok s" "entities_ok s" "queues_ok s" "kicks_ok s" using assms by (simp_all add: sys_ok_def)
  have same: "live s' = live s" "known s' = known s" "accepted s' = accepted s" "over s' = over s" "dom (n_tasks s') = dom (n_tasks s)"
    by (auto simp: live_def known_def over_def accepted_def s' abort_def split: option.splits if_splits)
  have tasks: "(\<exists>t. n_tasks s' x = Some t \<and> \<not> t_finished t) = (\<exists>t. n_tasks s x = Some t \<and> \<not> t_finished t)" for x
    by (auto simp: s' abort_def split: option.splits)
  have fields: "queues s' = queues s" "g_map s' = g_map s" "g_active s' = g_active s" "ch_kick s' = cs"
      "n_connections s' = n_connections s - {c}"
    by (auto simp: s')
  have "life_ok s'"
    unfolding life_ok_def same using ok(1) by (auto simp: life_ok_def s' over_def c)
  moreover have "entities_ok s'" using ok(2) by (auto simp: entities_ok_def owner_def s')
  moreover have "queues_ok s'"
    using ok(3) unfolding queues_ok_def same tasks fields
    by (auto simp: s' abort_def split: option.splits if_splits)
  moreover have "kicks_ok s'"
    using ok(4) unfolding kicks_ok_def same fields c by (auto, blast+)
  ultimately show ?thesis by (simp add: sys_ok_def)
qed


text \<open>The tasks of the clients. What their steps change of a task keeps whether it is aborted.\<close>

lemma task_step_ok:
  assumes "sys_ok s" and "n_tasks s c = Some t" and "t_aborted t' = t_aborted t" and "t_finished t' = t_finished t"
  shows "sys_ok (s\<lparr>n_tasks := (n_tasks s)(c \<mapsto> t'), ch_incoming := ps\<rparr>)"
proof -
  let ?s = "s\<lparr>n_tasks := (n_tasks s)(c \<mapsto> t'), ch_incoming := ps\<rparr>"
  have ok: "life_ok s" "entities_ok s" "queues_ok s" "kicks_ok s" using assms(1) by (simp_all add: sys_ok_def)
  have same: "live ?s = live s" "known ?s = known s" "accepted ?s = accepted s" "over ?s = over s" "dom (n_tasks ?s) = dom (n_tasks s)"
    using assms(2) by (auto simp: live_def known_def over_def accepted_def)
  have "life_ok ?s"
    unfolding life_ok_def same using ok(1) by (auto simp: life_ok_def)
  moreover have "entities_ok ?s" using ok(2) by (auto simp: entities_ok_def owner_def)
  moreover have "queues_ok ?s"
    unfolding queues_ok_def same using ok(3) assms(2-) by (auto simp: queues_ok_def)
  moreover have "kicks_ok ?s" unfolding kicks_ok_def same using ok(4) by (simp add: kicks_ok_def)
  ultimately show ?thesis by (simp add: sys_ok_def)
qed

lemma finish_task_ok:
  assumes "finish_task c s = Some s'" and "sys_ok s"
  shows "sys_ok s'"
proof -
  obtain t where t: "n_tasks s c = Some t" "\<not> t_finished t"
    and s': "s' = s\<lparr>n_tasks := (n_tasks s)(c \<mapsto> t\<lparr>t_finished := True, t_status := []\<rparr>),
                queues := (queues s)(c \<mapsto> \<lparr>q_items = [], q_open = False\<rparr>)\<rparr>"
    using assms(1) by (auto simp: finish_task_def split: option.splits if_splits)
  have ok: "life_ok s" "entities_ok s" "queues_ok s" "kicks_ok s" using assms(2) by (simp_all add: sys_ok_def)
  have acc: "accepted s c" using ok(1) t by (auto simp: life_ok_def live_def)
  have same: "live s' = live s" "known s' = known s" "accepted s' = accepted s" "over s' = over s" "dom (n_tasks s') = dom (n_tasks s)"
    using t by (auto simp: live_def known_def over_def accepted_def s')
  have "life_ok s'"
    unfolding life_ok_def same using ok(1) by (auto simp: life_ok_def s')
  moreover have "entities_ok s'" using ok(2) by (auto simp: entities_ok_def owner_def s')
  moreover have "queues_ok s'"
    unfolding queues_ok_def same using ok(3) t acc by (auto simp: queues_ok_def s')
  moreover have "kicks_ok s'" unfolding kicks_ok_def same using ok(4) by (simp add: kicks_ok_def s')
  ultimately show ?thesis by (simp add: sys_ok_def)
qed

lemma task_receive_cases:
  fixes s s' :: "('d, 'n) system"
  assumes "task_receive env online c p s = Some s'"
  obtains "finish_task c s = Some s'"
  | t t' ps where "n_tasks s c = Some t" "t_aborted t' = t_aborted t" "t_finished t' = t_finished t"
      "s' = s\<lparr>n_tasks := (n_tasks s)(c \<mapsto> t'), ch_incoming := ps\<rparr>"
proof -
  obtain t where t: "n_tasks s c = Some t" "\<not> t_finished t"
    using assms by (auto simp: task_receive_def split: option.splits if_splits)
  obtain r path where r: "handle_status_packet (env_memory env)
      (StatusResponse (status_of (sc_max_players (env_config env)) online (sc_motd (env_config env))) :: 'd clientbound)
      p (t_fast_path t) = (r, path)"
    by fastforce
  show thesis
  proof (cases r)
    case (Inl e)
    then show ?thesis using assms t r that(1) by (simp add: task_receive_def)
  next
    case (Inr act)
    let ?t = "t\<lparr>t_fast_path := path\<rparr>"
    show ?thesis
    proof (cases act)
      case Forward
      then show ?thesis using assms t r Inr that(2) [of t ?t "ch_incoming s @ [(c, p)]"] by (simp add: task_receive_def)
    next
      case (Consumed out)
      then show ?thesis
      proof (cases out)
        case None
        then show ?thesis using assms t r Inr Consumed that(2) [of t ?t "ch_incoming s"] by (auto simp: task_receive_def)
      next
        case (Some x)
        then show ?thesis
          using assms t r Inr Consumed that(2) [of t "?t\<lparr>t_status := t_status t @ [x]\<rparr>" "ch_incoming s"]
          by (auto simp: task_receive_def)
      qed
    qed
  qed
qed

lemma task_receive_ok: "task_receive env online c p s = Some s' \<Longrightarrow> sys_ok s \<Longrightarrow> sys_ok s'"
  by (erule task_receive_cases) (simp_all add: finish_task_ok task_step_ok)

lemma task_write_ok:
  assumes "task_write c s = Some s'" and "sys_ok s"
  shows "sys_ok s'"
proof -
  obtain t q where q: "queues s c = Some q" and s': "s' = s\<lparr>queues := (queues s)(c \<mapsto> q\<lparr>q_items := tl (q_items q)\<rparr>)\<rparr>"
    using assms(1) by (auto simp: task_write_def split: option.splits if_splits)
  have ok: "life_ok s" "entities_ok s" "queues_ok s" "kicks_ok s" using assms(2) by (simp_all add: sys_ok_def)
  have same: "accepted s' = accepted s" "known s' = known s" "live s' = live s" "over s' = over s"
    by (auto simp: accepted_def known_def live_def over_def s')
  have "length (tl (q_items q)) \<le> OUTBOUND_QUEUE_CAPACITY" "q_open q = (\<exists>t. n_tasks s c = Some t \<and> \<not> t_finished t)"
    using ok(3) q by (fastforce simp: queues_ok_def)+
  then have "queues_ok s'"
    unfolding queues_ok_def same using ok(3) q by (auto simp: queues_ok_def s')
  moreover have "life_ok s'" unfolding life_ok_def same using ok(1) by (simp add: life_ok_def s')
  moreover have "entities_ok s'" using ok(2) by (simp add: entities_ok_def owner_def s')
  moreover have "kicks_ok s'" unfolding kicks_ok_def same using ok(4) by (simp add: kicks_ok_def s')
  ultimately show ?thesis by (simp add: sys_ok_def)
qed

lemma task_write_status_ok:
  assumes "task_write_status c s = Some s'" and "sys_ok s"
  shows "sys_ok s'"
proof -
  obtain t where t: "n_tasks s c = Some t" and s': "s' = s\<lparr>n_tasks := (n_tasks s)(c \<mapsto> t\<lparr>t_status := tl (t_status t)\<rparr>)\<rparr>"
    using assms(1) by (auto simp: task_write_status_def split: option.splits if_splits)
  show ?thesis
    using task_step_ok [OF assms(2) t, of "t\<lparr>t_status := tl (t_status t)\<rparr>" "ch_incoming s"] by (simp add: s')
qed

lemma task_ended_ok:
  assumes "task_ended c s = Some s'" and "sys_ok s"
  shows "sys_ok s'"
proof -
  obtain t where t: "n_tasks s c = Some t" "t_finished t"
    and s': "s' = s\<lparr>n_tasks := (n_tasks s)(c := None), n_ended := n_ended s @ [c]\<rparr>"
    using assms(1) by (auto simp: task_ended_def split: option.splits if_splits)
  have ok: "life_ok s" "entities_ok s" "queues_ok s" "kicks_ok s" using assms(2) by (simp_all add: sys_ok_def)
  have same: "live s' = live s" "known s' = known s" "accepted s' = accepted s"
    using t by (auto simp: live_def known_def over_def accepted_def s')
  have "life_ok s'"
    unfolding life_ok_def same using ok(1) t by (auto simp: life_ok_def s' over_def)
  moreover have "entities_ok s'" using ok(2) by (auto simp: entities_ok_def owner_def s')
  moreover have "queues_ok s'"
    unfolding queues_ok_def same using ok(3) t by (auto simp: queues_ok_def s')
  moreover have "kicks_ok s'" unfolding kicks_ok_def same using ok(4) by (simp add: kicks_ok_def s')
  ultimately show ?thesis by (simp add: sys_ok_def)
qed


text \<open>Sending.\<close>

lemma kickable:
  assumes "kicks_ok s" and "life_ok s" and "g_map s c = Some e" and "g_active s e = Some sender" and "\<not> snd_kicked sender"
  shows "c \<notin> set (ch_kick s)" "accepted s c"
proof -
  have "c \<in> known s" using assms(3) by (auto simp: known_def)
  then show "c \<notin> set (ch_kick s)" "accepted s c" using assms unfolding kicks_ok_def life_ok_def by auto
qed

lemma players_send_ok:
  assumes "sys_ok s"
  shows "sys_ok (players_send e p s)"
proof (cases "g_clients s e")
  case None
  then show ?thesis using assms by (simp add: players_send_def)
next
  case (Some cl)
  let ?c = "cl_id cl" and ?s = "players_send e p s"
  have ok: "life_ok s" "entities_ok s" "queues_ok s" "kicks_ok s" using assms(1) by (simp_all add: sys_ok_def)
  have "owner s e = Some ?c" using Some by (simp add: owner_def)
  with ok(2) obtain sender where map: "g_map s ?c = Some e" and act: "g_active s e = Some sender" "snd_outgoing sender = ?c"
    unfolding entities_ok_def by (metis map_option_eq_Some)
  have acc: "accepted s ?c" using ok(1) map by (force simp: life_ok_def known_def)
  then have "queues s ?c \<noteq> None" using ok(3) unfolding queues_ok_def by blast
  then obtain q where q: "queues s ?c = Some q" by blast
  have send: "?s = (if snd_kicked sender \<or> \<not> q_open q then s
      else if length (q_items q) < OUTBOUND_QUEUE_CAPACITY
      then s\<lparr>queues := (queues s)(?c \<mapsto> q\<lparr>q_items := q_items q @ [p]\<rparr>)\<rparr>
      else s\<lparr>g_active := (g_active s)(e \<mapsto> sender\<lparr>snd_kicked := True\<rparr>), ch_kick := ch_kick s @ [?c]\<rparr>)"
    by (simp add: players_send_def deliver_def Some act q)
  consider (1) "snd_kicked sender \<or> \<not> q_open q"
    | (2) "\<not> (snd_kicked sender \<or> \<not> q_open q)" "length (q_items q) < OUTBOUND_QUEUE_CAPACITY"
    | (3) "\<not> (snd_kicked sender \<or> \<not> q_open q)" "\<not> length (q_items q) < OUTBOUND_QUEUE_CAPACITY"
    by blast
  then show ?thesis
  proof cases
    case 1
    have "?s = s" unfolding send by (simp only: 1 if_True)
    then show ?thesis using assms by simp
  next
    case 2
    have s': "?s = s\<lparr>queues := (queues s)(?c \<mapsto> q\<lparr>q_items := q_items q @ [p]\<rparr>)\<rparr>"
      unfolding send by (simp only: 2 if_True if_False)
    have same: "accepted ?s = accepted s" "known ?s = known s" "live ?s = live s" "over ?s = over s"
      by (auto simp: accepted_def known_def live_def over_def s')
    have "q_open q = (\<exists>t. n_tasks s ?c = Some t \<and> \<not> t_finished t)" using ok(3) q by (auto simp: queues_ok_def)
    then have "queues_ok ?s"
      unfolding queues_ok_def same using ok(3) q 2 acc by (auto simp: queues_ok_def s')
    moreover have "life_ok ?s" unfolding life_ok_def same using ok(1) by (simp add: life_ok_def s')
    moreover have "entities_ok ?s" using ok(2) by (simp add: entities_ok_def owner_def s')
    moreover have "kicks_ok ?s" unfolding kicks_ok_def same using ok(4) by (simp add: kicks_ok_def s')
    ultimately show ?thesis by (simp add: sys_ok_def)
  next
    case 3
    have s': "?s = s\<lparr>g_active := (g_active s)(e \<mapsto> sender\<lparr>snd_kicked := True\<rparr>), ch_kick := ch_kick s @ [?c]\<rparr>"
      unfolding send by (simp only: 3 if_False)
    have same: "accepted ?s = accepted s" "known ?s = known s" "live ?s = live s" "over ?s = over s"
      by (auto simp: accepted_def known_def live_def over_def s')
    have "queues_ok ?s" unfolding queues_ok_def same using ok(3) by (simp add: queues_ok_def s')
    moreover have "life_ok ?s" unfolding life_ok_def same using ok(1) by (simp add: life_ok_def s')
    moreover have "entities_ok ?s" using ok(2) act Some by (auto simp: entities_ok_def owner_def s')
    moreover have "kicks_ok ?s"
    proof -
      have inj: "c' = ?c" if "g_map s c' = Some e" for c'
        using that map ok(2) unfolding entities_ok_def by (metis option.inject)
      have fresh: "?c \<notin> set (ch_kick s)" "accepted s ?c" using kickable [OF ok(4,1) map act(1)] 3(1) by simp_all
      have fields: "ch_kick ?s = ch_kick s @ [?c]" "g_map ?s = g_map s" "n_connections ?s = n_connections s"
          "g_active ?s = (g_active s)(e \<mapsto> sender\<lparr>snd_kicked := True\<rparr>)"
        by (simp_all add: s')
      have old: "\<exists>e' k. g_map s c' = Some e' \<and> g_active ?s e' = Some k \<and> snd_kicked k"
        if kicked: "c' \<in> set (ch_kick ?s)" "c' \<in> known s" for c'
      proof (cases "c' = ?c")
        case True
        then show ?thesis using map fields by auto
      next
        case False
        then obtain e' k where k: "g_map s c' = Some e'" "g_active s e' = Some k" "snd_kicked k"
          using kicked ok(4) unfolding kicks_ok_def fields by auto
        moreover have "e' \<noteq> e" using k(1) inj False by blast
        ultimately show ?thesis using fields(4) by auto
      qed
      have new: "c' \<in> set (ch_kick ?s) \<or> c' \<notin> n_connections s"
        if "g_map s c' = Some e'" "g_active ?s e' = Some k" "snd_kicked k" for c' e' k
      proof (cases "e' = e")
        case True
        then show ?thesis using inj that(1) fields(1) by auto
      next
        case False
        then have "c' \<in> set (ch_kick s) \<or> c' \<notin> n_connections s"
          using that ok(4) unfolding kicks_ok_def fields by (metis fun_upd_apply)
        then show ?thesis by (auto simp: fields(1))
      qed
      have "distinct (ch_kick ?s)" "\<forall>c \<in> set (ch_kick ?s). accepted s c"
        using ok(4) fresh by (auto simp: kicks_ok_def fields)
      then show ?thesis
        unfolding kicks_ok_def same fields(2,3) using old new by blast
    qed
    ultimately show ?thesis by (simp add: sys_ok_def)
  qed
qed


text \<open>The senders parked and taken.\<close>

lemma sync_fields [simp]:
  "g_map (sync s) = g_map s" "g_active (sync s) = g_active s" "g_clients (sync s) = g_clients s" "ch_connected (sync s) = []"
  "g_next_entity (sync s) = g_next_entity s" "ch_fallback (sync s) = ch_fallback s" "queues (sync s) = queues s"
  "n_connections (sync s) = n_connections s" "n_tasks (sync s) = n_tasks s" "ch_kick (sync s) = ch_kick s"
  "g_phase (sync s) = g_phase s" "g_sends (sync s) = g_sends s" "n_next_id (sync s) = n_next_id s" "n_ended (sync s) = n_ended s"
  "ch_disconnect (sync s) = ch_disconnect s"
  "g_pending (sync s) = g_pending s ++ map_of (rev (ch_connected s))"
  by (simp_all add: sync_def)

lemma sync_same [simp]:
  "known (sync s) = known s" "live (sync s) = live s" "accepted (sync s) = accepted s" "over (sync s) = over s"
  "owner (sync s) = owner s"
  by (auto simp: known_def live_def accepted_def over_def owner_def dom_map_of_conv_image_fst)

lemma sync_ok:
  assumes "sys_ok s"
  shows "sys_ok (sync s)"
proof -
  have ok: "life_ok s" "entities_ok s" "queues_ok s" "kicks_ok s" using assms(1) by (simp_all add: sys_ok_def)
  have "q = c" if "g_pending (sync s) c = Some q" for c q
    using that ok(2) by (auto simp: entities_ok_def map_add_Some_iff dest!: map_of_SomeD)
  then have "entities_ok (sync s)"
    using ok(2) unfolding entities_ok_def by simp
  moreover have "life_ok (sync s)" using ok(1) unfolding life_ok_def by simp
  moreover have "queues_ok (sync s)" using ok(3) unfolding queues_ok_def by simp
  moreover have "kicks_ok (sync s)" using ok(4) unfolding kicks_ok_def by simp
  ultimately show ?thesis by (simp add: sys_ok_def)
qed

lemma spawned_ok:
  assumes "sys_ok s" and "g_pending s c = Some c" and "g_map s c = None"
  defines "n \<equiv> g_next_entity s"
  shows "sys_ok (s\<lparr>g_pending := (g_pending s)(c := None), g_next_entity := n + 1, g_clients := (g_clients s)(n \<mapsto> new_client c),
    g_active := (g_active s)(n \<mapsto> \<lparr>snd_outgoing = c, snd_kicked = False\<rparr>), g_map := (g_map s)(c \<mapsto> n)\<rparr>)" (is "sys_ok ?s")
proof -
  have ok: "life_ok s" "entities_ok s" "queues_ok s" "kicks_ok s" using assms(1) by (simp_all add: sys_ok_def)
  have n: "owner s n = None" using ok(2) by (auto simp: entities_ok_def n_def)
  then have nomap: "g_map s x \<noteq> Some n" for x using ok(2) unfolding entities_ok_def by auto
  have owner: "owner ?s = (owner s)(n \<mapsto> c)" by (rule ext) (simp add: owner_def new_client_def)
  have noc: "owner s e \<noteq> Some c" for e using assms(3) ok(2) unfolding entities_ok_def by (metis option.distinct(1))
  have same: "known ?s = known s" "live ?s = live s" "accepted ?s = accepted s" "over ?s = over s"
    using assms(2) by (auto simp: known_def live_def accepted_def over_def)
  have "c \<in> known s" using assms(2) by (auto simp: known_def)
  then have nokick: "c \<notin> set (ch_kick s)" using ok(4) assms(3) unfolding kicks_ok_def by force
  have "entities_ok ?s"
    using ok(2) noc n nomap unfolding entities_ok_def owner
    by (auto simp: n_def less_Suc_eq)
  moreover have "life_ok ?s" using ok(1) unfolding life_ok_def same by simp
  moreover have "queues_ok ?s" using ok(3) unfolding queues_ok_def same by simp
  moreover have "kicks_ok ?s"
  proof -
    have "x \<noteq> c" if "x \<in> set (ch_kick s)" for x using nokick that by blast
    then show ?thesis
      using ok(4) nomap unfolding kicks_ok_def same
      by simp (metis option.inject option.distinct(1))
  qed
  ultimately show ?thesis by (simp add: sys_ok_def)
qed

lemma take_pending_found:
  assumes "sys_ok s" and "take_pending c s = (Some q, s')"
  obtains s1 where "s1 = s \<or> s1 = sync s" "g_pending s1 c = Some q" "s' = s1\<lparr>g_pending := (g_pending s1)(c := None)\<rparr>"
  using assms(2) that [of s] that [of "sync s"]
  by (cases "g_pending s c = None") (simp_all add: take_pending_def Let_def)

lemma client_entity_ok:
  assumes "client_entity c s = (r, s')" and "sys_ok s"
  shows "sys_ok s'" and "g_phase s' = g_phase s" and "g_sends s' = g_sends s" and "live s' = live s"
    and "known s' = known s" and "r = g_map s' c" and "r = None \<longleftrightarrow> c \<notin> live s"
proof -
  have known: "known x = live x" if "sys_ok x" for x :: "('a, 'b) system" using that by (simp add: sys_ok_def life_ok_def)
  have "sys_ok s' \<and> g_phase s' = g_phase s \<and> g_sends s' = g_sends s \<and> live s' = live s \<and> r = g_map s' c \<and> (r = None \<longleftrightarrow> c \<notin> live s)"
  proof (cases "g_map s c")
    case (Some e)
    then have "c \<in> known s" by (auto simp: known_def)
    moreover have "r = Some e" "s' = s" using assms(1) Some by (simp_all add: client_entity_def)
    ultimately show ?thesis using assms(2) known [OF assms(2)] Some by simp
  next
    case None
    obtain q s1 where t: "take_pending c s = (q, s1)" by fastforce
    show ?thesis
    proof (cases q)
      case None': None
      then have "g_pending (sync s) c = None" and s1: "s1 = sync s"
        using t by (auto simp: take_pending_def Let_def fun_upd_idem split: if_splits)
      then have "c \<notin> known (sync s)" using None by (auto simp: known_def simp del: sync_same(1) sync_fields(16)) 
      then have "c \<notin> live s" using known [OF assms(2)] by simp
      moreover have "r = None" "s' = sync s" using assms(1) None None' t s1 by (simp_all add: client_entity_def)
      ultimately show ?thesis using sync_ok [OF assms(2)] None by simp
    next
      case (Some q')
      then obtain s0 where s0: "s0 = s \<or> s0 = sync s" "g_pending s0 c = Some q'" "s1 = s0\<lparr>g_pending := (g_pending s0)(c := None)\<rparr>"
        using t take_pending_found assms(2) by metis
      then have ok0: "sys_ok s0" and g0: "g_map s0 c = None" using assms(2) sync_ok None by auto
      have q: "q' = c" using ok0 s0(2) by (auto simp: sys_ok_def entities_ok_def)
      have c: "c \<in> known s" using s0 by (auto simp: known_def sync_def map_add_Some_iff dest!: map_of_SomeD) force
      let ?n = "g_next_entity s0"
      have run: "client_entity c s = (Some ?n, s0\<lparr>g_pending := (g_pending s0)(c := None), g_next_entity := ?n + 1,
          g_clients := (g_clients s0)(?n \<mapsto> new_client c),
          g_active := (g_active s0)(?n \<mapsto> \<lparr>snd_outgoing = c, snd_kicked = False\<rparr>), g_map := (g_map s0)(c \<mapsto> ?n)\<rparr>)"
        using t Some None s0(3) q by (simp add: client_entity_def spawn_client_def register_sender_def)
      have "live s0 = live s" "g_phase s0 = g_phase s" "g_sends s0 = g_sends s" using s0(1) by auto
      moreover have r: "r = Some ?n" and s': "s' = s0\<lparr>g_pending := (g_pending s0)(c := None), g_next_entity := ?n + 1,
          g_clients := (g_clients s0)(?n \<mapsto> new_client c),
          g_active := (g_active s0)(?n \<mapsto> \<lparr>snd_outgoing = c, snd_kicked = False\<rparr>), g_map := (g_map s0)(c \<mapsto> ?n)\<rparr>"
        using run assms(1) by simp_all
      moreover have "sys_ok s'" unfolding s' by (rule spawned_ok [OF ok0 s0(2) [unfolded q] g0])
      moreover have "live s' = live s0" by (simp add: s' live_def over_def)
      ultimately show ?thesis using c known [OF assms(2)] by simp
    qed
  qed
  then show "sys_ok s'" "g_phase s' = g_phase s" "g_sends s' = g_sends s" "live s' = live s" "r = g_map s' c"
    "r = None \<longleftrightarrow> c \<notin> live s" "known s' = known s"
    using known assms(2) by auto
qed


text \<open>The phases of a tick.\<close>

lemma phase_ok:
  assumes "sys_ok s" and "d @ leaving ph = ch_disconnect s @ leaving (g_phase s)"
    and "\<And>cs. ph = Handling cs \<Longrightarrow> set cs \<inter> fst ` set (ch_connected s) = {}"
  shows "sys_ok (s\<lparr>g_phase := ph, ch_incoming := i, ch_disconnect := d\<rparr>)" (is "sys_ok ?s")
proof -
  have ok: "life_ok s" "entities_ok s" "queues_ok s" "kicks_ok s" using assms(1) by (simp_all add: sys_ok_def)
  have over: "over ?s = over s" using assms(2) by (simp add: over_def)
  have same: "known ?s = known s" "live ?s = live s" "accepted ?s = accepted s" "owner ?s = owner s"
    by (auto simp: known_def live_def accepted_def over owner_def fun_eq_iff)
  have "life_ok ?s" using ok(1) assms(3) unfolding life_ok_def same over by simp
  moreover have "entities_ok ?s" using ok(2) unfolding entities_ok_def same by simp
  moreover have "queues_ok ?s" using ok(3) unfolding queues_ok_def same by simp
  moreover have "kicks_ok ?s" using ok(4) unfolding kicks_ok_def same by simp
  ultimately show ?thesis by (simp add: sys_ok_def)
qed

lemma phase_only_ok:
  assumes "sys_ok s" and "leaving ph = leaving (g_phase s)"
    and "\<And>cs. ph = Handling cs \<Longrightarrow> set cs \<inter> fst ` set (ch_connected s) = {}"
  shows "sys_ok (s\<lparr>g_phase := ph\<rparr>)"
  using phase_ok [OF assms(1), of "ch_disconnect s" ph "ch_incoming s"] assms(2,3) by simp

lemma ingest_packet_ok:
  assumes "ingest_packet env m c p s = Some s'" and "sys_ok s"
  shows "sys_ok s'"
proof -
  obtain r s1 where c: "client_entity c s = (r, s1)" by fastforce
  then have ok: "sys_ok s1" using assms(2) client_entity_ok(1) by blast
  then show ?thesis
    using assms(1) dispatch_client_step client_step_ok
    by (fastforce simp: ingest_packet_def c split: option.splits sum.splits)
qed

lemma handle_disconnect_fields:
  shows "n_next_id (handle_disconnect c s) = n_next_id s" "n_connections (handle_disconnect c s) = n_connections s" "n_tasks (handle_disconnect c s) = n_tasks s" "n_ended (handle_disconnect c s) = n_ended s"
    "ch_connected (handle_disconnect c s) = ch_connected s" "ch_disconnect (handle_disconnect c s) = ch_disconnect s" "ch_kick (handle_disconnect c s) = ch_kick s"
    "ch_fallback (handle_disconnect c s) = ch_fallback s" "queues (handle_disconnect c s) = queues s" "g_phase (handle_disconnect c s) = g_phase s"
    "g_pending (handle_disconnect c s) = (g_pending s)(c := None)" "g_map (handle_disconnect c s) = (g_map s)(c := None)" "g_next_entity (handle_disconnect c s) = g_next_entity s"
    "g_active (handle_disconnect c s) = (case g_map s c of None \<Rightarrow> g_active s | Some e \<Rightarrow> (g_active s)(e := None))"
    "owner (handle_disconnect c s) = (case g_map s c of None \<Rightarrow> owner s | Some e \<Rightarrow> (owner s)(e := None))"
  by (auto simp: handle_disconnect_def detach_def Let_def owner_def fun_eq_iff split: option.splits)

lemma handle_disconnect_ok:
  assumes "sys_ok s" and phase: "g_phase s = Handling (c # cs)"
  shows "sys_ok (handle_disconnect c (s\<lparr>g_phase := Handling cs\<rparr>))" (is "sys_ok ?s")
proof -
  have ok: "life_ok s" "entities_ok s" "queues_ok s" "kicks_ok s" using assms(1) by (simp_all add: sys_ok_def)
  have owner: "owner (s\<lparr>g_phase := Handling cs\<rparr>) = owner s" by (simp add: owner_def fun_eq_iff)
  have fields: "n_next_id ?s = n_next_id s" "n_connections ?s = n_connections s" "n_tasks ?s = n_tasks s" "n_ended ?s = n_ended s"
      "ch_connected ?s = ch_connected s" "ch_disconnect ?s = ch_disconnect s" "ch_kick ?s = ch_kick s"
      "ch_fallback ?s = ch_fallback s" "queues ?s = queues s" "g_phase ?s = Handling cs"
      "g_pending ?s = (g_pending s)(c := None)" "g_map ?s = (g_map s)(c := None)" "g_next_entity ?s = g_next_entity s"
      "g_active ?s = (case g_map s c of None \<Rightarrow> g_active s | Some e \<Rightarrow> (g_active s)(e := None))"
      "owner ?s = (case g_map s c of None \<Rightarrow> owner s | Some e \<Rightarrow> (owner s)(e := None))"
    by (simp_all add: handle_disconnect_fields owner split: option.split)
  have unmapped: "owner s e \<noteq> Some c" if "g_map s c = None" for e
    using that ok(2) unfolding entities_ok_def by (metis option.distinct(1))
  have mapped: "(owner s e' = Some c) = (e' = e)" if "g_map s c = Some e" for e e'
    using that ok(2) unfolding entities_ok_def by (metis option.inject)
  have acc: "accepted ?s = accepted s" by (simp add: accepted_def fields fun_eq_iff)
  have split: "over s = n_ended s @ ch_disconnect s @ c # cs" "over ?s = n_ended s @ ch_disconnect s @ cs"
    by (simp_all add: over_def fields phase)
  have c: "c \<notin> fst ` set (ch_connected s)" "n_tasks s c = None" using ok(1) phase by (auto simp: life_ok_def over_def)
  have known: "known ?s = known s - {c}" using c by (auto simp: known_def fields)
  have live: "live ?s = live s - {c}"
    using ok(1) c unfolding live_def split life_ok_def fields by auto
  have "life_ok ?s"
    using ok(1) unfolding life_ok_def known live acc split fields by (auto simp: phase)
  moreover have "entities_ok ?s"
    using ok(2) unmapped mapped unfolding entities_ok_def fields by (auto split: option.splits)
  moreover have "queues_ok ?s" using ok(3) unfolding queues_ok_def acc fields by simp
  moreover have "kicks_ok ?s"
  proof -
    have other: "g_active ?s e = g_active s e" if "g_map s x = Some e" "x \<noteq> c" for x e
      using that ok(2) unfolding entities_ok_def fields by (auto split: option.splits)
    show ?thesis
      using ok(4) other unfolding kicks_ok_def known acc fields(2,7,12)
      by (simp add: fields(12)) (metis Diff_iff singletonI)
  qed
  ultimately show ?thesis by (simp add: sys_ok_def)
qed


section \<open>Runs\<close>

lemma perform_ok:
  assumes "perform env a s = Some s'" and "sys_ok s"
  shows "sys_ok s'"
proof (cases a)
  case Accept
  then show ?thesis using assms accept_ok by simp
next
  case ServerEnded
  then show ?thesis using assms server_ended_ok by simp
next
  case ServerKick
  then show ?thesis using assms server_kick_ok by simp
next
  case (TaskReceive online c p)
  then show ?thesis using assms task_receive_ok by simp
next
  case (TaskWrite c)
  then show ?thesis using assms task_write_ok by simp
next
  case (TaskWriteStatus c)
  then show ?thesis using assms task_write_status_ok by simp
next
  case (FinishTask c)
  then show ?thesis using assms finish_task_ok by simp
next
  case (TaskEnded c)
  then show ?thesis using assms task_ended_ok by simp
next
  case Sync
  then have "game_idle s Idle" "s' = sync s\<lparr>g_phase := Synced\<rparr>" using assms(1) by (simp_all split: if_splits)
  then show ?thesis
    using phase_only_ok [OF sync_ok [OF assms(2)], of Synced] by (simp add: game_idle_def)
next
  case (ReceivePackets n)
  then have "game_idle s Synced"
      "s' = s\<lparr>g_phase := Processing (take n (ch_incoming s)), ch_incoming := drop n (ch_incoming s)\<rparr>"
    using assms(1) by (simp_all split: if_splits)
  then show ?thesis
    using phase_ok [OF assms(2), of "ch_disconnect s" "Processing (take n (ch_incoming s))" "drop n (ch_incoming s)"]
    by (simp add: game_idle_def)
next
  case (IngestPacket m)
  then obtain c p ps where ph: "g_phase s = Processing ((c, p) # ps)"
      and run: "ingest_packet env m c p (s\<lparr>g_phase := Processing ps\<rparr>) = Some s'"
    using assms(1) by (auto split: if_splits phase.splits list.splits)
  show ?thesis
    using ingest_packet_ok [OF run] phase_only_ok [OF assms(2), of "Processing ps"] ph by simp
next
  case DrainDisconnects
  then have "game_idle s (Processing [])" "s' = s\<lparr>g_phase := Drained (ch_disconnect s), ch_disconnect := []\<rparr>"
    using assms(1) by (simp_all split: if_splits)
  then show ?thesis
    using phase_ok [OF assms(2), of "[]" "Drained (ch_disconnect s)" "ch_incoming s"] by (simp add: game_idle_def)
next
  case SyncAgain
  then obtain cs where ph: "g_phase s = Drained cs"
      and s': "s' = (if cs = [] then s\<lparr>g_phase := Handling []\<rparr> else sync s\<lparr>g_phase := Handling cs\<rparr>)"
    using assms(1) by (auto split: if_splits phase.splits)
  show ?thesis
    using phase_only_ok [OF assms(2), of "Handling []"] phase_only_ok [OF sync_ok [OF assms(2)], of "Handling cs"] ph s'
    by (cases "cs = []") simp_all
next
  case HandleDisconnect
  then obtain c cs where "g_phase s = Handling (c # cs)" "s' = handle_disconnect c (s\<lparr>g_phase := Handling cs\<rparr>)"
    using assms(1) by (auto split: if_splits phase.splits list.splits)
  then show ?thesis using handle_disconnect_ok [OF assms(2)] by simp
next
  case EndIngest
  then have "game_idle s (Handling [])" "s' = s\<lparr>g_phase := Idle\<rparr>" using assms(1) by (simp_all split: if_splits)
  then show ?thesis
    using phase_only_ok [OF assms(2), of Idle] by (simp add: game_idle_def)
next
  case Deliver
  then obtain e p sends where "g_sends s = (e, p) # sends" "s' = players_send e p (s\<lparr>g_sends := sends\<rparr>)"
    using assms(1) by (auto split: list.splits)
  moreover have "client_step s (s\<lparr>g_sends := sends\<rparr>)" by (simp add: client_step_def)
  ultimately show ?thesis using players_send_ok client_step_ok assms(2) by blast
next
  case (SystemSend e p)
  then have "s' = s\<lparr>g_sends := [(e, p)]\<rparr>" using assms(1) by (simp split: if_splits)
  moreover have "client_step s (s\<lparr>g_sends := [(e, p)]\<rparr>)" by (simp add: client_step_def)
  ultimately show ?thesis using client_step_ok assms(2) by blast
next
  case (SendKeepAlive now)
  then have "s' = keep_alive_tick now s" using assms(1) by (simp split: if_splits)
  then show ?thesis using client_step_ok client_step_tick assms(2) by blast
next
  case AllocateEntityId
  then have "s' = s\<lparr>g_next_minecraft_id := g_next_minecraft_id s + 1\<rparr>" using assms(1) by simp
  moreover have "client_step s (s\<lparr>g_next_minecraft_id := g_next_minecraft_id s + 1\<rparr>)" by (simp add: client_step_def)
  ultimately show ?thesis using client_step_ok assms(2) by blast
qed

lemma reachable_ok: "reachable env s \<Longrightarrow> sys_ok s"
proof (induction rule: reachable.induct)
  case reachable_start
  show ?case by (rule start_ok)
next
  case (reachable_step s a s')
  then show ?case by (blast intro: perform_ok)
qed

end
