(* ===== verification/Joining_Laws.thy ===== *)
theory Joining_Laws
  imports Joining
begin

text \<open>
  Joining the world: which chunks go to the client, in which order, and where the teleport that places the
  player stands among them; the tags that name entries of the registries just sent; keep-alives.
\<close>

section \<open>The chunks around the spawn point\<close>




lemma set_offsets: "set (chunk_offsets r) = {- sint r .. sint r} \<times> {- sint r .. sint r}"
  by (auto simp: chunk_offsets_def)

lemma set_chunks_in_radius:
  "set (chunks_in_radius p r) =
     (\<lambda>(dx, dz). \<lparr>cp_x = cp_x p + word_of_int dx, cp_z = cp_z p + word_of_int dz\<rparr>)
       ` ({- sint r .. sint r} \<times> {- sint r .. sint r})"
  by (simp add: chunks_in_radius_def set_offsets)


text \<open>The loaded chunks among \<open>ps\<close>, with their packets.\<close>

definition loaded_among :: "(chunk_pos \<Rightarrow> 'd option) \<Rightarrow> chunk_pos list \<Rightarrow> (chunk_pos \<times> 'd) list" where
  "loaded_among chunk ps = [(p, the (chunk p)). p \<leftarrow> ps, chunk p \<noteq> None]"

lemma loaded_among_simps [simp]:
  "loaded_among chunk [] = []"
  "loaded_among chunk (p # ps) = (case chunk p of Some d \<Rightarrow> [(p, d)] | None \<Rightarrow> []) @ loaded_among chunk ps"
  by (simp_all add: loaded_among_def split: option.split)





section \<open>Tags\<close>

lemma tag_indices_set:
  "set (tag_indices es is) = {of_nat n | n i. i \<in> set is \<and> position (\<lambda>e. re_id e = i) es = Some n}"
  by (induction "is") (auto split: option.splits)

end
