(* ===== verification/Connection_Safety.thy ===== *)
theory Connection_Safety
  imports Connection_Laws Joining_Laws
begin

text \<open>
  What holds in every run of \<open>Connections\<close>: connected clients are known to the game thread and gone ones leave
  nothing behind, packets reach their own client, queues stay bounded, and the connection states come in order.
\<close>

section \<open>The components of a client\<close>

inductive state_edge :: "protocol_state \<Rightarrow> protocol_state \<Rightarrow> bool" where
  edge_handshake: "state_edge Handshake st"
| edge_login: "state_edge Login Configuration"
| edge_configuration: "state_edge Configuration Play"

inductive_cases edge_from_play: "state_edge Play st"
inductive_cases edge_from_status: "state_edge Status st"
inductive_simps edge_from_login: "state_edge Login st"

text \<open>The components of a player, and a client that has them only while it plays.\<close>

definition in_world :: "'n net_client \<Rightarrow> bool" where
  "in_world c \<longleftrightarrow> cl_ready c \<or> cl_avatar c \<noteq> None \<or> cl_keep_alive c \<noteq> None"

definition client_ok :: "'n net_client \<Rightarrow> bool" where
  "client_ok c \<longleftrightarrow> (in_world c \<longrightarrow> cl_state c = Play)"

text \<open>What one action may do to the components of a client.\<close>

definition client_move :: "'n net_client \<Rightarrow> 'n net_client \<Rightarrow> bool" where
  "client_move c c' \<longleftrightarrow>
     cl_id c' = cl_id c \<and> (cl_state c' = cl_state c \<or> state_edge (cl_state c) (cl_state c')) \<and> (client_ok c \<longrightarrow> client_ok c')"

lemma client_move_refl [simp]: "client_move c c"
  by (auto simp: client_move_def)

lemmas client_defs = client_move_def client_ok_def in_world_def state_edge.simps

lemma handler_moves:
  "cl_state c = Handshake \<Longrightarrow> client_move c (handle_handshake h c)"
  "cl_state c = Login \<Longrightarrow> client_move c (fst (handle_login_start l c))"
  "cl_state c = Login \<Longrightarrow> client_move c (fst (handle_login_acknowledged c))"
  "client_move c (handle_client_information ci c)"
  "cl_state c = Configuration \<Longrightarrow> client_move c (fst (handle_finish_configuration cfg tree chunk spawn sc i c))"
  "cl_state c = Play \<Longrightarrow> client_move c (handle_player_loaded c)"
  "client_move c (handle_keep_alive now k c)"
  "client_move c (fst (keep_alive_one now c))"
  by (auto simp: client_defs handle_handshake_def handle_login_start_def
      handle_login_acknowledged_def handle_client_information_def handle_finish_configuration_def handle_player_loaded_def
      handle_keep_alive_def keep_alive_one_def Let_def split: option.splits prod.splits)

lemma keep_alive_one_state [simp]: "cl_state (fst (keep_alive_one now c)) = cl_state c"
  by (auto simp: keep_alive_one_def split: option.split)

definition moves :: "('d, 'n) system \<Rightarrow> ('d, 'n) system \<Rightarrow> bool" where
  "moves s s' \<longleftrightarrow> (\<forall>e c'. g_clients s' e = Some c' \<longrightarrow>
     (\<exists>c. (g_clients s e = Some c \<or> g_clients s e = None \<and> c = new_client (cl_id c')) \<and> client_move c c'))"

lemma moves_same: "g_clients s' = g_clients s \<Longrightarrow> moves s s'"
  unfolding moves_def by auto

lemma moves_respond:
  "g_clients s e = Some c \<Longrightarrow> client_move c (fst r) \<Longrightarrow> moves s (respond e r s)"
  unfolding moves_def respond_def by auto

lemma moves_fewer: "(\<And>e. g_clients s' e = None \<or> g_clients s' e = g_clients s e) \<Longrightarrow> moves s s'"
  unfolding moves_def by (metis client_move_refl option.distinct(1))

lemma dispatch_moves:
  assumes "dispatch_packet env m cid e p s = Some (Inr s')"
  shows "moves s s'"
proof -
  obtain c where c: "g_clients s e = Some c" using assms by (auto simp: dispatch_packet_def split: option.splits)
  have m: "client_move c (fst r) \<Longrightarrow> g_clients s1 = (g_clients s)(e \<mapsto> fst r) \<Longrightarrow> moves s s1"
    for r :: "'b net_client \<times> 'a clientbound list" and s1
    using c unfolding moves_def by auto
  show ?thesis
  proof (cases "cl_state c")
    case Handshake
    then obtain pk where "s' = handle_handshake_packet e c pk s"
      using assms by (auto simp: dispatch_packet_def c map_sum_Inr)
    then show ?thesis by (cases pk) (simp add: moves_respond [OF c] handler_moves(1) [OF Handshake])
  next
    case Status
    then obtain pk where "s' = handle_status (env_config env) e c pk s"
      using assms by (auto simp: dispatch_packet_def c map_sum_Inr)
    then show ?thesis by (cases pk) (simp_all add: moves_respond [OF c])
  next
    case Login
    then obtain pk where "s' = handle_login e c pk s"
      using assms by (auto simp: dispatch_packet_def c map_sum_Inr)
    then show ?thesis by (cases pk) (simp_all add: moves_respond [OF c] handler_moves(2,3) [OF Login])
  next
    case Configuration
    then obtain pk where s': "s' = handle_configuration env m cid e c pk s"
      using assms by (auto simp: dispatch_packet_def c map_sum_Inr)
    show ?thesis
    proof (cases pk)
      case (ClientInformation ci)
      then show ?thesis by (simp add: s' moves_respond [OF c] handler_moves(4))
    next
      case (PluginMessage pm)
      then show ?thesis by (simp add: s' moves_same)
    next
      case FinishConfigurationAcknowledged
      then show ?thesis by (intro m [OF handler_moves(5) [OF Configuration]]) (simp add: s' respond_def)
    next
      case (KnownPacks ks)
      then show ?thesis by (intro moves_same) (use c in \<open>auto simp: s' respond_def\<close>)
    qed
  next
    case Play
    then obtain pk where s': "s' = handle_play env m cid e c pk s"
      using assms by (auto simp: dispatch_packet_def c map_sum_Inr)
    show ?thesis
    proof (cases pk)
      case (KeepAlive i)
      then show ?thesis by (simp add: s' moves_respond [OF c] handler_moves(7))
    next
      case PlayerLoaded
      then show ?thesis using handler_moves(6) [OF Play] c unfolding moves_def by (auto simp: s' respond_def)
    next
      case (PlayInformation ci)
      then show ?thesis by (simp add: s' moves_respond [OF c] handler_moves(4))
    next
      case (OtherPlay q)
      then show ?thesis by (simp add: s' moves_same)
    qed
  next
    case Transfer
    then show ?thesis using assms by (simp add: dispatch_packet_def c moves_same)
  qed
qed


lemma dispatch_others:
  assumes "dispatch_packet env m cid e p s = Some (Inr s')" and "e' \<noteq> e"
  shows "g_clients s' e' = g_clients s e'"
proof -
  obtain c where c: "g_clients s e = Some c" using assms by (auto simp: dispatch_packet_def split: option.splits)
  have other: "g_clients (handle_handshake_packet e c hp s) e' = g_clients s e'" "g_clients (handle_status cfg e c sp s) e' = g_clients s e'"
      "g_clients (handle_login e c lp s) e' = g_clients s e'" "g_clients (handle_configuration env m cid e c cp s) e' = g_clients s e'"
      "g_clients (handle_play env m cid e c pp s) e' = g_clients s e'" for hp cfg sp lp cp pp
    using assms(2) by (cases hp; cases sp; cases lp; cases cp; cases pp; simp add: respond_def)+
  show ?thesis
  proof (cases "cl_state c")
    case Transfer
    then show ?thesis using assms(1) by (simp add: dispatch_packet_def c)
  qed (use assms(1) in \<open>simp add: dispatch_packet_def c map_sum_Inr, elim exE conjE, simp only: other\<close>)+
qed

lemma client_entity_clients:
  assumes "client_entity c s = (r, s')"
  shows "g_clients s' = g_clients s \<or> g_clients s' = (g_clients s)(g_next_entity s \<mapsto> new_client c)"
proof (cases "g_map s c")
  case (Some e)
  then show ?thesis using assms by (simp add: client_entity_def)
next
  case None
  obtain q s1 where t: "take_pending c s = (q, s1)" by fastforce
  then have "g_clients s1 = g_clients s" "g_next_entity s1 = g_next_entity s" by (auto simp: take_pending_def Let_def)
  with None t show ?thesis
    using assms by (auto simp: client_entity_def spawn_client_def register_sender_def split: option.splits)
qed

lemma ingest_packet_moves:
  assumes "ingest_packet env m c p s = Some s'" and "entities_ok s"
  shows "moves s s'"
proof -
  obtain r s1 where c: "client_entity c s = (r, s1)" by fastforce
  have fresh: "g_clients s (g_next_entity s) = None" using assms(2) by (auto simp: entities_ok_def owner_def)
  from client_entity_clients [OF c] have new: "g_clients s1 e = Some cl \<Longrightarrow>
      g_clients s e = Some cl \<or> g_clients s e = None \<and> cl = new_client (cl_id cl)" for e cl
    using fresh by (auto simp: new_client_def split: if_splits)
  have "s' = s1 \<or> moves s1 s'"
    using assms(1) dispatch_moves by (fastforce simp: ingest_packet_def c split: option.splits sum.splits)
  then have "moves s1 s'" using moves_same by auto
  show ?thesis
    unfolding moves_def
  proof (intro allI impI)
    fix e c'
    assume "g_clients s' e = Some c'"
    then obtain c0 where c0: "g_clients s1 e = Some c0 \<or> g_clients s1 e = None \<and> c0 = new_client (cl_id c')" "client_move c0 c'"
      using \<open>moves s1 s'\<close> unfolding moves_def by blast
    moreover have "cl_id c' = cl_id c0" using c0(2) by (simp add: client_move_def)
    moreover have "g_clients s e = None" if "g_clients s1 e = None"
      using that client_entity_clients [OF c] by (auto split: if_splits)
    ultimately show "\<exists>c. (g_clients s e = Some c \<or> g_clients s e = None \<and> c = new_client (cl_id c')) \<and> client_move c c'"
      using new by metis
  qed
qed

text \<open>Keep-alives leave the state of a client alone.\<close>

definition still :: "('d, 'n) system \<Rightarrow> ('d, 'n) system \<Rightarrow> bool" where
  "still s s' \<longleftrightarrow> (\<forall>e c'. g_clients s' e = Some c' \<longrightarrow>
     (\<exists>c. g_clients s e = Some c \<and> cl_id c' = cl_id c \<and> cl_state c' = cl_state c \<and> (client_ok c \<longrightarrow> client_ok c')))"

lemma still_moves: "still s s' \<Longrightarrow> moves s s'"
  unfolding still_def moves_def client_move_def by blast

lemma still_trans:
  assumes "still s s'" and "still s' s''"
  shows "still s s''"
  unfolding still_def
proof (intro allI impI)
  fix e c2
  assume "g_clients s'' e = Some c2"
  then obtain c1 where "g_clients s' e = Some c1"
      and c1: "cl_id c2 = cl_id c1" "cl_state c2 = cl_state c1" "client_ok c1 \<longrightarrow> client_ok c2"
    using assms(2) unfolding still_def by blast
  then show "\<exists>c. g_clients s e = Some c \<and> cl_id c2 = cl_id c \<and> cl_state c2 = cl_state c \<and> (client_ok c \<longrightarrow> client_ok c2)"
    using assms(1) unfolding still_def by (metis c1)
qed

lemma still_keep_alive: "still s (send_keep_alive now es s)"
proof (induction es arbitrary: s)
  case (Cons e es)
  have one: "cl_id (fst (keep_alive_one now c)) = cl_id c" "client_ok c \<Longrightarrow> client_ok (fst (keep_alive_one now c))" for c :: "'b net_client"
    using handler_moves(8) [of c now] by (auto simp: client_move_def)
  have "still s (case g_clients s e of None \<Rightarrow> s | Some c \<Rightarrow> respond e (keep_alive_one now c) s)"
    using one by (auto simp: still_def respond_def split: option.split)
  from still_trans [OF this Cons.IH] show ?case by simp
qed (simp add: still_def)

lemma players_send_clients [simp]: "g_clients (players_send e p s) = g_clients s"
  by (auto simp: players_send_def deliver_def split: option.split)

lemma net_clients:
  "accept s = Some s' \<Longrightarrow> g_clients s' = g_clients s"
  "server_ended s = Some s' \<Longrightarrow> g_clients s' = g_clients s"
  "server_kick s = Some s' \<Longrightarrow> g_clients s' = g_clients s"
  "task_write c s = Some s' \<Longrightarrow> g_clients s' = g_clients s"
  "task_write_status c s = Some s' \<Longrightarrow> g_clients s' = g_clients s"
  "finish_task c s = Some s' \<Longrightarrow> g_clients s' = g_clients s"
  "task_ended c s = Some s' \<Longrightarrow> g_clients s' = g_clients s"
  by (auto simp: accept_def server_ended_def server_kick_def task_write_def task_write_status_def finish_task_def
      task_ended_def Let_def split: if_splits option.splits list.splits)

lemma still_same: "g_clients s' = g_clients s \<Longrightarrow> still s s'"
  unfolding still_def by auto

lemma still_fewer: "(\<And>e. g_clients s' e = None \<or> g_clients s' e = g_clients s e) \<Longrightarrow> still s s'"
  unfolding still_def by (metis option.distinct(1))

text \<open>Only the handling of a packet moves a client.\<close>

lemma perform_still:
  assumes "perform env a s = Some s'" and "\<And>m. a \<noteq> IngestPacket m"
  shows "still s s'"
proof (cases a)
  case (IngestPacket m)
  then show ?thesis using assms(2) by blast
next
  case (TaskReceive online c p)
  then have "task_receive env online c p s = Some s'" using assms(1) by simp
  then show ?thesis
    by (rule task_receive_cases) (auto simp: net_clients still_same)
next
  case HandleDisconnect
  then obtain c cs where "s' = handle_disconnect c (s\<lparr>g_phase := Handling cs\<rparr>)"
    using assms(1) by (auto split: if_splits phase.splits list.splits)
  then show ?thesis
    by (intro still_fewer) (auto simp: handle_disconnect_def detach_def Let_def split: option.split)
next
  case (SendKeepAlive now)
  then have "s' = keep_alive_tick now s" using assms(1) by (simp split: if_splits)
  then show ?thesis
    using still_keep_alive [of "s\<lparr>g_ticks_since_last := 0\<rparr>"]
    by (auto simp: keep_alive_tick_def Let_def still_def)
next
  case Deliver
  then show ?thesis using assms(1) by (auto intro!: still_same split: list.splits)
next
  case SyncAgain
  then show ?thesis using assms(1) by (auto intro!: still_same split: if_splits phase.splits)
qed (use assms(1) net_clients in \<open>auto intro!: still_same split: if_splits\<close>)

lemma perform_moves:
  assumes "perform env a s = Some s'" and "entities_ok s"
  shows "moves s s'"
proof (cases "\<exists>m. a = IngestPacket m")
  case True
  then obtain m c p ps where "ingest_packet env m c p (s\<lparr>g_phase := Processing ps\<rparr>) = Some s'"
    using assms(1) by (auto split: if_splits phase.splits list.splits)
  moreover have "entities_ok (s\<lparr>g_phase := Processing ps\<rparr>)" using assms(2) by (simp add: entities_ok_def owner_def)
  ultimately have "moves (s\<lparr>g_phase := Processing ps\<rparr>) s'" by (rule ingest_packet_moves)
  then show ?thesis by (simp add: moves_def)
next
  case False
  then show ?thesis using still_moves [OF perform_still [OF assms(1)]] by blast
qed

text \<open>The packets the game thread has not handled yet, in the order it will.\<close>

definition waiting :: "('d, 'n) system \<Rightarrow> (u32 \<times> packet) list" where
  "waiting s = (case g_phase s of Processing ps \<Rightarrow> ps | _ \<Rightarrow> []) @ ch_incoming s"

lemma client_entity_incoming:
  assumes "client_entity c s = (r, s')"
  shows "ch_incoming s' = ch_incoming s \<and> g_phase s' = g_phase s"
proof (cases "g_map s c")
  case None
  obtain q s1 where t: "take_pending c s = (q, s1)" by fastforce
  then have "ch_incoming s1 = ch_incoming s \<and> g_phase s1 = g_phase s" by (auto simp: take_pending_def sync_def Let_def)
  with None t show ?thesis
    using assms by (auto simp: client_entity_def spawn_client_def register_sender_def split: option.splits)
qed (use assms in \<open>simp add: client_entity_def\<close>)

lemma players_send_waiting [simp]: "waiting (players_send e p s) = waiting s"
  by (auto simp: waiting_def players_send_def deliver_def split: option.split)

lemma send_keep_alive_waiting: "waiting (send_keep_alive now es s) = waiting s"
proof -
  note frame = client_step_frame [OF client_step_keep_alive [of s now es]]
  show ?thesis using frame by (simp add: waiting_def)
qed

lemma ingest_packet_waiting:
  assumes "ingest_packet env m c p s = Some s'"
  shows "waiting s' = waiting s"
proof -
  obtain r s1 where ce: "client_entity c s = (r, s1)" by fastforce
  then have s1: "waiting s1 = waiting s" using client_entity_incoming [OF ce] by (simp add: waiting_def)
  show ?thesis
  proof (cases "s' = s1")
    case False
    then obtain e where "dispatch_packet env m c e p s1 = Some (Inr s')"
      using assms by (auto simp: ingest_packet_def ce split: option.splits sum.splits)
    note step = dispatch_client_step [OF this]
    show ?thesis using s1 client_step_frame(6,11) [OF step] by (simp add: waiting_def)
  qed (use s1 in simp)
qed

lemma task_receive_waiting:
  "task_receive env online c p s = Some s' \<Longrightarrow> \<exists>new. waiting s' = waiting s @ new"
  by (auto simp: waiting_def task_receive_def finish_task_def Let_def split: option.splits if_splits sum.splits status_action.splits
      prod.splits)

lemma net_waiting:
  "accept s = Some s' \<Longrightarrow> waiting s' = waiting s"
  "server_ended s = Some s' \<Longrightarrow> waiting s' = waiting s"
  "server_kick s = Some s' \<Longrightarrow> waiting s' = waiting s"
  "task_write c s = Some s' \<Longrightarrow> waiting s' = waiting s"
  "task_write_status c s = Some s' \<Longrightarrow> waiting s' = waiting s"
  "finish_task c s = Some s' \<Longrightarrow> waiting s' = waiting s"
  "task_ended c s = Some s' \<Longrightarrow> waiting s' = waiting s"
  by (auto simp: accept_def server_ended_def server_kick_def task_write_def task_write_status_def finish_task_def
      task_ended_def waiting_def Let_def split: if_splits option.splits list.splits)

lemma perform_waiting:
  assumes "perform env a s = Some s'"
  shows "case a of IngestPacket m \<Rightarrow> \<exists>x. waiting s = x # waiting s' | _ \<Rightarrow> \<exists>new. waiting s' = waiting s @ new"
proof (cases a)
  case (IngestPacket m)
  then obtain c p ps where run: "g_phase s = Processing ((c, p) # ps)"
      "ingest_packet env m c p (s\<lparr>g_phase := Processing ps\<rparr>) = Some s'"
    using assms by (auto split: if_splits phase.splits list.splits)
  from ingest_packet_waiting [OF run(2)] run(1) IngestPacket show ?thesis by (simp add: waiting_def)
next
  case (TaskReceive online c p)
  then show ?thesis using assms task_receive_waiting by simp
next
  case HandleDisconnect
  then show ?thesis using assms
    by (auto simp: waiting_def handle_disconnect_def detach_def Let_def split: if_splits phase.splits list.splits option.splits)
next
  case (SendKeepAlive now)
  then have "s' = keep_alive_tick now s" using assms by (simp split: if_splits)
  then show ?thesis using SendKeepAlive client_step_frame(6,11) [OF client_step_tick [of s now]] by (simp add: waiting_def)
next
  case Deliver
  then obtain e p sends where "s' = players_send e p (s\<lparr>g_sends := sends\<rparr>)"
    using assms by (auto split: list.splits)
  then show ?thesis using Deliver by (simp, simp add: waiting_def)
next
  case Sync
  then show ?thesis using assms by (auto simp: waiting_def game_idle_def sync_def split: if_splits phase.splits)
next
  case (ReceivePackets n)
  then show ?thesis using assms by (auto simp: waiting_def game_idle_def sync_def split: if_splits phase.splits)
next
  case DrainDisconnects
  then show ?thesis using assms by (auto simp: waiting_def game_idle_def sync_def split: if_splits phase.splits)
next
  case SyncAgain
  then show ?thesis using assms by (auto simp: waiting_def game_idle_def sync_def split: if_splits phase.splits)
next
  case EndIngest
  then show ?thesis using assms by (auto simp: waiting_def game_idle_def sync_def split: if_splits phase.splits)
next
  case (SystemSend e p)
  then show ?thesis using assms by (auto simp: waiting_def game_idle_def sync_def split: if_splits phase.splits)
next
  case AllocateEntityId
  then show ?thesis using assms by (auto simp: waiting_def game_idle_def sync_def split: if_splits phase.splits)
qed (use assms in \<open>auto dest!: net_waiting\<close>)

lemma unowned: "entities_ok s \<Longrightarrow> g_map s c = None \<Longrightarrow> owner s e \<noteq> Some c"
  unfolding entities_ok_def by (metis option.distinct(1))

lemma reachable_entities: "reachable env s \<Longrightarrow> entities_ok s"
  using reachable_ok sys_ok_def by blast

lemma reachable_client_ok:
  assumes "reachable env s" and "g_clients s e = Some c"
  shows "client_ok c"
  using assms
proof (induction arbitrary: e c rule: reachable.induct)
  case reachable_start
  then show ?case by (simp add: start_def)
next
  case (reachable_step s a s')
  have "moves s s'" using perform_moves [OF reachable_step.hyps(2) reachable_entities [OF reachable_step.hyps(1)]] .
  then obtain c0 where c0: "g_clients s e = Some c0 \<or> c0 = new_client (cl_id c)" "client_move c0 c"
    using reachable_step.prems unfolding moves_def by blast
  have "client_ok (new_client i)" for i by (simp add: client_ok_def in_world_def new_client_def)
  then have "client_ok c0" using c0(1) reachable_step.IH by metis
  then show ?case using c0(2) by (simp add: client_move_def)
qed

lemma reachable_run: "perform_all env as s = Some s' \<Longrightarrow> reachable env s \<Longrightarrow> reachable env s'"
  by (induction "as" arbitrary: s) (auto simp: bind_eq_Some_conv intro: reachable_step)

section \<open>A small server for the witnesses\<close>

text \<open>Nothing around its spawn point is loaded.\<close>

definition sample_env :: "(unit, unit) env" where
  "sample_env = \<lparr>env_memory = (\<lambda>_. True), env_pack_size = 72,
     env_config = \<lparr>sc_hardcore = False, sc_max_players = 20, sc_motd = [], sc_view_distance = 10, sc_simulation_distance = 10,
       sc_game_mode = 0, sc_initial_chunk_radius = 2, sc_max_packets_per_tick = 1000, sc_packet_ingest_budget_ms = 4\<rparr>,
     env_registries = [], env_tagged = [], env_command_tree = (), env_spawn = (0, 0, 0), env_spawn_chunk = \<lparr>cp_x = 0, cp_z = 0\<rparr>,
     env_decode_other = (\<lambda>_. None), env_handle_other = (\<lambda>_ _. [])\<rparr>"

definition empty_packet :: packet where
  "empty_packet = \<lparr>packet_bytes = [], packet_limits = default_limits\<rparr>"

definition first_packet_run :: "unit action list" where
  "first_packet_run = [Accept, TaskReceive 0 1 empty_packet, Sync, ReceivePackets 1]"

definition disconnect_run :: "unit action list" where
  "disconnect_run = [Accept, FinishTask 1, TaskEnded 1, ServerEnded, Sync, ReceivePackets 0, DrainDisconnects, SyncAgain,
     HandleDisconnect, EndIngest]"

lemma varint_eof: "remaining d = [] \<Longrightarrow> \<exists>e d'. decode_varint32 d = (Inl e, d')"
  by (simp add: decode_varint32_def decode_VarI32_def decode_def dec_bind_def dec_map_def take_bytes_def eval_nat_numeral Let_def)

lemma empty_undecodable: "isl (packet_decode (\<lambda>_. True) (decode_tagged variants) empty_packet)"
proof -
  let ?d = "new_decoder (\<lambda>_. True) [] default_limits"
  have "\<exists>e d'. decode (decode_tagged variants) ?d = (Inl e, d')"
    using varint_eof [of "?d\<lparr>depth := depth ?d + 1\<rparr>"]
    by (auto simp: decode_def decode_tagged_def dec_bind_def new_decoder_def)
  then show ?thesis by (auto simp: packet_decode_def decode_exact_def empty_packet_def dec_bind_def)
qed

lemma empty_is_forwarded:
  "handle_status_packet (\<lambda>_. True) response empty_packet FastHandshake = (Inr Forward, FastHandshake)"
  using empty_undecodable [of "\<lambda>i. if i = 0 then Some (dec_map PHandshake (decode decode_handshake)) else None"]
  by (cases "packet_decode (\<lambda>_. True) decode_handshake_packet empty_packet")
    (simp_all add: handle_status_packet_def decode_handshake_packet_def)

lemmas run_simps = accept_def server_ended_def finish_task_def task_ended_def task_receive_def game_idle_def sync_def
  receive_allowed_def handle_disconnect_def detach_def start_def live_def over_def sample_env_def empty_is_forwarded Let_def

lemma first_packet_runs:
  "\<exists>s. perform_all sample_env first_packet_run (start :: (unit, unit) system) = Some s \<and> g_phase s = Processing [(1, empty_packet)] \<and>
     g_sends s = [] \<and> 1 \<in> live s \<and> g_map s 1 = None"
  by (simp add: first_packet_run_def run_simps)

lemma disconnect_runs:
  "\<exists>s. perform_all sample_env disconnect_run (start :: (unit, unit) system) = Some s \<and> 1 \<notin> live s \<and> n_next_id s = 2"
  by (simp add: disconnect_run_def run_simps)

lemma empty_changes_nothing:
  "g_clients s e = Some (new_client c) \<Longrightarrow> \<exists>err. dispatch_packet sample_env m cid e empty_packet s = Some (Inl err)"
  using empty_undecodable [of "\<lambda>i. if i = 0 then Some (dec_map PHandshake (decode decode_handshake)) else None"]
  by (cases "packet_decode (\<lambda>_. True) decode_handshake_packet empty_packet")
    (simp_all add: dispatch_packet_def decode_handshake_packet_def new_client_def sample_env_def)

definition sample_moment :: "unit moment" where
  "sample_moment = \<lparr>m_now = 0, m_chunk = (\<lambda>_. None)\<rparr>"

lemma first_packet_handled:
  "\<exists>s s' :: (unit, unit) system. perform_all sample_env first_packet_run start = Some s \<and>
     perform sample_env (IngestPacket sample_moment) s = Some s' \<and> g_clients s' 0 = Some (new_client 1)"
proof -
  obtain s :: "(unit, unit) system" where run: "perform_all sample_env first_packet_run start = Some s"
    and phase: "g_phase s = Processing [(1, empty_packet)]" "g_sends s = []"
    and fresh: "g_map s 1 = None" "g_next_entity s = 0" "g_pending s 1 = Some 1"
    by (simp add: first_packet_run_def run_simps)
  let ?s0 = "s\<lparr>g_phase := Processing []\<rparr>"
  obtain s1 where ce: "client_entity 1 ?s0 = (Some 0, s1)" "g_clients s1 0 = Some (new_client 1)"
    using fresh by (simp add: client_entity_def take_pending_def spawn_client_def register_sender_def Let_def)
  obtain err where "dispatch_packet sample_env sample_moment 1 0 empty_packet s1 = Some (Inl err)"
    using empty_changes_nothing ce(2) by blast
  then have "perform sample_env (IngestPacket sample_moment) s = Some s1"
    using phase ce(1) by (simp add: ingest_packet_def)
  then show ?thesis using run ce(2) by blast
qed

section \<open>Connected and gone clients\<close>

text \<open>C18: Once the disconnect of a client has been handled the game thread holds nothing of it: no parked or active
  sender, no entity, and a packet of it that is still in the channel changes no entity and sends nothing.\<close>

theorem gone_clients_leave_nothing:
  assumes "reachable env s" and "c \<notin> live s"
  shows "c \<notin> fst ` set (ch_connected s) \<and> g_pending s c = None \<and> g_map s c = None \<and>
    (\<forall>e cl. g_clients s e = Some cl \<longrightarrow> cl_id cl \<noteq> c) \<and>
    (\<forall>e sender. g_active s e = Some sender \<longrightarrow> snd_outgoing sender \<noteq> c) \<and>
    (g_phase s = Processing ((c, p) # ps) \<longrightarrow> g_sends s = [] \<longrightarrow>
      (\<exists>s'. perform env (IngestPacket m) s = Some s' \<and> g_clients s' = g_clients s \<and> g_map s' = g_map s \<and>
        g_sends s' = [] \<and> g_events s' = g_events s))"
proof -
  have ok: "sys_ok s" using assms(1) by (rule reachable_ok)
  then have life: "known s = live s" and ent: "entities_ok s" by (simp_all add: sys_ok_def life_ok_def)
  have unknown: "c \<notin> fst ` set (ch_connected s)" "g_pending s c = None" "g_map s c = None"
    using assms(2) unfolding life [symmetric] by (auto simp: known_def)
  have noowner: "owner s e \<noteq> Some c" for e using unowned [OF ent unknown(3)] .
  have clients: "cl_id cl \<noteq> c" if "g_clients s e = Some cl" for e cl
    using noowner [of e] that by (simp add: owner_def)
  have active: "snd_outgoing sender \<noteq> c" if "g_active s e = Some sender" for e sender
    using noowner [of e] that ent unfolding entities_ok_def by (metis option.simps(9))
  let ?s = "s\<lparr>g_phase := Processing ps\<rparr>"
  have drop: "client_entity c ?s = (None, sync ?s\<lparr>g_pending := (g_pending (sync ?s))(c := None)\<rparr>)"
  proof -
    have "map_of (rev (ch_connected s)) c = None"
      using unknown(1) by (simp add: map_of_eq_None_iff)
    then have "(g_pending s ++ map_of (rev (ch_connected s))) c = None" using unknown(2) by simp
    then show ?thesis using unknown by (simp add: client_entity_def take_pending_def Let_def del: map_add_None)
  qed
  have "\<exists>s'. perform env (IngestPacket m) s = Some s' \<and> g_clients s' = g_clients s \<and> g_map s' = g_map s \<and>
      g_sends s' = [] \<and> g_events s' = g_events s"
    if "g_phase s = Processing ((c, p) # ps)" "g_sends s = []"
    using that by (simp add: ingest_packet_def drop sync_def)
  then show ?thesis using unknown clients active by blast
qed

lemma gone_clients_leave_nothing_witness:
  "\<exists>s :: (unit, unit) system. reachable sample_env s \<and> n_next_id s = 2 \<and> g_pending s 1 = None \<and> g_map s 1 = None"
proof -
  obtain s :: "(unit, unit) system" where s: "perform_all sample_env disconnect_run start = Some s" "1 \<notin> live s" "n_next_id s = 2"
    using disconnect_runs by blast
  have "reachable sample_env s" using reachable_run [OF s(1) reachable_start] .
  then show ?thesis using gone_clients_leave_nothing [OF _ s(2)] s(3) by blast
qed

text \<open>Handling the packet of a connected client, step by step.\<close>

lemma ingest_connected:
  assumes "reachable env s" and "c \<in> live s" and "g_phase s = Processing ((c, p) # ps)" and "g_sends s = []"
    and "s1 = snd (client_entity c (s\<lparr>g_phase := Processing ps\<rparr>))"
  shows "\<exists>e s' res. perform env (IngestPacket m) s = Some s' \<and> g_phase s' = Processing ps \<and> g_map s1 c = Some e \<and> g_map s' c = Some e \<and>
    g_clients s1 = (g_clients s)(e \<mapsto> (case g_map s c of None \<Rightarrow> new_client c | Some e0 \<Rightarrow> the (g_clients s e0))) \<and>
    dispatch_packet env m c e p s1 = Some res \<and> s' = (case res of Inl err \<Rightarrow> s1 | Inr s2 \<Rightarrow> s2) \<and>
    (\<exists>cl. g_clients s' e = Some cl \<and>
       client_move (case g_map s c of None \<Rightarrow> new_client c | Some e0 \<Rightarrow> the (g_clients s e0)) cl) \<and>
    (\<forall>e'. e' \<noteq> e \<longrightarrow> g_clients s' e' = g_clients s e')"
proof -
  let ?s = "s\<lparr>g_phase := Processing ps\<rparr>" and ?cl = "case g_map s c of None \<Rightarrow> new_client c | Some e0 \<Rightarrow> the (g_clients s e0)"
  have ok: "sys_ok ?s"
    using phase_only_ok [OF reachable_ok [OF assms(1)], of "Processing ps"] assms(3) by simp
  obtain r where ce: "client_entity c ?s = (r, s1)" using assms(5) by (metis prod.collapse)
  have "c \<in> live ?s" using assms(2,3) by (simp add: live_def over_def)
  then obtain e where r: "r = Some e" using client_entity_ok(7) [OF ce ok] by blast
  have ok1: "sys_ok s1" and map1: "g_map s1 c = Some e" and s1: "g_phase s1 = Processing ps"
    using client_entity_ok [OF ce ok] r by simp_all
  then have "owner s1 e = Some c" by (simp add: sys_ok_def entities_ok_def)
  then obtain cl1 where cl1: "g_clients s1 e = Some cl1" "cl_id cl1 = c" by (auto simp: owner_def)
  have new: "g_clients s1 = (g_clients s)(e \<mapsto> ?cl)"
  proof (cases "g_map s c")
    case (Some e0)
    then have "s1 = ?s" "e = e0" using ce r by (simp_all add: client_entity_def)
    with Some cl1 show ?thesis by auto
  next
    case None
    have un: "owner ?s e \<noteq> Some c" using unowned [of ?s c e] ok None by (simp add: sys_ok_def)
    then have "g_clients s1 \<noteq> g_clients s" using cl1 by (auto simp: owner_def)
    then have "g_clients s1 = (g_clients s)(g_next_entity s \<mapsto> new_client c)"
      using client_entity_clients [OF ce] by simp
    then show ?thesis using None cl1 un by (auto simp: owner_def split: if_splits)
  qed
  then have cl1': "cl1 = ?cl" using cl1(1) by simp
  obtain res where d: "dispatch_packet env m c e p s1 = Some res"
    using cl1 by (auto simp: dispatch_packet_def)
  define s' where "s' = (case res of Inl err \<Rightarrow> s1 | Inr s2 \<Rightarrow> s2)"
  have run: "perform env (IngestPacket m) s = Some s'"
    using assms(3,4) by (simp add: ingest_packet_def ce r d s'_def split: sum.split)
  have "g_phase s' = Processing ps \<and> g_map s' c = Some e \<and> (\<exists>cl. g_clients s' e = Some cl \<and> client_move ?cl cl) \<and>
      (\<forall>e'. e' \<noteq> e \<longrightarrow> g_clients s' e' = g_clients s e')"
  proof (cases res)
    case (Inl err)
    then show ?thesis using s1 map1 new by (simp add: s'_def)
  next
    case (Inr s2)
    then have d2: "dispatch_packet env m c e p s1 = Some (Inr s')" using d by (simp add: s'_def)
    note frame = client_step_frame [OF dispatch_client_step [OF d2]]
    obtain cl where cl: "g_clients s' e = Some cl" using frame(16) [of e] cl1 by auto
    then have "client_move ?cl cl" using dispatch_moves [OF d2] cl1(1) cl1' unfolding moves_def by fastforce
    moreover have "g_clients s' e' = g_clients s e'" if "e' \<noteq> e" for e'
      using dispatch_others [OF d2 that] new that by simp
    ultimately show ?thesis using s1 map1 cl frame by simp
  qed
  then show ?thesis using run map1 new d s'_def by blast
qed

text \<open>C17: A packet of a connected client is never dropped. Between its arrival at the game thread and its handling it
  waits in line: no action of any thread removes, reorders or overtakes a waiting packet, and handling takes the first.
  Handling it finds the one entity of the client, or spawns it in the handshake state, and dispatches the packet to that
  entity, whose result is the new state; no other entity changes.\<close>

theorem packets_reach_their_client:
  assumes "reachable env s"
  shows "(case perform env a s of
      None \<Rightarrow> True
    | Some s' \<Rightarrow>
        (case a of
           IngestPacket m \<Rightarrow> \<exists>x. waiting s = x # waiting s'
         | _ \<Rightarrow> \<exists>new. waiting s' = waiting s @ new)) \<and>
    (c \<in> live s \<longrightarrow> g_phase s = Processing ((c, p) # ps) \<longrightarrow> g_sends s = [] \<longrightarrow>
      (let s1 = snd (client_entity c (s\<lparr>g_phase := Processing ps\<rparr>));
           cl0 = (case g_map s c of None \<Rightarrow> new_client c | Some e0 \<Rightarrow> the (g_clients s e0))
       in \<exists>e s' res. g_clients s1 = (g_clients s)(e \<mapsto> cl0) \<and> g_map s1 c = Some e \<and>
         dispatch_packet env m c e p s1 = Some res \<and>
         perform env (IngestPacket m) s = Some s' \<and> s' = (case res of Inl err \<Rightarrow> s1 | Inr s2 \<Rightarrow> s2) \<and>
         g_phase s' = Processing ps \<and> g_map s' c = Some e \<and> (\<exists>cl. g_clients s' e = Some cl \<and> client_move cl0 cl) \<and>
         (\<forall>e'. e' \<noteq> e \<longrightarrow> g_clients s' e' = g_clients s e')))"
proof (intro conjI impI)
  show "case perform env a s of None \<Rightarrow> True | Some s' \<Rightarrow>
        (case a of IngestPacket m \<Rightarrow> \<exists>x. waiting s = x # waiting s' | _ \<Rightarrow> \<exists>new. waiting s' = waiting s @ new)"
    by (cases "perform env a s") (simp_all add: perform_waiting)
next
  assume c: "c \<in> live s" "g_phase s = Processing ((c, p) # ps)" "g_sends s = []"
  show "let s1 = snd (client_entity c (s\<lparr>g_phase := Processing ps\<rparr>));
           cl0 = (case g_map s c of None \<Rightarrow> new_client c | Some e0 \<Rightarrow> the (g_clients s e0))
       in \<exists>e s' res. g_clients s1 = (g_clients s)(e \<mapsto> cl0) \<and> g_map s1 c = Some e \<and>
         dispatch_packet env m c e p s1 = Some res \<and>
         perform env (IngestPacket m) s = Some s' \<and> s' = (case res of Inl err \<Rightarrow> s1 | Inr s2 \<Rightarrow> s2) \<and>
         g_phase s' = Processing ps \<and> g_map s' c = Some e \<and> (\<exists>cl. g_clients s' e = Some cl \<and> client_move cl0 cl) \<and>
         (\<forall>e'. e' \<noteq> e \<longrightarrow> g_clients s' e' = g_clients s e')"
    using ingest_connected [OF assms c refl, of m] unfolding Let_def by blast
qed

lemma packets_reach_their_client_witness:
  "\<exists>(s :: (unit, unit) system) s' e cl. reachable sample_env s \<and> g_map s 1 = None \<and>
     perform sample_env (IngestPacket sample_moment) s = Some s' \<and> g_map s' 1 = Some e \<and> g_clients s' e = Some cl \<and>
     client_move (new_client 1) cl"
proof -
  obtain s :: "(unit, unit) system" where s: "perform_all sample_env first_packet_run start = Some s"
      "g_phase s = Processing [(1, empty_packet)]" "g_sends s = []" "1 \<in> live s" "g_map s 1 = None"
    using first_packet_runs by blast
  have r: "reachable sample_env s" using reachable_run [OF s(1) reachable_start] .
  from packets_reach_their_client [OF r, of undefined 1 empty_packet "[]" sample_moment] s(2-5)
  obtain s' e cl where "perform sample_env (IngestPacket sample_moment) s = Some s'" "g_map s' 1 = Some e"
      "g_clients s' e = Some cl" "client_move (new_client 1) cl"
    unfolding Let_def by auto
  then show ?thesis using r s(5) by blast
qed

section \<open>Entities, queues and kicks\<close>

text \<open>C22: The map from client ids to entities is exact: it and the entities' ids agree one to one, every client entity
  has a sender and nothing else has, what is sent to an entity can only enter the queue of its own client, and no
  packet takes the fallback channel nobody reads.\<close>

theorem clients_and_entities_agree:
  assumes "reachable env s"
  shows "(g_map s c = Some e \<longleftrightarrow> (\<exists>cl. g_clients s e = Some cl \<and> cl_id cl = c)) \<and>
    (g_active s e = None \<longleftrightarrow> g_clients s e = None) \<and>
    (\<forall>c'. g_map s c' \<noteq> Some e \<longrightarrow> queues (players_send e p s) c' = queues s c') \<and>
    ch_fallback (players_send e p s) = []"
proof -
  have ent: "entities_ok s" using assms by (rule reachable_entities)
  then have act: "map_option snd_outgoing (g_active s e) = owner s e" "ch_fallback s = []"
    and map: "\<And>c e. g_map s c = Some e \<longleftrightarrow> owner s e = Some c"
    unfolding entities_ok_def by auto
  have "queues (players_send e p s) c' = queues s c'" if "g_map s c' \<noteq> Some e" for c'
    using act that map by (auto simp: players_send_def deliver_def owner_def split: option.split)
  moreover have "ch_fallback (players_send e p s) = []"
    using act by (auto simp: players_send_def deliver_def owner_def split: option.split)
  moreover have "g_active s e = None \<longleftrightarrow> g_clients s e = None"
    using act(1) by (metis owner_def map_option_is_None)
  ultimately show ?thesis using map by (auto simp: owner_def)
qed


lemma first_packet_reachable:
  "\<exists>s :: (unit, unit) system. reachable sample_env s \<and> g_phase s = Processing [(1, empty_packet)] \<and> g_sends s = []"
  using first_packet_runs reachable_run [OF _ reachable_start] by blast

lemma clients_and_entities_agree_witness:
  "\<exists>s :: (unit, unit) system. reachable sample_env s \<and> g_phase s \<noteq> Idle \<and> (g_active s 0 = None \<longleftrightarrow> g_clients s 0 = None) \<and>
     ch_fallback (players_send 0 FinishConfiguration s) = []"
proof -
  obtain s :: "(unit, unit) system" where s: "reachable sample_env s" "g_phase s = Processing [(1, empty_packet)]"
    using first_packet_reachable by blast
  then show ?thesis using clients_and_entities_agree [OF s(1), of _ 0 FinishConfiguration] by (intro exI [of _ s]) simp
qed

text \<open>C20: No queue outgrows its capacity, and a client that cannot keep up is kicked once: there is at most one request
  to kick it, after it no packet is queued for it, and until the request is served or the task is aborted it is not
  forgotten.\<close>

theorem slow_clients_are_kicked_once:
  assumes "reachable env s"
  shows "(\<forall>c q. queues s c = Some q \<longrightarrow> length (q_items q) \<le> OUTBOUND_QUEUE_CAPACITY) \<and> distinct (ch_kick s) \<and>
    (\<forall>e sender. g_active s e = Some sender \<longrightarrow> snd_kicked sender \<longrightarrow>
       players_send e p s = s \<and>
       (snd_outgoing sender \<in> set (ch_kick s) \<or>
        (\<forall>t. n_tasks s (snd_outgoing sender) = Some t \<longrightarrow> t_aborted t)))"
proof -
  have ok: "entities_ok s" "queues_ok s" "kicks_ok s" using reachable_ok [OF assms] by (simp_all add: sys_ok_def)
  have "\<forall>c q. queues s c = Some q \<longrightarrow> length (q_items q) \<le> OUTBOUND_QUEUE_CAPACITY"
    using ok(2) unfolding queues_ok_def by blast
  moreover have "distinct (ch_kick s)" using ok(3) unfolding kicks_ok_def by blast
  moreover have "players_send e p s = s"
    "snd_outgoing sender \<in> set (ch_kick s) \<or> (\<forall>t. n_tasks s (snd_outgoing sender) = Some t \<longrightarrow> t_aborted t)"
    if k: "g_active s e = Some sender" "snd_kicked sender" for e sender
  proof -
    show "players_send e p s = s" using k by (simp add: players_send_def deliver_def split: option.split)
    have "owner s e = Some (snd_outgoing sender)" using ok(1) k unfolding entities_ok_def by (metis option.simps(9))
    then have "g_map s (snd_outgoing sender) = Some e" using ok(1) unfolding entities_ok_def by blast
    then have "snd_outgoing sender \<in> set (ch_kick s) \<or> snd_outgoing sender \<notin> n_connections s"
      using ok(3) k unfolding kicks_ok_def by blast
    then show "snd_outgoing sender \<in> set (ch_kick s) \<or> (\<forall>t. n_tasks s (snd_outgoing sender) = Some t \<longrightarrow> t_aborted t)"
      using ok(2) unfolding queues_ok_def by blast
  qed
  ultimately show ?thesis by blast
qed

lemma slow_clients_are_kicked_once_witness:
  "\<exists>s :: (unit, unit) system. reachable sample_env s \<and> g_phase s \<noteq> Idle \<and> distinct (ch_kick s)"
proof -
  obtain s :: "(unit, unit) system" where s: "reachable sample_env s" "g_phase s = Processing [(1, empty_packet)]"
    using first_packet_reachable by blast
  then show ?thesis using slow_clients_are_kicked_once [OF s(1)] by (intro exI [of _ s]) simp
qed

section \<open>Connection states\<close>

text \<open>The state a first packet puts a client in.\<close>

definition named_state :: "('d, 'q) env \<Rightarrow> packet \<Rightarrow> protocol_state" where
  "named_state env p =
     (case packet_decode (env_memory env) decode_handshake_packet p of
        Inl e \<Rightarrow> Handshake
      | Inr (PHandshake h) \<Rightarrow> hs_next_state h)"

lemma dispatch_handshake:
  assumes "dispatch_packet env m cid e p s = Some res" and "g_clients s e = Some c" and "cl_state c = Handshake"
    and "g_clients (case res of Inl err \<Rightarrow> s | Inr s2 \<Rightarrow> s2) e = Some c'"
  shows "cl_state c' = named_state env p"
proof (cases "packet_decode (env_memory env) decode_handshake_packet p")
  case (Inl err)
  then show ?thesis using assms by (auto simp: dispatch_packet_def named_state_def)
next
  case (Inr pk)
  then show ?thesis using assms
    by (cases pk) (auto simp: dispatch_packet_def named_state_def respond_def handle_handshake_def)
qed

lemma ingest_handshake:
  assumes "perform env (IngestPacket m) s = Some s'" and "reachable env s" and "g_phase s = Processing ((cid, p) # ps)"
    and "g_clients s' e = Some c'"
  shows "(g_map s' cid = Some e \<and> (case g_clients s e of None \<Rightarrow> True | Some c \<Rightarrow> cl_state c = Handshake) \<longrightarrow>
      cl_state c' = named_state env p) \<and>
    (g_map s' cid \<noteq> Some e \<longrightarrow> g_clients s e = Some c')"
proof (cases "cid \<in> live s")
  case True
  have sends: "g_sends s = []" using assms(1) by (simp split: if_splits)
  define s1 where "s1 = snd (client_entity cid (s\<lparr>g_phase := Processing ps\<rparr>))"
  let ?cl = "case g_map s cid of None \<Rightarrow> new_client cid | Some e0 \<Rightarrow> the (g_clients s e0)"
  obtain e1 res where s1: "g_map s' cid = Some e1" "g_clients s1 = (g_clients s)(e1 \<mapsto> ?cl)" "dispatch_packet env m cid e1 p s1 = Some res"
      "s' = (case res of Inl err \<Rightarrow> s1 | Inr s2 \<Rightarrow> s2)" "\<forall>e'. e' \<noteq> e1 \<longrightarrow> g_clients s' e' = g_clients s e'"
    using ingest_connected [OF assms(2) True assms(3) sends s1_def, of m] assms(1) by auto
  have ent: "entities_ok s" using assms(2) by (rule reachable_entities)
  have "cl_state c' = named_state env p" if e: "e1 = e" and h: "case g_clients s e of None \<Rightarrow> True | Some c \<Rightarrow> cl_state c = Handshake"
  proof -
    have "cl_state ?cl = Handshake"
    proof (cases "g_map s cid")
      case (Some e0)
      then have "owner s e0 = Some cid" using ent unfolding entities_ok_def by blast
      then obtain c0 where c0: "g_clients s e0 = Some c0" "cl_id c0 = cid" by (auto simp: owner_def)
      have "g_map s' = g_map s"
      proof -
        have eq: "s1 = s\<lparr>g_phase := Processing ps\<rparr>" using Some by (simp add: s1_def client_entity_def)
        show ?thesis
        proof (cases res)
          case (Inl err)
          then show ?thesis using s1(4) eq by simp
        next
          case (Inr s2)
          then have "dispatch_packet env m cid e1 p s1 = Some (Inr s')" using s1(3,4) by simp
          from client_step_frame(14) [OF dispatch_client_step [OF this]] show ?thesis using eq by simp
        qed
      qed
      then have "e0 = e" using s1(1) e Some by simp
      then show ?thesis using h Some c0 by simp
    qed (simp add: new_client_def)
    then show ?thesis
      using dispatch_handshake [OF s1(3), of ?cl c'] s1(2,4) assms(4) e by simp
  qed
  then show ?thesis using s1(1,5) assms(4) by (auto simp: fun_upd_apply)
next
  case False
  then have gone: "g_clients s' = g_clients s \<and> g_map s' cid = None"
  proof -
    have ok: "sys_ok (s\<lparr>g_phase := Processing ps\<rparr>)"
      using phase_only_ok [OF reachable_ok [OF assms(2)], of "Processing ps"] assms(3) by simp
    obtain r s1 where ce: "client_entity cid (s\<lparr>g_phase := Processing ps\<rparr>) = (r, s1)" by fastforce
    have "cid \<notin> live (s\<lparr>g_phase := Processing ps\<rparr>)" using False assms(3) by (simp add: live_def over_def)
    then have r: "r = None" "g_map s1 cid = None" using client_entity_ok(6,7) [OF ce ok] by simp_all
    have "ingest_packet env m cid p (s\<lparr>g_phase := Processing ps\<rparr>) = Some s'"
      using assms(1,3) by (simp split: if_splits)
    then have "s' = s1" using r ce by (simp add: ingest_packet_def)
    moreover have "g_clients s1 = g_clients s"
      using ce r(1) by (auto simp: client_entity_def take_pending_def sync_def spawn_client_def Let_def split: option.splits prod.splits if_splits)
    ultimately show ?thesis using r(2) by simp
  qed
  then show ?thesis using assms(4) by simp
qed

text \<open>C19: A client starts in the handshake state, and only the handling of its own packets moves it: its first packet
  that decodes puts it in exactly the state the handshake names, and after that it moves only from login to
  configuration and from configuration to play, so play and status are never left; only a playing client is ready, or
  has a place in the world.\<close>

theorem connection_states_in_order:
  assumes "reachable env s" and "perform env a s = Some s'" and "g_clients s' e = Some c'"
  shows "(case g_clients s e of
      None \<Rightarrow> cl_state c' = Handshake \<or> state_edge Handshake (cl_state c')
    | Some c \<Rightarrow> cl_id c' = cl_id c \<and> (cl_state c' = cl_state c \<or> state_edge (cl_state c) (cl_state c')) \<and>
        (cl_state c \<in> {Status, Play, Transfer} \<longrightarrow> cl_state c' = cl_state c)) \<and>
    (cl_ready c' \<or> cl_avatar c' \<noteq> None \<longrightarrow> cl_state c' = Play) \<and>
    (case a of
       IngestPacket m \<Rightarrow>
         (\<exists>cid p ps. g_phase s = Processing ((cid, p) # ps) \<and>
           (if g_map s' cid = Some e
            then (case g_clients s e of None \<Rightarrow> True | Some c \<Rightarrow> cl_state c = Handshake) \<longrightarrow> cl_state c' = named_state env p
            else g_clients s e = Some c'))
     | _ \<Rightarrow> \<exists>c. g_clients s e = Some c \<and> cl_state c' = cl_state c)"
proof -
  have "moves s s'" using perform_moves [OF assms(2) reachable_entities [OF assms(1)]] .
  then obtain c where c: "g_clients s e = Some c \<or> g_clients s e = None \<and> c = new_client (cl_id c')" "client_move c c'"
    using assms(3) unfolding moves_def by blast
  have "client_ok c'" using reachable_client_ok [OF reachable_step [OF assms(1,2)] assms(3)] .
  then have first: "(case g_clients s e of
      None \<Rightarrow> cl_state c' = Handshake \<or> state_edge Handshake (cl_state c')
    | Some c \<Rightarrow> cl_id c' = cl_id c \<and> (cl_state c' = cl_state c \<or> state_edge (cl_state c) (cl_state c')) \<and>
        (cl_state c \<in> {Status, Play, Transfer} \<longrightarrow> cl_state c' = cl_state c)) \<and>
    (cl_ready c' \<or> cl_avatar c' \<noteq> None \<longrightarrow> cl_state c' = Play)"
    using c by (auto simp: client_move_def client_ok_def in_world_def new_client_def state_edge.simps split: option.split)
  show ?thesis
  proof (cases "\<exists>m. a = IngestPacket m")
    case True
    then obtain m where a: "a = IngestPacket m" by blast
    then obtain cid p ps where ph: "g_phase s = Processing ((cid, p) # ps)"
      using assms(2) by (auto split: if_splits phase.splits list.splits)
    have "if g_map s' cid = Some e
        then (case g_clients s e of None \<Rightarrow> True | Some c \<Rightarrow> cl_state c = Handshake) \<longrightarrow> cl_state c' = named_state env p
        else g_clients s e = Some c'"
      using ingest_handshake [OF assms(2) [unfolded a] assms(1) ph assms(3)] by auto
    then show ?thesis using first ph a by auto
  next
    case False
    then have "still s s'" using perform_still [OF assms(2)] by blast
    then have "\<exists>c. g_clients s e = Some c \<and> cl_state c' = cl_state c" using assms(3) unfolding still_def by blast
    then show ?thesis using first False by (cases a) auto
  qed
qed

lemma connection_states_in_order_witness:
  "\<exists>(s :: (unit, unit) system) s' e c'. reachable sample_env s \<and> perform sample_env (IngestPacket sample_moment) s = Some s' \<and>
     g_clients s' e = Some c' \<and> (cl_ready c' \<or> cl_avatar c' \<noteq> None \<longrightarrow> cl_state c' = Play)"
proof -
  obtain s s' :: "(unit, unit) system" where s: "perform_all sample_env first_packet_run start = Some s"
      "perform sample_env (IngestPacket sample_moment) s = Some s'" "g_clients s' 0 = Some (new_client 1)"
    using first_packet_handled by blast
  have r: "reachable sample_env s" using reachable_run [OF s(1) reachable_start] .
  show ?thesis using connection_states_in_order [OF r s(2,3)] r s(2,3) by blast
qed


text \<open>
  The handshake is believed: a first packet that names the play state puts a client that never logged in into play,
  without a name, an id or a place in the world.
\<close>

definition play_handshake :: packet where
  "play_handshake = \<lparr>packet_bytes = encode_handshake_packet (PHandshake \<lparr>hs_protocol_version = 775, hs_server_address = [],
     hs_server_port = 25565, hs_next_state = Play\<rparr>), packet_limits = default_limits\<rparr>"

lemma play_handshake_decodes:
  "packet_decode (\<lambda>_. True) decode_handshake_packet play_handshake = Inr (PHandshake \<lparr>hs_protocol_version = 775,
     hs_server_address = [], hs_server_port = 25565, hs_next_state = Play\<rparr>)"
  using handshake_packet.fresh_roundtrip [of default_limits "PHandshake \<lparr>hs_protocol_version = 775,
     hs_server_address = [], hs_server_port = 25565, hs_next_state = Play\<rparr>"]
  by (simp add: packet_decode_def play_handshake_def handshake_fits_def string_fits_def fresh_room_def)

lemma play_without_login:
  "\<exists>(s :: (unit, unit) system) c. reachable sample_env s \<and> g_clients s 0 = Some c \<and> cl_state c = Play \<and>
     cl_player c = None \<and> cl_avatar c = None"
proof -
  let ?run = "[Accept, TaskReceive 0 1 play_handshake, Sync, ReceivePackets 1]"
  have forward: "handle_status_packet (\<lambda>_. True) response play_handshake FastHandshake = (Inr Forward, FastDisabled)"
    for response :: "unit clientbound"
    by (simp add: handle_status_packet_def play_handshake_decodes)
  obtain s :: "(unit, unit) system" where run: "perform_all sample_env ?run start = Some s"
    and phase: "g_phase s = Processing [(1, play_handshake)]" "g_sends s = []"
    and fresh: "g_map s 1 = None" "g_next_entity s = 0" "g_pending s 1 = Some 1"
    by (simp add: run_simps forward)
  let ?s0 = "s\<lparr>g_phase := Processing []\<rparr>"
  obtain s1 where ce: "client_entity 1 ?s0 = (Some 0, s1)" "g_clients s1 0 = Some (new_client 1)"
    using fresh by (simp add: client_entity_def take_pending_def spawn_client_def register_sender_def Let_def)
  obtain s2 c where d: "dispatch_packet sample_env sample_moment 1 0 play_handshake s1 = Some (Inr s2)"
    and c: "g_clients s2 0 = Some c" "cl_state c = Play" "cl_player c = None" "cl_avatar c = None"
    using ce(2) by (simp add: dispatch_packet_def new_client_def sample_env_def play_handshake_decodes respond_def handle_handshake_def)
  have "perform sample_env (IngestPacket sample_moment) s = Some s2"
    using phase ce(1) d by (simp add: ingest_packet_def)
  then have "reachable sample_env s2"
    using reachable_run [OF run reachable_start] reachable_step by blast
  then show ?thesis using c by blast
qed

end
