(* ===== verification/Spec2Isabelle.thy ===== *)
theory Spec2Isabelle
  imports Codec_Properties Frames Nbt_Scan Container_Items World_Save Command_Dispatch Command_Tree Connection_Safety
begin

text \<open>
  VoidMC, a Minecraft server library written in Rust (edition protocol 26.1.2), modelled from its
  sources. Packets arrive in frames on a TCP stream (crate \<open>void-net\<close>), their fields are decoded
  under limits (\<open>void-codec\<close>, \<open>void-protocol\<close>), and systems of the entity component system \<open>void\<close> act
  on them: clients log in and join, clicks change windows and inventories, chat becomes commands, blocks change chunks. Once
  a tick the server sends clients what changed, and \<open>void-world-io\<close> saves the chunks marked dirty.

  Conventions. Words have the width of the code's integers and wrap; \<open>usize\<close> is a natural number
  with the overflow checks of the code written out. A \<open>Result\<close> is a sum, \<open>Inl\<close> the error; a panic,
  where the code can panic, is \<open>None\<close> of an option around the result. A component of an entity is an
  argument, and what a system sends or triggers is a list. Code outside the repository, and the
  tables the build script generates, are parameters.

  The theories, in the order of the imports:

  \<^item> \<open>Void_Prelude\<close>: machine types, checked arithmetic, slices, decimal numerals, named collections.
  \<^item> \<open>Codec_Core\<close>, \<open>Codec_Primitives\<close>, \<open>Codec_Containers\<close>, \<open>Codec_Structs\<close>, \<open>Codec_Properties\<close>
    (\<open>void-codec/src/lib.rs\<close>, \<open>primitives/\<close>): the cursor with its element, allocation and depth budget
    and every decoder and encoder. The locale \<open>decode_impl\<close> is what every decoder keeps (limits and
    depth stay, budgets only fall, the rest is a suffix), \<open>codec\<close> adds the round trip with its cost; both
    are interpreted for every primitive, for vectors and for the packets. The last theory states
    the round trips of strings and VarInts and the budget of a whole packet.
  \<^item> \<open>Frames\<close> (\<open>void-net/src/socket.rs\<close>): a connection as the list of segments its reads deliver, the
    length prefix, the body, and the four ways a frame is refused. The lemmas show that segmentation
    does not matter and that what is sent is received.
  \<^item> \<open>Nbt_Scan\<close>, \<open>Nbt_Wire\<close> (\<open>primitives/nbt.rs\<close>): the scan that bounds an untrusted NBT payload before the
    library reads it. The mutually recursive scan takes fuel; \<open>scan_fuel\<close>, computed from the limits and the
    length of the input, is enough (\<open>decode_nbt_total\<close>), because nesting, elements and bytes are bounded. A grammar
    of payloads, indexed by nesting depth, says what the scan lets through; a second one, with the charges, says
    what it must let through (\<open>nbt_roundtrip\<close>), so that the NBT decoder is a \<open>codec\<close> like the others.
  \<^item> \<open>Slots\<close> (\<open>void-protocol/src/slot.rs\<close>, \<open>click_container.rs\<close>): item components, slots and the click packet.
  \<^item> \<open>Items\<close>, \<open>Stack_Sizes\<close> (\<open>void/src/item.rs\<close>, \<open>void-data/src/stack_sizes.rs\<close>): stacks and their sizes.
  \<^item> \<open>Window\<close> (\<open>void/src/window.rs\<close>): the click engine, all seven inputs. The locale \<open>click_engine\<close> lifts
    the conservation of items and the shape of the window to sequences of clicks.
  \<^item> \<open>Inventory\<close>, \<open>Menu\<close> (\<open>void/src/inventory.rs\<close>, \<open>menu.rs\<close>): the player's slots with the record of what
    changed; menus, their contents and ids. The locale \<open>inventory_op\<close> says an operation records what it
    changes, and is interpreted for each.
  \<^item> \<open>Container_Sync\<close>, \<open>Container_Items\<close> (\<open>void/src/plugins/inventory.rs\<close>): the handlers of clicks and
    closes, and the tick. The specification is the client, a machine that applies the packets; the
    refinement says its window is the server's after each tick. Items are conserved by every handler.
  \<^item> \<open>Bit_Packing\<close>, \<open>Chunk_Sections\<close>, \<open>Chunk_Cells\<close> (\<open>clientbound/play/chunk.rs\<close>): packed arrays and paletted
    containers, refined to plain arrays of cells; and where the palette stops doing that.
  \<^item> \<open>Chunk_Data\<close>, \<open>Chunk_World\<close> (\<open>void/src/world/chunk_entity.rs\<close>, \<open>block_entity.rs\<close>): a loaded chunk as an
    array of blocks between y = -64 and 319, with block entities that sit on blocks that host them.
  \<^item> \<open>Region_File\<close>, \<open>Region_Laws\<close>, \<open>Region_Writes\<close> (\<open>void-world-io/src/region/file.rs\<close>): the sectors of a
    region file on disk, the allocator, the invariant, and a write as an update of a map.
  \<^item> \<open>Region_Store\<close>, \<open>Chunk_Store\<close> (\<open>region/mod.rs\<close>): the files of all regions. The locale \<open>chunk_store\<close> is
    the contract of the trait \<open>ChunkStore\<close> (a write that succeeds is what is read back, one that fails changes
    no chunk), interpreted for the region store.
  \<^item> \<open>Nbt_Tree\<close>, \<open>Chunk_Format\<close>, \<open>World_Save\<close> (\<open>format.rs\<close>, \<open>store.rs\<close>, \<open>systems.rs\<close>): chunks as NBT trees
    and back, saving and loading, the periodic flush and the one at exit; proved in \<open>chunk_store\<close> for
    any store and then for the region store.
  \<^item> \<open>Command_Parsers\<close>, \<open>Command_Flags\<close>, \<open>Command_Registry\<close>, \<open>Command_Dispatch\<close>, \<open>Command_Tree\<close>
    (\<open>void/src/commands/\<close>, \<open>plugins/chat.rs\<close>): parsers, flags, the registry with completion, the queue and
    dispatch, and the tree sent to clients. \<open>drain_command_queue\<close> need not return, as handlers may queue
    commands for ever, and is a partial function; \<open>commands_run_in_order\<close> says when it does.
  \<^item> \<open>Connection_Packets\<close>, \<open>Joining\<close>, \<open>Joining_Laws\<close> (\<open>serverbound/\<close>, \<open>void/src/plugins/\<close> up to play,
    \<open>systems/keep_alive.rs\<close>): the packets before play, and per packet the components its handler
    inserts into the client and the packets it sends.
  \<^item> \<open>Connections\<close>, \<open>Connection_Laws\<close>, \<open>Connection_Safety\<close> (\<open>network.rs\<close>, \<open>server.rs\<close>, \<open>client.rs\<close>, \<open>Outbox\<close>): accept
    loop, client tasks and game thread as actions on one state; \<open>perform\<close> does one action and \<open>reachable\<close> is
    every interleaving. \<open>sys_ok\<close> is the invariant: the game thread knows exactly the clients that are
    connected or whose end it has not handled, one entity each, and queues and kicks are bounded. The list
    \<open>waiting\<close> of packets received and not handled yet only grows at its end and is handled from its front.

  Assumptions that properties name: the zlib parameters undo each other; the NBT library writes trees
  that it reads back, and on the wire as well-formed compounds behind the root header; a section's palette has
  room for the block (\<open>has_room\<close>: past 256 ids the code stores the wrong block, \<open>full_palette_loses_block\<close>); positions and payloads are in the range of the format; a region has room for the
  writes to come (\<open>room\<close>: a header entry has 24 bits of sector number and a write takes 255 at most).

  Not modelled. Floating-point simulation (physics, movement, coordinates, the parsers of floats and
  times) has no counterpart in the libraries used. The derive macros and the build script generate
  code and tables: packets are written out as the derive produces them, tables are parameters. The
  chunk packets beyond sections, the chunk builder, entity metadata and effects, scoreboards and boss
  bars, selectors, the wire format of the command tree, logging, the schedule of systems, shutdown, the tokio
  runtime and the sample games are left out so far. Text is made of the characters U+0000 to U+00FF
  where commands need more than its bytes.
\<close>

end
